(* ===== verification/Xv6_Prelude.thy ===== *)
theory Xv6_Prelude
  imports "HOL-Library.Word"
begin

unbundle bit_operations_syntax

text \<open>
  Shared ground of the development: the outcome type of kernel code, the state-passing
  combinators every operation is written with, a weakest-precondition predicate that the
  simplifier evaluates, memory slices (the model of \<^verbatim>\<open>memmove\<close> into and out of a buffer) and
  little-endian numbers (the model of casting a buffer to a C structure).
\<close>

section \<open>Outcomes of kernel code\<close>

text \<open>
  Kernel code that does not return is a value: \<open>Panic\<close> carries the argument of
  \<^verbatim>\<open>panic()\<close>, \<open>Sleeps\<close> says on what the calling process would go to sleep with nobody
  left to wake it in a run of this process alone, \<open>Exits\<close> is a call of \<^verbatim>\<open>exit()\<close>, and
  \<open>Fault\<close> is an access C leaves undefined (a null pointer, an index out of range).
\<close>

datatype stop = Panic string | Sleeps string | Exits string | Fault string

type_synonym u8 = "8 word"
type_synonym ('s, 'a) K = "'s \<Rightarrow> stop + ('a \<times> 's)"

definition ret :: "'a \<Rightarrow> ('s, 'a) K" where
  "ret x s = Inr (x, s)"

definition stopK :: "stop \<Rightarrow> ('s, 'a) K" where
  "stopK e s = Inl e"

abbreviation panic :: "string \<Rightarrow> ('s, 'a) K" where
  "panic msg \<equiv> stopK (Panic msg)"

definition bindK :: "('s, 'a) K \<Rightarrow> ('a \<Rightarrow> ('s, 'b) K) \<Rightarrow> ('s, 'b) K" where
  "bindK m f s = (case m s of Inl e \<Rightarrow> Inl e | Inr (x, s') \<Rightarrow> f x s')"

definition getK :: "('s \<Rightarrow> 'a) \<Rightarrow> ('s, 'a) K" where
  "getK f s = Inr (f s, s)"

definition modK :: "('s \<Rightarrow> 's) \<Rightarrow> ('s, unit) K" where
  "modK f s = Inr ((), f s)"

definition thenK :: "('s, unit) K \<Rightarrow> ('s, 'b) K \<Rightarrow> ('s, 'b) K" where
  "thenK m n = bindK m (\<lambda>_. n)"

definition whenK :: "bool \<Rightarrow> ('s, unit) K \<Rightarrow> ('s, unit) K" where
  "whenK c m = (if c then m else ret ())"

text \<open>
  A counting loop whose body may leave the enclosing function: the body gives
  \<open>Some r\<close> to return \<open>r\<close> (or to break out with \<open>r\<close>) and \<open>None\<close> to go on.
\<close>

primrec forK :: "'i list \<Rightarrow> ('i \<Rightarrow> ('s, 'r option) K) \<Rightarrow> ('s, 'r option) K" where
  "forK [] body = ret None"
| "forK (i # is) body =
     bindK (body i) (\<lambda>r. case r of None \<Rightarrow> forK is body | Some v \<Rightarrow> ret (Some v))"

section \<open>Weakest preconditions\<close>

text \<open>
  \<open>runs m s P\<close>: the code \<open>m\<close> started in \<open>s\<close> returns, and its result and
  final state satisfy \<open>P\<close>. The equations collected in \<open>wp\<close> let the simplifier
  push it through a body, so a total-correctness proof is a simplification.
\<close>

definition runs :: "('s, 'a) K \<Rightarrow> 's \<Rightarrow> ('a \<Rightarrow> 's \<Rightarrow> bool) \<Rightarrow> bool" where
  "runs m s P = (case m s of Inl _ \<Rightarrow> False | Inr (x, s') \<Rightarrow> P x s')"

named_theorems wp "weakest-precondition equations of the combinators"
named_theorems kdefs "definitions of the state-passing combinators"

lemmas [kdefs] = ret_def stopK_def bindK_def getK_def modK_def thenK_def whenK_def

lemma bindK_eq: "m s = Inr (x, t) \<Longrightarrow> bindK m f s = f x t"
  by (simp add: bindK_def)

lemma bindK_getK: "bindK (getK g) f s = f (g s) s"
  by (simp add: bindK_def getK_def)

lemma runs_ret [wp, simp]: "runs (ret x) s P = P x s"
  by (simp add: runs_def ret_def)

lemma runs_stopK [wp, simp]: "runs (stopK e) s P = False"
  by (simp add: runs_def stopK_def)

lemma runs_getK [wp, simp]: "runs (getK f) s P = P (f s) s"
  by (simp add: runs_def getK_def)

lemma runs_modK [wp, simp]: "runs (modK f) s P = P () (f s)"
  by (simp add: runs_def modK_def)

lemma runs_bindK [wp]: "runs (bindK m f) s P = runs m s (\<lambda>x s'. runs (f x) s' P)"
  by (simp add: runs_def bindK_def split: sum.splits prod.splits)

lemma runs_thenK [wp]: "runs (thenK m n) s P = runs m s (\<lambda>_ s'. runs n s' P)"
  by (simp add: thenK_def runs_bindK)

lemma runs_whenK [wp]:
  "runs (whenK c m) s P = (if c then runs m s P else P () s)"
  by (simp add: whenK_def)

lemma runs_if [wp]: "runs (if c then m else n) s P = (if c then runs m s P else runs n s P)"
  by simp

lemma runsI: "m s = Inr (x, s') \<Longrightarrow> P x s' \<Longrightarrow> runs m s P"
  by (simp add: runs_def)

lemma runsE:
  assumes "runs m s P"
  obtains x s' where "m s = Inr (x, s')" and "P x s'"
  using assms by (auto simp: runs_def split: sum.splits prod.splits)

lemma runs_mono: "runs m s P \<Longrightarrow> (\<And>x s'. P x s' \<Longrightarrow> Q x s') \<Longrightarrow> runs m s Q"
  by (auto simp: runs_def split: sum.splits prod.splits)

lemma runs_eq: "m s = Inr (x, s') \<Longrightarrow> runs m s P = P x s'"
  by (simp add: runs_def)

text \<open>\<open>ends E m s P\<close>: the same, except that the code may also stop with a stop in \<open>E\<close>
  (the disk is full, say).\<close>

definition ends :: "stop set \<Rightarrow> ('s, 'a) K \<Rightarrow> 's \<Rightarrow> ('a \<Rightarrow> 's \<Rightarrow> bool) \<Rightarrow> bool" where
  "ends E m s P = (case m s of Inl e \<Rightarrow> e \<in> E | Inr (x, s') \<Rightarrow> P x s')"

lemma ends_basic [wp, simp]:
  "ends E (ret x) s P = P x s" "ends E (stopK e) s P = (e \<in> E)" "ends E (getK f) s P = P (f s) s"
  "ends E (modK g) s' Q = Q () (g s')"
  by (simp_all add: ends_def kdefs)

lemma ends_bindK [wp]: "ends E (bindK m f) s P = ends E m s (\<lambda>x s'. ends E (f x) s' P)"
  by (simp add: ends_def bindK_def split: sum.splits prod.splits)

lemma ends_thenK [wp]: "ends E (thenK m n) s P = ends E m s (\<lambda>_ s'. ends E n s' P)"
  by (simp add: thenK_def ends_bindK)

lemma ends_whenK [wp]: "ends E (whenK c m) s P = (if c then ends E m s P else P () s)"
  by (simp add: whenK_def)

lemma ends_eq: "m s = Inr (x, s') \<Longrightarrow> ends E m s P = P x s'"
  by (simp add: ends_def)

lemma ends_mono: "ends E m s P \<Longrightarrow> (\<And>x s'. P x s' \<Longrightarrow> Q x s') \<Longrightarrow> ends E m s Q"
  by (auto simp: ends_def split: sum.splits prod.splits)

lemma ends_runs: "ends {} m s P = runs m s P"
  by (simp add: ends_def runs_def split: sum.splits)

lemma runs_ends: "runs m s P \<Longrightarrow> ends E m s P"
  by (auto simp: ends_def runs_def split: sum.splits)

text \<open>A loop whose body never leaves it, with an invariant indexed by the work done.\<close>

lemma runs_forK_None:
  assumes "I 0 s"
    and "\<And>k t. k < length is \<Longrightarrow> I k t \<Longrightarrow>
           runs (body (is ! k)) t (\<lambda>r t'. r = None \<and> I (Suc k) t')"
  shows "runs (forK is body) s (\<lambda>r t. r = None \<and> I (length is) t)"
  using assms
proof (induction "is" arbitrary: s I)
  case Nil
  then show ?case by simp
next
  case (Cons i "is")
  have "runs (body i) s (\<lambda>r t'. r = None \<and> I (Suc 0) t')"
    using Cons.prems(2)[of 0 s] Cons.prems(1) by simp
  then obtain t where t: "body i s = Inr (None, t)" "I (Suc 0) t"
    by (auto elim!: runsE)
  have "runs (forK is body) t (\<lambda>r t. r = None \<and> (\<lambda>k. I (Suc k)) (length is) t)"
    using t(2) Cons.prems(2)[of "Suc k" for k]
    by (intro Cons.IH) fastforce+
  then show ?case
    by (simp add: runs_bindK runs_eq[of "body i", OF t(1)])
qed

section \<open>Simulation between a component and its specification\<close>

text \<open>
  A component and its abstract specification are two interpreters of the same requests.
  The contract: from a state that satisfies the component's invariant, the specification
  run on the abstracted state gives the abstraction of what the component gives, stops
  included. The client lemmas lift it to whole sequences of requests.
\<close>

definition map_state :: "('s \<Rightarrow> 't) \<Rightarrow> stop + ('a \<times> 's) \<Rightarrow> stop + ('a \<times> 't)" where
  "map_state f r = (case r of Inl e \<Rightarrow> Inl e | Inr (x, s) \<Rightarrow> Inr (x, f s))"

lemma map_state_simps [simp]:
  "map_state f (Inl e) = Inl e" "map_state f (Inr (x, s)) = Inr (x, f s)"
  by (simp_all add: map_state_def)

primrec runK :: "('op \<Rightarrow> ('s, 'r) K) \<Rightarrow> 'op list \<Rightarrow> ('s, 'r list) K" where
  "runK step [] = ret []"
| "runK step (x # xs) = bindK (step x) (\<lambda>r. bindK (runK step xs) (\<lambda>rs. ret (r # rs)))"

locale simulation =
  fixes inv :: "'s \<Rightarrow> bool"
    and abs :: "'s \<Rightarrow> 'a"
    and cstep :: "'op \<Rightarrow> ('s, 'r) K"
    and astep :: "'op \<Rightarrow> ('a, 'r) K"
  assumes sim: "inv s \<Longrightarrow> astep x (abs s) = map_state abs (cstep x s)"
    and inv_step: "inv s \<Longrightarrow> cstep x s = Inr (r, s') \<Longrightarrow> inv s'"
begin

lemma run_inv: "inv s \<Longrightarrow> runK cstep xs s = Inr (rs, s') \<Longrightarrow> inv s'"
proof (induction xs arbitrary: s rs)
  case (Cons x xs)
  from Cons.prems(2) obtain r t rs' where
    "cstep x s = Inr (r, t)" "runK cstep xs t = Inr (rs', s')"
    by (auto simp: bindK_def ret_def split: sum.splits prod.splits)
  with Cons show ?case using inv_step by blast
qed (simp add: ret_def)

lemma run_sim: "inv s \<Longrightarrow> runK astep xs (abs s) = map_state abs (runK cstep xs s)"
proof (induction xs arbitrary: s)
  case (Cons x xs)
  show ?case
  proof (cases "cstep x s")
    case (Inl e)
    then show ?thesis using sim[OF Cons.prems, of x] by (simp add: bindK_def)
  next
    case (Inr p)
    obtain r t where p: "p = (r, t)" by (cases p)
    have "inv t" using Cons.prems Inr p inv_step by blast
    from Cons.IH[OF this] Inr p show ?thesis
      using sim[OF Cons.prems, of x]
      by (cases "runK cstep xs t") (auto simp: bindK_def ret_def)
  qed
qed (simp add: ret_def)

end

section \<open>Lists\<close>

lemma nth_update_if: "xs[i := x] ! j = (if i = j \<and> i < length xs then x else xs ! j)"
  by (cases "i < length xs") (auto simp: nth_list_update list_update_beyond not_less)

section \<open>Memory slices\<close>

definition slice :: "nat \<Rightarrow> nat \<Rightarrow> 'a list \<Rightarrow> 'a list" where
  "slice off n xs = take n (drop off xs)"

definition splice :: "nat \<Rightarrow> 'a list \<Rightarrow> 'a list \<Rightarrow> 'a list" where
  "splice off ys xs = take off xs @ ys @ drop (off + length ys) xs"

lemma length_slice [simp]: "off + n \<le> length xs \<Longrightarrow> length (slice off n xs) = n"
  by (simp add: slice_def)

lemma length_splice [simp]:
  "off + length ys \<le> length xs \<Longrightarrow> length (splice off ys xs) = length xs"
  by (simp add: splice_def)

lemma nth_splice:
  "off + length ys \<le> length xs \<Longrightarrow> i < length xs \<Longrightarrow>
   splice off ys xs ! i = (if off \<le> i \<and> i < off + length ys then ys ! (i - off) else xs ! i)"
  by (auto simp: splice_def nth_append min_def)

lemma nth_slice: "i < n \<Longrightarrow> off + n \<le> length xs \<Longrightarrow> slice off n xs ! i = xs ! (off + i)"
  by (simp add: slice_def)

lemma slice_splice_same [simp]:
  "off + length ys \<le> length xs \<Longrightarrow> n = length ys \<Longrightarrow> slice off n (splice off ys xs) = ys"
  by (simp add: slice_def splice_def)

lemma slice_splice_other:
  assumes "off + length ys \<le> length xs" "a + n \<le> length xs"
    and "a + n \<le> off \<or> off + length ys \<le> a"
  shows "slice a n (splice off ys xs) = slice a n xs"
  by (rule nth_equalityI) (use assms in \<open>auto simp: nth_slice nth_splice\<close>)

lemma splice_slice_id [simp]: "off + n \<le> length xs \<Longrightarrow> splice off (slice off n xs) xs = xs"
  by (rule nth_equalityI) (auto simp: nth_splice nth_slice)

section \<open>Little-endian numbers\<close>

primrec le_bytes :: "nat \<Rightarrow> nat \<Rightarrow> u8 list" where
  "le_bytes 0 n = []"
| "le_bytes (Suc k) n = of_nat n # le_bytes k (n div 256)"

fun le_nat :: "u8 list \<Rightarrow> nat" where
  "le_nat [] = 0"
| "le_nat (b # bs) = unat b + 256 * le_nat bs"

lemma length_le_bytes [simp]: "length (le_bytes k n) = k"
  by (induction k arbitrary: n) auto

lemma le_nat_le_bytes: "le_nat (le_bytes k n) = n mod 256 ^ k"
proof (induction k arbitrary: n)
  case (Suc k)
  have "le_nat (le_bytes (Suc k) n) = n mod 256 + 256 * (n div 256 mod 256 ^ k)"
    by (simp add: Suc unat_of_nat)
  also have "\<dots> = n mod 256 ^ Suc k"
    by (simp add: mod_mult2_eq)
  finally show ?case .
qed simp

lemma le_nat_inverse [simp]: "n < 256 ^ k \<Longrightarrow> le_nat (le_bytes k n) = n"
  by (simp add: le_nat_le_bytes)

lemma unat_u8_less: "unat (b :: u8) < 256"
  using unsigned_less[of b] by simp

lemma le_nat_bound: "le_nat bs < 256 ^ length bs"
proof (induction bs)
  case (Cons b bs)
  then have "le_nat bs + 1 \<le> 256 ^ length bs" by simp
  then have "256 * le_nat bs + 256 \<le> 256 * 256 ^ length bs" by linarith
  then show ?case using unat_u8_less[of b] by simp
qed simp

lemma le_bytes_inverse: "length bs = k \<Longrightarrow> le_bytes k (le_nat bs) = bs"
proof (induction bs arbitrary: k)
  case (Cons b bs)
  have "of_nat (unat b + 256 * le_nat bs) = (b :: u8)"
  proof -
    have "(256 :: u8) = 0"
      by simp
    then have "(256 :: u8) * w = 0" for w
      by (simp only: mult_zero_left)
    then show ?thesis by (simp only: of_nat_add of_nat_mult of_nat_numeral of_nat_unat ucast_id add_0_right)
  qed
  moreover have "(unat b + 256 * le_nat bs) div 256 = le_nat bs"
    using unat_u8_less[of b] by simp
  ultimately show ?case using Cons by auto
qed simp

end
