(* ===== verification/Layout.thy ===== *)
theory Layout
  imports Xv6_Prelude
begin

text \<open>
  The on-disk format (\<^verbatim>\<open>fs.h\<close>, \<^verbatim>\<open>param.h\<close>, the log header of \<^verbatim>\<open>log.c\<close>): the constants, the
  structures that are read and written by casting a block's bytes, and where they stand in
  a block. Unsigned fields are natural numbers, \<^verbatim>\<open>short\<close> fields integers; the encoders cut
  them to their width, the round-trip lemmas hold for values that fit.
\<close>

section \<open>Constants\<close>

abbreviation BSIZE :: nat where "BSIZE \<equiv> 512"
abbreviation NDIRECT :: nat where "NDIRECT \<equiv> 11"
abbreviation NINDIRECT :: nat where "NINDIRECT \<equiv> 128"
abbreviation D_INDIRECT_INSTANCE :: nat where "D_INDIRECT_INSTANCE \<equiv> 128"
abbreviation D_INDIRECT :: nat where "D_INDIRECT \<equiv> 16384"
abbreviation MAXFILE :: nat where "MAXFILE \<equiv> 16523"
abbreviation IPB :: nat where "IPB \<equiv> 8"
abbreviation BPB :: nat where "BPB \<equiv> 4096"
abbreviation DIRSIZ :: nat where "DIRSIZ \<equiv> 14"
abbreviation NINODE :: nat where "NINODE \<equiv> 50"
abbreviation NFILE :: nat where "NFILE \<equiv> 100"
abbreviation NOFILE :: nat where "NOFILE \<equiv> 16"
abbreviation NDEV :: nat where "NDEV \<equiv> 10"
abbreviation LOGSIZE :: nat where "LOGSIZE \<equiv> 30"
abbreviation MAXOPBLOCKS :: nat where "MAXOPBLOCKS \<equiv> 10"

abbreviation T_DIR :: int where "T_DIR \<equiv> 1"
abbreviation T_FILE :: int where "T_FILE \<equiv> 2"
abbreviation T_DEV :: int where "T_DEV \<equiv> 3"
abbreviation T_SYMLINK :: int where "T_SYMLINK \<equiv> 4"
abbreviation T_EXTENT :: int where "T_EXTENT \<equiv> 5"

definition ROOTINO :: nat where "ROOTINO = 1"
definition ROOTDEV :: nat where "ROOTDEV = 1"
definition NBUF :: nat where "NBUF = 30"

type_synonym block = "u8 list"

definition zero_block :: block where
  "zero_block = replicate BSIZE 0"

definition fits32 :: "nat \<Rightarrow> bool" where
  "fits32 n \<longleftrightarrow> n < 4294967296"

section \<open>Structures\<close>

record superblock =
  sb_size :: nat
  sb_nblocks :: nat
  sb_ninodes :: nat
  sb_nlog :: nat
  sb_logstart :: nat
  sb_inodestart :: nat
  sb_bmapstart :: nat

record dinode =
  d_type :: int
  d_major :: int
  d_minor :: int
  d_nlink :: int
  d_size :: nat
  d_addrs :: "nat list"

record dirent =
  de_inum :: nat
  de_name :: "u8 list"

definition IBLOCK :: "nat \<Rightarrow> superblock \<Rightarrow> nat" where
  "IBLOCK i sb = i div IPB + sb_inodestart sb"

definition BBLOCK :: "nat \<Rightarrow> superblock \<Rightarrow> nat" where
  "BBLOCK b sb = b div BPB + sb_bmapstart sb"

text \<open>The value of a two-byte signed field, and the wrap-around of arithmetic on it.\<close>

definition short_of :: "nat \<Rightarrow> int" where
  "short_of n = (if n < 32768 then int n else int n - 65536)"

definition to_short :: "int \<Rightarrow> int" where
  "to_short x = short_of (nat (x mod 65536))"

definition fits16 :: "int \<Rightarrow> bool" where
  "fits16 x \<longleftrightarrow> -32768 \<le> x \<and> x < 32768"

definition enc_short :: "int \<Rightarrow> u8 list" where
  "enc_short x = le_bytes 2 (nat (x mod 65536))"

definition dec_short :: "u8 list \<Rightarrow> int" where
  "dec_short bs = short_of (le_nat bs)"

definition enc_u32s :: "nat list \<Rightarrow> u8 list" where
  "enc_u32s xs = concat (map (le_bytes 4) xs)"

primrec dec_u32s :: "nat \<Rightarrow> u8 list \<Rightarrow> nat list" where
  "dec_u32s 0 bs = []"
| "dec_u32s (Suc n) bs = le_nat (take 4 bs) # dec_u32s n (drop 4 bs)"

definition enc_superblock :: "superblock \<Rightarrow> u8 list" where
  "enc_superblock sb = enc_u32s [sb_size sb, sb_nblocks sb, sb_ninodes sb, sb_nlog sb,
     sb_logstart sb, sb_inodestart sb, sb_bmapstart sb]"

definition dec_superblock :: "u8 list \<Rightarrow> superblock" where
  "dec_superblock bs =
     (let v = dec_u32s 7 bs in
      \<lparr>sb_size = v ! 0, sb_nblocks = v ! 1, sb_ninodes = v ! 2, sb_nlog = v ! 3,
       sb_logstart = v ! 4, sb_inodestart = v ! 5, sb_bmapstart = v ! 6\<rparr>)"

definition enc_dinode :: "dinode \<Rightarrow> u8 list" where
  "enc_dinode d = enc_short (d_type d) @ enc_short (d_major d) @ enc_short (d_minor d) @
     enc_short (d_nlink d) @ enc_u32s (d_size d # d_addrs d)"

definition dec_dinode :: "u8 list \<Rightarrow> dinode" where
  "dec_dinode bs =
     \<lparr>d_type = dec_short (slice 0 2 bs), d_major = dec_short (slice 2 2 bs),
      d_minor = dec_short (slice 4 2 bs), d_nlink = dec_short (slice 6 2 bs),
      d_size = le_nat (slice 8 4 bs), d_addrs = dec_u32s 13 (drop 12 bs)\<rparr>"

definition enc_dirent :: "dirent \<Rightarrow> u8 list" where
  "enc_dirent de = le_bytes 2 (de_inum de) @ de_name de"

definition dec_dirent :: "u8 list \<Rightarrow> dirent" where
  "dec_dirent bs = \<lparr>de_inum = le_nat (take 2 bs), de_name = take DIRSIZ (drop 2 bs)\<rparr>"

text \<open>A structure at its place in a block: the \<open>k\<close>-th inode, the \<open>k\<close>-th word.\<close>

definition get_dinode :: "block \<Rightarrow> nat \<Rightarrow> dinode" where
  "get_dinode blk k = dec_dinode (slice (64 * k) 64 blk)"

definition put_dinode :: "block \<Rightarrow> nat \<Rightarrow> dinode \<Rightarrow> block" where
  "put_dinode blk k d = splice (64 * k) (enc_dinode d) blk"

definition get_u32 :: "block \<Rightarrow> nat \<Rightarrow> nat" where
  "get_u32 blk k = le_nat (slice (4 * k) 4 blk)"

definition put_u32 :: "block \<Rightarrow> nat \<Rightarrow> nat \<Rightarrow> block" where
  "put_u32 blk k v = splice (4 * k) (le_bytes 4 v) blk"

definition zero_dinode :: dinode where
  "zero_dinode = \<lparr>d_type = 0, d_major = 0, d_minor = 0, d_nlink = 0, d_size = 0,
     d_addrs = replicate 13 0\<rparr>"

definition dinode_ok :: "dinode \<Rightarrow> bool" where
  "dinode_ok d \<longleftrightarrow> fits16 (d_type d) \<and> fits16 (d_major d) \<and> fits16 (d_minor d) \<and>
     fits16 (d_nlink d) \<and> fits32 (d_size d) \<and> length (d_addrs d) = 13 \<and>
     (\<forall>a \<in> set (d_addrs d). fits32 a)"

section \<open>Round trips\<close>

lemma length_zero_block [simp]: "length zero_block = BSIZE"
  by (simp add: zero_block_def)

lemma fits16_to_short [simp]: "fits16 (to_short x)"
proof -
  have "nat (x mod 65536) < 65536" by (simp add: nat_less_iff)
  then show ?thesis by (auto simp: fits16_def to_short_def short_of_def)
qed

lemma to_short_id [simp]: "fits16 x \<Longrightarrow> to_short x = x"
proof (cases "0 \<le> x")
  case True
  assume "fits16 x"
  with True show ?thesis by (auto simp: fits16_def to_short_def short_of_def)
next
  case False
  assume "fits16 x"
  with False have "(x + 65536) mod 65536 = x + 65536"
    by (intro mod_pos_pos_trivial) (auto simp: fits16_def)
  then have "x mod 65536 = x + 65536" by simp
  with False \<open>fits16 x\<close> show ?thesis by (auto simp: fits16_def to_short_def short_of_def)
qed

lemma dec_enc_short [simp]: "fits16 x \<Longrightarrow> dec_short (enc_short x) = x"
proof -
  assume "fits16 x"
  have "nat (x mod 65536) < 256 ^ 2" by (simp add: nat_less_iff)
  then have "dec_short (enc_short x) = to_short x"
    by (simp add: dec_short_def enc_short_def to_short_def del: power2_eq_square)
  with \<open>fits16 x\<close> show ?thesis by simp
qed

lemma length_enc_short [simp]: "length (enc_short x) = 2"
  by (simp add: enc_short_def)

lemma length_enc_u32s [simp]: "length (enc_u32s xs) = 4 * length xs"
  by (induction xs) (auto simp: enc_u32s_def)

lemma enc_u32s_simps [simp]:
  "enc_u32s [] = []" "enc_u32s (x # xs) = le_bytes 4 x @ enc_u32s xs"
  by (simp_all add: enc_u32s_def)

lemma le_nat_le_bytes_4 [simp]: "fits32 n \<Longrightarrow> le_nat (le_bytes 4 n) = n"
  by (simp add: fits32_def)

lemma fits32_le_nat [simp]: "length bs \<le> 4 \<Longrightarrow> fits32 (le_nat bs)"
proof -
  assume "length bs \<le> 4"
  then have "(256 :: nat) ^ length bs \<le> 256 ^ 4" by (intro power_increasing) auto
  with le_nat_bound[of bs] show ?thesis by (simp add: fits32_def)
qed

lemma dec_enc_u32s [simp]:
  "\<forall>x \<in> set xs. fits32 x \<Longrightarrow> n = length xs \<Longrightarrow> dec_u32s n (enc_u32s xs @ ys) = xs"
  by (induction xs arbitrary: n) auto

lemma length_dec_u32s [simp]: "length (dec_u32s n bs) = n"
  by (induction n arbitrary: bs) auto

lemma dec_u32s_fits: "x \<in> set (dec_u32s n bs) \<Longrightarrow> fits32 x"
  by (induction n arbitrary: bs) auto

lemma enc_dec_u32s: "length bs = 4 * n \<Longrightarrow> enc_u32s (dec_u32s n bs) = bs"
  by (induction n arbitrary: bs) (auto simp: le_bytes_inverse)

lemma length_enc_dinode [simp]: "length (d_addrs d) = 13 \<Longrightarrow> length (enc_dinode d) = 64"
  by (simp add: enc_dinode_def)

lemma dec_enc_dinode [simp]: "dinode_ok d \<Longrightarrow> dec_dinode (enc_dinode d) = d"
proof -
  assume ok: "dinode_ok d"
  have "enc_dinode d = enc_short (d_type d) @ (enc_short (d_major d) @ (enc_short (d_minor d) @
    (enc_short (d_nlink d) @ (le_bytes 4 (d_size d) @ enc_u32s (d_addrs d)))))"
    by (simp add: enc_dinode_def)
  with ok show ?thesis
    using dec_enc_u32s[of "d_addrs d" 13 "[]"]
    by (simp add: dec_dinode_def slice_def dinode_ok_def)
qed

lemma dec_enc_superblock:
  "list_all fits32 [sb_size sb, sb_nblocks sb, sb_ninodes sb, sb_nlog sb, sb_logstart sb,
     sb_inodestart sb, sb_bmapstart sb] \<Longrightarrow> dec_superblock (enc_superblock sb @ ys) = sb"
  unfolding enc_superblock_def dec_superblock_def
  by (subst dec_enc_u32s) (auto simp: Let_def)

lemma dec_enc_dirent [simp]:
  "de_inum de < 65536 \<Longrightarrow> length (de_name de) = DIRSIZ \<Longrightarrow> dec_dirent (enc_dirent de) = de"
  by (simp add: dec_dirent_def enc_dirent_def)

lemma length_enc_dirent [simp]: "length (de_name de) = DIRSIZ \<Longrightarrow> length (enc_dirent de) = 16"
  by (simp add: enc_dirent_def)

section \<open>Structures in a block\<close>

lemma length_put_dinode [simp]:
  "length blk = BSIZE \<Longrightarrow> k < IPB \<Longrightarrow> length (d_addrs d) = 13 \<Longrightarrow>
   length (put_dinode blk k d) = BSIZE"
  by (simp add: put_dinode_def)

lemma get_put_dinode [simp]:
  "length blk = BSIZE \<Longrightarrow> k < IPB \<Longrightarrow> dinode_ok d \<Longrightarrow> get_dinode (put_dinode blk k d) k = d"
  by (simp add: get_dinode_def put_dinode_def dinode_ok_def[THEN iffD1])

lemma get_put_dinode_other [simp]:
  "length blk = BSIZE \<Longrightarrow> k < IPB \<Longrightarrow> j < IPB \<Longrightarrow> j \<noteq> k \<Longrightarrow> length (d_addrs d) = 13 \<Longrightarrow>
   get_dinode (put_dinode blk k d) j = get_dinode blk j"
  unfolding get_dinode_def put_dinode_def by (subst slice_splice_other) auto

lemma length_put_u32 [simp]:
  "length blk = BSIZE \<Longrightarrow> k < NINDIRECT \<Longrightarrow> length (put_u32 blk k v) = BSIZE"
  by (simp add: put_u32_def)

lemma get_put_u32 [simp]:
  "length blk = BSIZE \<Longrightarrow> k < NINDIRECT \<Longrightarrow> fits32 v \<Longrightarrow> get_u32 (put_u32 blk k v) k = v"
  by (simp add: get_u32_def put_u32_def)

lemma get_put_u32_other [simp]:
  "length blk = BSIZE \<Longrightarrow> k < NINDIRECT \<Longrightarrow> j < NINDIRECT \<Longrightarrow> j \<noteq> k \<Longrightarrow>
   get_u32 (put_u32 blk k v) j = get_u32 blk j"
  unfolding get_u32_def put_u32_def by (subst slice_splice_other) auto

lemma fits32_get_u32 [simp]: "fits32 (get_u32 blk k)"
  by (simp add: get_u32_def slice_def)

lemma le_nat_replicate_0 [simp]: "le_nat (replicate n 0) = 0"
  by (induction n) auto

lemma get_u32_zero_block [simp]: "k < NINDIRECT \<Longrightarrow> get_u32 zero_block k = 0"
  by (simp add: get_u32_def zero_block_def slice_def)

lemma dinode_ok_get_dinode [simp]: "dinode_ok (get_dinode blk k)"
proof -
  have "fits16 (dec_short bs)" if "length bs \<le> 2" for bs
  proof -
    have "(256 :: nat) ^ length bs \<le> 256 ^ 2" using that by (intro power_increasing) auto
    with le_nat_bound[of bs] have "le_nat bs < 65536" by simp
    then show ?thesis by (auto simp: dec_short_def short_of_def fits16_def)
  qed
  then show ?thesis
    by (auto simp: get_dinode_def dec_dinode_def dinode_ok_def slice_def intro: dec_u32s_fits)
qed

lemma dinode_ok_zero [simp]: "dinode_ok zero_dinode"
  by (simp add: dinode_ok_def zero_dinode_def fits16_def fits32_def)

end
