(* ===== verification/Bstore.thy ===== *)
theory Bstore
  imports Layout
begin

text \<open>
  What the buffer cache promises to its clients (\<^verbatim>\<open>log.c\<close>, \<^verbatim>\<open>fs.c\<close>): a store of blocks of the
  one disk. \<open>blk\<close> is the content a reader gets, \<open>platter\<close> what is on the disk,
  \<open>held\<close> the blocks whose buffer the running process has locked and \<open>dirty\<close> those
  pinned by \<open>B_DIRTY\<close>. Which buffer holds a block, and in which order unused buffers are
  recycled, is not visible here; theory \<open>Bio\<close> shows that the code of \<^verbatim>\<open>bio.c\<close> implements
  exactly these operations.
\<close>

record bstore =
  blk :: "nat \<Rightarrow> block"
  platter :: "nat \<Rightarrow> block"
  dsize :: nat
  held :: "nat set"
  dirty :: "nat set"

definition bread_spec :: "nat \<Rightarrow> ('e bstore_scheme, nat) K" where
  "bread_spec b s =
     (if b \<in> held s then Inl (Sleeps ''buffer'')
      else if b \<notin> dirty s \<and> NBUF \<le> card (held s \<union> dirty s) then Inl (Panic ''bget: no buffers'')
      else if b \<notin> dirty s \<and> dsize s \<le> b then Inl (Panic ''iderw: block out of range'')
      else Inr (b, s\<lparr>held := insert b (held s)\<rparr>))"

definition brelse_spec :: "nat \<Rightarrow> ('e bstore_scheme, unit) K" where
  "brelse_spec b s =
     (if b \<notin> held s then Inl (Panic ''brelse'') else Inr ((), s\<lparr>held := held s - {b}\<rparr>))"

definition bwrite_spec :: "nat \<Rightarrow> ('e bstore_scheme, unit) K" where
  "bwrite_spec b s =
     (if b \<notin> held s then Inl (Panic ''bwrite'')
      else Inr ((), s\<lparr>platter := (platter s)(b := blk s b), dirty := dirty s - {b}\<rparr>))"

text \<open>An assignment through \<open>bp->data\<close> of a buffer.\<close>

definition set_data :: "nat \<Rightarrow> block \<Rightarrow> 'e bstore_scheme \<Rightarrow> 'e bstore_scheme" where
  "set_data b d s = s\<lparr>blk := (blk s)(b := d)\<rparr>"

end
