(* ===== verification/Ring.thy ===== *)
theory Ring
  imports Main
begin

text \<open>
  Circular doubly linked lists through a sentinel, as \<^verbatim>\<open>bio.c\<close> keeps its buffers: the
  pointers are two functions on indices, \<open>dll\<close> relates them to the HOL list of the
  elements between the sentinel and itself. Unlinking, inserting behind the sentinel and
  walking in either direction are shown to be the list operations they mean.
\<close>

primrec chain :: "(nat \<Rightarrow> nat) \<Rightarrow> nat \<Rightarrow> nat list \<Rightarrow> nat \<Rightarrow> bool" where
  "chain nx a [] z \<longleftrightarrow> nx a = z"
| "chain nx a (x # xs) z \<longleftrightarrow> nx a = x \<and> chain nx x xs z"

definition dll :: "nat \<Rightarrow> (nat \<Rightarrow> nat) \<Rightarrow> (nat \<Rightarrow> nat) \<Rightarrow> nat list \<Rightarrow> bool" where
  "dll h nx pv xs \<longleftrightarrow> chain nx h xs h \<and> chain pv h (rev xs) h \<and> distinct (h # xs)"

text \<open>Walking from \<open>b\<close> until the sentinel \<open>h\<close> or an element that satisfies \<open>hit\<close>;
  the fuel bounds the number of steps.\<close>

primrec walk :: "nat \<Rightarrow> nat \<Rightarrow> (nat \<Rightarrow> nat) \<Rightarrow> (nat \<Rightarrow> bool) \<Rightarrow> nat \<Rightarrow> nat option" where
  "walk 0 h nx hit b = None"
| "walk (Suc k) h nx hit b =
     (if b = h then Some h else if hit b then Some b else walk k h nx hit (nx b))"

lemma chain_append [simp]:
  "chain nx a (xs @ y # ys) z \<longleftrightarrow> chain nx a xs y \<and> chain nx y ys z"
  by (induction xs arbitrary: a) auto

lemma chain_upd: "u \<notin> set (a # xs) \<Longrightarrow> chain (nx(u := v)) a xs z = chain nx a xs z"
  by (induction xs arbitrary: a) auto

lemma chain_first: "chain nx a xs z \<Longrightarrow> nx a = hd (xs @ [z])"
  by (cases xs) auto

lemma chain_redirect_last:
  "chain nx a xs z \<Longrightarrow> distinct (a # xs) \<Longrightarrow> chain (nx(last (a # xs) := z')) a xs z'"
proof (induction xs arbitrary: a)
  case (Cons x xs)
  then have "last (x # xs) \<noteq> a" by (metis distinct.simps(2) last_in_set list.discI)
  with Cons show ?case by auto
qed simp

lemma chain_bypass:
  assumes "chain nx a (ys @ b # zs) z" "distinct (a # ys @ b # zs)"
  shows "chain (nx(last (a # ys) := nx b)) a (ys @ zs) z"
proof -
  let ?n = "nx(last (a # ys) := nx b)"
  have 1: "chain nx a ys b" and 2: "chain nx b zs z" using assms(1) by auto
  have last: "last (a # ys) \<in> set (a # ys)" using last_in_set by blast
  have 3: "chain ?n a ys (nx b)"
    using chain_redirect_last[OF 1] assms(2) by auto
  show ?thesis
  proof (cases zs)
    case Nil
    with 2 3 show ?thesis by simp
  next
    case (Cons c cs)
    with 2 have "nx b = c" "chain nx c cs z" by auto
    moreover have "last (a # ys) \<notin> set (c # cs)" using last assms(2) Cons by auto
    ultimately show ?thesis using 3 Cons by (simp add: chain_upd)
  qed
qed

lemma dll_ends: "dll h nx pv (ys @ b # zs) \<Longrightarrow> nx b = hd (zs @ [h]) \<and> pv b = last (h # ys)"
proof -
  assume "dll h nx pv (ys @ b # zs)"
  then have "chain nx b zs h" "chain pv b (rev ys) h" by (auto simp: dll_def)
  from this[THEN chain_first] show ?thesis by (auto simp: hd_append hd_rev)
qed

lemma dll_unlink:
  assumes "dll h nx pv (ys @ b # zs)"
  shows "dll h (nx(pv b := nx b)) (pv(nx b := pv b)) (ys @ zs)"
proof -
  note ends = dll_ends[OF assms]
  have nx: "chain nx h (ys @ b # zs) h" and pv: "chain pv h (rev zs @ b # rev ys) h"
    and d: "distinct (h # ys @ b # zs)"
    using assms by (auto simp: dll_def)
  have "chain (nx(pv b := nx b)) h (ys @ zs) h"
    using chain_bypass[OF nx d] ends by simp
  moreover have "last (h # rev zs) = nx b"
    using ends by (cases zs) auto
  then have "chain (pv(nx b := pv b)) h (rev zs @ rev ys) h"
    using chain_bypass[OF pv] d by (simp add: Int_commute)
  ultimately show ?thesis using d by (simp add: dll_def)
qed

lemma dll_insert:
  assumes "dll h nx pv xs" "b \<notin> set (h # xs)"
  shows "dll h (nx(b := nx h, h := b)) (pv(b := h, nx h := b)) (b # xs)"
proof -
  have first: "nx h = hd (xs @ [h])" using assms chain_first by (auto simp: dll_def)
  have d: "distinct (h # xs)" using assms by (simp add: dll_def)
  have "chain (nx(b := nx h, h := b)) b xs h"
  proof (cases xs)
    case (Cons c cs)
    with assms d show ?thesis by (auto simp: dll_def chain_upd)
  qed (use assms in \<open>auto simp: dll_def\<close>)
  moreover have "chain (pv(b := h, nx h := b)) h (rev xs) b"
  proof -
    have "chain (pv(b := h)) h (rev xs) h"
      using assms by (auto simp: dll_def chain_upd)
    moreover have "last (h # rev xs) = nx h" using first by (cases xs) auto
    ultimately show ?thesis
      using chain_redirect_last[of "pv(b := h)" h "rev xs" h b] d by simp
  qed
  moreover have "nx h \<noteq> b" using first assms(2) by (cases xs) auto
  ultimately show ?thesis using assms d by (auto simp: dll_def)
qed

lemma walk_chain:
  "chain nx b xs h \<Longrightarrow> h \<notin> set (b # xs) \<Longrightarrow> length xs < k \<Longrightarrow>
   walk (Suc k) h nx hit b = Some (case find hit (b # xs) of None \<Rightarrow> h | Some x \<Rightarrow> x)"
proof (induction xs arbitrary: b k)
  case Nil
  then show ?case by (cases k) auto
next
  case (Cons x xs)
  then obtain k' where k: "k = Suc k'" "length xs < k'" by (cases k) auto
  with Cons show ?case by auto
qed

lemma walk_next:
  assumes "dll h nx pv xs" "length xs < k"
  shows "walk k h nx hit (nx h) = Some (case find hit xs of None \<Rightarrow> h | Some x \<Rightarrow> x)"
proof (cases xs)
  case Nil
  with assms show ?thesis by (cases k) (auto simp: dll_def)
next
  case (Cons x ys)
  with assms obtain k' where "k = Suc k'" "length ys < k'" by (cases k) auto
  with assms Cons show ?thesis using walk_chain[of nx x ys h k' hit] by (auto simp: dll_def)
qed

lemma dll_rev: "dll h nx pv xs \<Longrightarrow> dll h pv nx (rev xs)"
  by (simp add: dll_def)

lemma walk_prev:
  "dll h nx pv xs \<Longrightarrow> length xs < k \<Longrightarrow>
   walk k h pv hit (pv h) = Some (case find hit (rev xs) of None \<Rightarrow> h | Some x \<Rightarrow> x)"
  using walk_next[OF dll_rev] by simp

declare walk.simps [simp del]

end
