(* ===== verification/Locks.thy ===== *)
theory Locks
  imports Xv6_Prelude
begin

text \<open>
  Locks. Sleep locks (\<^verbatim>\<open>sleeplock.c\<close>) are part of the state of buffers and inodes: the
  operations below are the code's, with the identity of the running process as an argument
  and \<open>Sleeps\<close> for the wait on a lock that is taken.
\<close>

section \<open>Sleep locks\<close>

record sleeplock =
  sl_locked :: bool
  sl_pid :: int

definition initsleeplock :: sleeplock where
  "initsleeplock = \<lparr>sl_locked = False, sl_pid = 0\<rparr>"

definition acquiresleep :: "string \<Rightarrow> int \<Rightarrow> sleeplock \<Rightarrow> stop + sleeplock" where
  "acquiresleep name pid lk =
     (if sl_locked lk then Inl (Sleeps name) else Inr \<lparr>sl_locked = True, sl_pid = pid\<rparr>)"

definition releasesleep :: "sleeplock \<Rightarrow> sleeplock" where
  "releasesleep lk = \<lparr>sl_locked = False, sl_pid = 0\<rparr>"

definition holdingsleep :: "int \<Rightarrow> sleeplock \<Rightarrow> bool" where
  "holdingsleep pid lk \<longleftrightarrow> sl_locked lk \<and> sl_pid lk = pid"

end
