(* ===== verification/Bio.thy ===== *)
theory Bio
  imports Bstore Ring Locks
begin

text \<open>
  The buffer cache (\<^verbatim>\<open>bio.c\<close>) over the in-memory disk driver (\<^verbatim>\<open>memide.c\<close>, the driver of the
  \<^verbatim>\<open>kernelmemfs\<close> build; theory \<open>Ide\<close> relates the interrupt-driven \<^verbatim>\<open>ide.c\<close> to it).
  Buffers are numbered \<open>0..29\<close>, the list sentinel \<^verbatim>\<open>bcache.head\<close> is index \<open>30\<close>; the
  links \<^verbatim>\<open>next\<close> and \<^verbatim>\<open>prev\<close> are functions on indices. The spin lock \<^verbatim>\<open>bcache.lock\<close> makes each
  section between its acquire and release one step, so it does not appear in the state.
  \<open>writes\<close> records the blocks written to the disk in order: the places where power can
  fail between two writes.
\<close>

section \<open>State\<close>

record buf =
  b_valid :: bool
  b_dirty :: bool
  b_dev :: nat
  b_blockno :: nat
  b_lock :: sleeplock
  b_refcnt :: nat
  b_data :: block

record bio =
  cur_pid :: int
  memdisk :: "nat \<Rightarrow> block"
  disksize :: nat
  writes :: "(nat \<times> block) list"
  bufs :: "buf list"
  b_next :: "nat \<Rightarrow> nat"
  b_prev :: "nat \<Rightarrow> nat"

abbreviation HEAD :: nat where "HEAD \<equiv> NBUF"

definition bss_buf :: buf where
  "bss_buf = \<lparr>b_valid = False, b_dirty = False, b_dev = 0, b_blockno = 0,
     b_lock = \<lparr>sl_locked = False, sl_pid = 0\<rparr>, b_refcnt = 0, b_data = zero_block\<rparr>"

definition upd_buf :: "nat \<Rightarrow> (buf \<Rightarrow> buf) \<Rightarrow> 'e bio_scheme \<Rightarrow> 'e bio_scheme" where
  "upd_buf i f s = s\<lparr>bufs := (bufs s)[i := f (bufs s ! i)]\<rparr>"

section \<open>The in-memory disk\<close>

definition iderw :: "nat \<Rightarrow> ('e bio_scheme, unit) K" where
  "iderw i s =
     (let b = bufs s ! i in
      if \<not> holdingsleep (cur_pid s) (b_lock b) then Inl (Panic ''iderw: buf not locked'')
      else if b_valid b \<and> \<not> b_dirty b then Inl (Panic ''iderw: nothing to do'')
      else if b_dev b \<noteq> ROOTDEV then Inl (Panic ''iderw: request not for disk 1'')
      else if b_blockno b \<ge> disksize s then Inl (Panic ''iderw: block out of range'')
      else if b_dirty b then
        Inr ((), upd_buf i (\<lambda>b. b\<lparr>b_dirty := False, b_valid := True\<rparr>)
          (s\<lparr>memdisk := (memdisk s)(b_blockno b := b_data b),
             writes := writes s @ [(b_blockno b, b_data b)]\<rparr>))
      else
        Inr ((), upd_buf i (\<lambda>c. c\<lparr>b_data := memdisk s (b_blockno b), b_valid := True\<rparr>) s))"

section \<open>The cache\<close>

definition link_front :: "nat \<Rightarrow> 'e bio_scheme \<Rightarrow> 'e bio_scheme" where
  "link_front b s =
     (let s1 = s\<lparr>b_next := (b_next s)(b := b_next s HEAD), b_prev := (b_prev s)(b := HEAD)\<rparr>;
          s2 = s1\<lparr>b_prev := (b_prev s1)(b_next s1 HEAD := b)\<rparr>
      in s2\<lparr>b_next := (b_next s2)(HEAD := b)\<rparr>)"

definition unlink_buf :: "nat \<Rightarrow> 'e bio_scheme \<Rightarrow> 'e bio_scheme" where
  "unlink_buf b s =
     (let s1 = s\<lparr>b_prev := (b_prev s)(b_next s b := b_prev s b)\<rparr>
      in s1\<lparr>b_next := (b_next s1)(b_prev s1 b := b_next s1 b)\<rparr>)"

definition binit :: "'e bio_scheme \<Rightarrow> 'e bio_scheme" where
  "binit s =
     fold (\<lambda>b s. link_front b (upd_buf b (\<lambda>c. c\<lparr>b_lock := initsleeplock\<rparr>) s)) [0..<NBUF]
       (s\<lparr>b_prev := (b_prev s)(HEAD := HEAD), b_next := (b_next s)(HEAD := HEAD)\<rparr>)"

definition lock_buf :: "nat \<Rightarrow> ('e bio_scheme, nat) K" where
  "lock_buf i s =
     (case acquiresleep ''buffer'' (cur_pid s) (b_lock (bufs s ! i)) of
        Inl e \<Rightarrow> Inl e
      | Inr lk \<Rightarrow> Inr (i, upd_buf i (\<lambda>c. c\<lparr>b_lock := lk\<rparr>) s))"

definition bget :: "nat \<Rightarrow> nat \<Rightarrow> ('e bio_scheme, nat) K" where
  "bget dev blockno s =
     (case walk (Suc NBUF) HEAD (b_next s)
         (\<lambda>b. b_dev (bufs s ! b) = dev \<and> b_blockno (bufs s ! b) = blockno) (b_next s HEAD) of
        None \<Rightarrow> Inl (Fault ''bcache list does not end'')
      | Some b \<Rightarrow>
          if b \<noteq> HEAD then lock_buf b (upd_buf b (\<lambda>c. c\<lparr>b_refcnt := b_refcnt c + 1\<rparr>) s)
          else
            (case walk (Suc NBUF) HEAD (b_prev s)
                (\<lambda>b. b_refcnt (bufs s ! b) = 0 \<and> \<not> b_dirty (bufs s ! b)) (b_prev s HEAD) of
               None \<Rightarrow> Inl (Fault ''bcache list does not end'')
             | Some b \<Rightarrow>
                 if b \<noteq> HEAD then
                   lock_buf b (upd_buf b (\<lambda>c. c\<lparr>b_dev := dev, b_blockno := blockno,
                     b_valid := False, b_dirty := False, b_refcnt := 1\<rparr>) s)
                 else Inl (Panic ''bget: no buffers'')))"

definition bread :: "nat \<Rightarrow> nat \<Rightarrow> ('e bio_scheme, nat) K" where
  "bread dev blockno =
     bindK (bget dev blockno) (\<lambda>b.
     bindK (getK (\<lambda>s. b_valid (bufs s ! b))) (\<lambda>v.
     thenK (whenK (\<not> v) (iderw b))
     (ret b)))"

definition bwrite :: "nat \<Rightarrow> ('e bio_scheme, unit) K" where
  "bwrite b =
     bindK (getK (\<lambda>s. holdingsleep (cur_pid s) (b_lock (bufs s ! b)))) (\<lambda>h.
     if \<not> h then panic ''bwrite''
     else thenK (modK (upd_buf b (\<lambda>c. c\<lparr>b_dirty := True\<rparr>))) (iderw b))"

definition brelse :: "nat \<Rightarrow> ('e bio_scheme, unit) K" where
  "brelse b =
     bindK (getK (\<lambda>s. holdingsleep (cur_pid s) (b_lock (bufs s ! b)))) (\<lambda>h.
     if \<not> h then panic ''brelse''
     else
       thenK (modK (upd_buf b (\<lambda>c. c\<lparr>b_lock := releasesleep (b_lock c)\<rparr>)))
       (thenK (modK (upd_buf b (\<lambda>c. c\<lparr>b_refcnt := b_refcnt c - 1\<rparr>)))
       (bindK (getK (\<lambda>s. b_refcnt (bufs s ! b))) (\<lambda>n.
        whenK (n = 0) (modK (\<lambda>s. link_front b (unlink_buf b s)))))))"

section \<open>Invariant and abstraction\<close>

definition on_disk :: "buf \<Rightarrow> nat \<Rightarrow> bool" where
  "on_disk c b \<longleftrightarrow> b_dev c = ROOTDEV \<and> b_blockno c = b"

text \<open>The index of the buffer that holds block \<open>b\<close>, if there is one.\<close>

definition buf_of :: "'e bio_scheme \<Rightarrow> nat \<Rightarrow> nat option" where
  "buf_of s b = find (\<lambda>i. on_disk (bufs s ! i) b) [0..<NBUF]"

definition in_use :: "buf \<Rightarrow> bool" where
  "in_use c \<longleftrightarrow> 0 < b_refcnt c \<or> b_dirty c"

definition buf_ok :: "'e bio_scheme \<Rightarrow> buf \<Rightarrow> bool" where
  "buf_ok s c \<longleftrightarrow>
     (if sl_locked (b_lock c) then sl_pid (b_lock c) = cur_pid s \<and> b_refcnt c = 1
      else b_refcnt c = 0) \<and>
     (in_use c \<longrightarrow> b_dev c = ROOTDEV) \<and>
     (b_valid c \<longleftrightarrow> b_dev c = ROOTDEV) \<and>
     (b_valid c \<longrightarrow> b_blockno c < disksize s) \<and>
     (b_valid c \<and> \<not> b_dirty c \<longrightarrow> b_data c = memdisk s (b_blockno c))"

text \<open>No block is cached twice.\<close>

definition uniq_bufs :: "'e bio_scheme \<Rightarrow> bool" where
  "uniq_bufs s \<longleftrightarrow> length (bufs s) = NBUF \<and>
     (\<forall>i < NBUF. \<forall>j < NBUF. \<forall>b. on_disk (bufs s ! i) b \<and> on_disk (bufs s ! j) b \<longrightarrow> i = j)"

text \<open>The list runs through every buffer once.\<close>

definition ring_ok :: "'e bio_scheme \<Rightarrow> bool" where
  "ring_ok s \<longleftrightarrow> (\<exists>xs. dll HEAD (b_next s) (b_prev s) xs \<and> set xs = {0..<NBUF})"

definition bio_inv :: "'e bio_scheme \<Rightarrow> bool" where
  "bio_inv s \<longleftrightarrow> uniq_bufs s \<and> ring_ok s \<and>
     (\<forall>i < NBUF. buf_ok s (bufs s ! i))"

definition bio_abs :: "'e bio_scheme \<Rightarrow> bstore" where
  "bio_abs s =
     \<lparr>blk = (\<lambda>b. case buf_of s b of
                   Some i \<Rightarrow> if b_valid (bufs s ! i) then b_data (bufs s ! i) else memdisk s b
                 | None \<Rightarrow> memdisk s b),
      platter = memdisk s,
      dsize = disksize s,
      held = {b. \<exists>i < NBUF. on_disk (bufs s ! i) b \<and> sl_locked (b_lock (bufs s ! i))},
      dirty = {b. \<exists>i < NBUF. on_disk (bufs s ! i) b \<and> b_dirty (bufs s ! i)}\<rparr>"

section \<open>Looking a block up\<close>

lemma find_unique:
  assumes "\<And>x y. x \<in> set xs \<Longrightarrow> y \<in> set xs \<Longrightarrow> P x \<Longrightarrow> P y \<Longrightarrow> x = y"
  shows "find P xs = Some x \<longleftrightarrow> x \<in> set xs \<and> P x"
  using assms by (induction xs) (auto split: if_splits)

lemma find_in_set: "find P xs = Some x \<Longrightarrow> x \<in> set xs \<and> P x"
  by (induction xs) (auto split: if_splits)

lemma buf_of_Some:
  "uniq_bufs s \<Longrightarrow> buf_of s b = Some i \<longleftrightarrow> i < NBUF \<and> on_disk (bufs s ! i) b"
  unfolding buf_of_def by (subst find_unique) (auto simp: uniq_bufs_def)

lemma buf_of_None: "buf_of s b = None \<longleftrightarrow> (\<forall>i < NBUF. \<not> on_disk (bufs s ! i) b)"
  by (auto simp: buf_of_def find_None_iff)

lemma bufs_upd_buf [simp]: "bufs (upd_buf i f s) = (bufs s)[i := f (bufs s ! i)]"
  by (simp add: upd_buf_def)

lemma upd_buf_fields [simp]:
  "cur_pid (upd_buf i f s) = cur_pid s" "memdisk (upd_buf i f s) = memdisk s"
  "disksize (upd_buf i f s) = disksize s" "writes (upd_buf i f s) = writes s"
  "b_next (upd_buf i f s) = b_next s" "b_prev (upd_buf i f s) = b_prev s"
  "bio.more (upd_buf i f s) = bio.more s"
  by (simp_all add: upd_buf_def)

lemma upd_buf_twice:
  "i < length (bufs s) \<Longrightarrow> upd_buf i g (upd_buf i f s) = upd_buf i (\<lambda>c. g (f c)) s"
  by (simp add: upd_buf_def)

lemma link_front_fields [simp]:
  "bufs (link_front b s) = bufs s" "cur_pid (link_front b s) = cur_pid s"
  "memdisk (link_front b s) = memdisk s" "disksize (link_front b s) = disksize s"
  "writes (link_front b s) = writes s" "bio.more (link_front b s) = bio.more s"
  by (simp_all add: link_front_def Let_def)

lemma unlink_buf_fields [simp]:
  "bufs (unlink_buf b s) = bufs s" "cur_pid (unlink_buf b s) = cur_pid s"
  "memdisk (unlink_buf b s) = memdisk s" "disksize (unlink_buf b s) = disksize s"
  "writes (unlink_buf b s) = writes s" "bio.more (unlink_buf b s) = bio.more s"
  by (simp_all add: unlink_buf_def Let_def)

lemma uniq_upd_buf:
  assumes "uniq_bufs s" "i < NBUF"
    and "\<And>b. on_disk (f (bufs s ! i)) b \<Longrightarrow> on_disk (bufs s ! i) b \<or> buf_of s b = None"
  shows "uniq_bufs (upd_buf i f s)"
  using assms unfolding uniq_bufs_def
  by (auto simp: nth_list_update buf_of_None)

section \<open>The abstraction under updates\<close>

lemma uniqD:
  "uniq_bufs s \<Longrightarrow> i < NBUF \<Longrightarrow> j < NBUF \<Longrightarrow> on_disk (bufs s ! i) b \<Longrightarrow>
   on_disk (bufs s ! j) b \<Longrightarrow> i = j"
  by (auto simp: uniq_bufs_def)

lemma buf_of_upd_same_key:
  assumes "uniq_bufs s" "i < NBUF" "\<And>b. on_disk (f (bufs s ! i)) b = on_disk (bufs s ! i) b"
  shows "buf_of (upd_buf i f s) b = buf_of s b"
proof -
  have "length (bufs s) = NBUF" using assms by (simp add: uniq_bufs_def)
  then have "on_disk (bufs (upd_buf i f s) ! j) b = on_disk (bufs s ! j) b" if "j < NBUF" for j
    using assms that by (cases "i = j") auto
  then show ?thesis
    unfolding buf_of_def by (intro find_cong) auto
qed

text \<open>A change to the buffer of block \<open>b\<close> that leaves its key alone.\<close>

lemma abs_upd_same_key:
  assumes u: "uniq_bufs s" and i: "i < NBUF" and b: "on_disk (bufs s ! i) b"
    and key: "\<And>b. on_disk (f (bufs s ! i)) b = on_disk (bufs s ! i) b"
    and c: "c = f (bufs s ! i)"
  shows "bio_abs (upd_buf i f s) =
    (bio_abs s)\<lparr>blk := (blk (bio_abs s))(b := if b_valid c then b_data c else memdisk s b),
      held := (if sl_locked (b_lock c) then insert b (held (bio_abs s))
               else held (bio_abs s) - {b}),
      dirty := (if b_dirty c then insert b (dirty (bio_abs s))
                else dirty (bio_abs s) - {b})\<rparr>"
proof -
  have len: "length (bufs s) = NBUF" using u by (simp add: uniq_bufs_def)
  have other: "on_disk (bufs s ! j) b \<Longrightarrow> j < NBUF \<Longrightarrow> j = i" for j
    using uniqD[OF u _ i _ b] by blast
  have neq: "j < NBUF \<Longrightarrow> on_disk (bufs s ! j) x \<Longrightarrow> x \<noteq> b \<Longrightarrow> j \<noteq> i" for j x
    using b by (auto simp: on_disk_def)
  have self: "buf_of s b = Some i" using buf_of_Some[OF u] i b by blast
  have blk: "blk (bio_abs (upd_buf i f s)) x =
     (if x = b then if b_valid c then b_data c else memdisk s b else blk (bio_abs s) x)" for x
  proof (cases "x = b")
    case True
    then show ?thesis using self len i c
      by (simp add: bio_abs_def buf_of_upd_same_key[OF u i, of f] key)
  next
    case False
    have "j \<noteq> i" if "buf_of s x = Some j" for j
      using that buf_of_Some[OF u] neq False by blast
    then show ?thesis using False len i
      by (auto simp: bio_abs_def buf_of_upd_same_key[OF u i, of f] key split: option.splits)
  qed
  have sets: "{x. \<exists>j < NBUF. on_disk (bufs (upd_buf i f s) ! j) x \<and> P (bufs (upd_buf i f s) ! j)} =
     (if P c then insert b {x. \<exists>j < NBUF. on_disk (bufs s ! j) x \<and> P (bufs s ! j)}
      else {x. \<exists>j < NBUF. on_disk (bufs s ! j) x \<and> P (bufs s ! j)} - {b})" (is "?L = ?R") for P
  proof (rule set_eqI)
    fix x
    let ?n = "bufs (upd_buf i f s)"
    have at_i: "?n ! i = c" and off_i: "j \<noteq> i \<Longrightarrow> ?n ! j = bufs s ! j" for j
      using len i c by simp_all
    have "(\<exists>j < NBUF. on_disk (?n ! j) b \<and> P (?n ! j)) \<longleftrightarrow> P c"
      using at_i off_i other i b key c by metis
    moreover have "(\<exists>j < NBUF. on_disk (?n ! j) x \<and> P (?n ! j)) \<longleftrightarrow>
        (\<exists>j < NBUF. on_disk (bufs s ! j) x \<and> P (bufs s ! j))" if "x \<noteq> b"
      using at_i off_i neq[OF _ _ that] key c by metis
    ultimately show "x \<in> ?L \<longleftrightarrow> x \<in> ?R" by (cases "x = b") auto
  qed
  show ?thesis
    using blk sets[of "\<lambda>c. sl_locked (b_lock c)"] sets[of b_dirty]
    by (intro bstore.equality ext) (auto simp: bio_abs_def)
qed

text \<open>Giving an unused buffer to block \<open>b\<close>, which is not cached: only the lock shows.\<close>

lemma abs_replace:
  assumes u: "uniq_bufs s" and i: "i < NBUF" and none: "buf_of s b = None"
    and old: "buf_ok s (bufs s ! i)" "\<not> in_use (bufs s ! i)"
    and c: "on_disk c b" "b_valid c" "\<not> b_dirty c" "sl_locked (b_lock c)" "b_data c = memdisk s b"
  shows "bio_abs (upd_buf i (\<lambda>_. c) s) = (bio_abs s)\<lparr>held := insert b (held (bio_abs s))\<rparr>"
proof -
  let ?t = "upd_buf i (\<lambda>_. c) s"
  have len: "length (bufs s) = NBUF" using u by (simp add: uniq_bufs_def)
  have at_i: "bufs ?t ! i = c" and off_i: "j \<noteq> i \<Longrightarrow> bufs ?t ! j = bufs s ! j" for j
    using len i by simp_all
  have key: "on_disk c x \<longleftrightarrow> x = b" for x using c(1) by (auto simp: on_disk_def)
  have u': "uniq_bufs ?t" using u i none key by (intro uniq_upd_buf) auto
  have idle: "\<not> sl_locked (b_lock (bufs s ! i))" "\<not> b_dirty (bufs s ! i)"
    using old by (auto simp: buf_ok_def in_use_def split: if_splits)
  have none': "j < NBUF \<Longrightarrow> \<not> on_disk (bufs s ! j) b" for j
    using none by (simp add: buf_of_None)
  have blk: "blk (bio_abs ?t) x = blk (bio_abs s) x" for x
  proof (cases "x = b")
    case True
    have "buf_of ?t b = Some i" using buf_of_Some[OF u'] i at_i c(1) by simp
    then show ?thesis using True none c at_i by (simp add: bio_abs_def)
  next
    case False
    show ?thesis
    proof (cases "on_disk (bufs s ! i) x")
      case True
      have "\<not> on_disk (bufs ?t ! j) x" if "j < NBUF" for j
      proof (cases "j = i")
        case False
        then show ?thesis using uniqD[OF u that i] True off_i by metis
      qed (use at_i key \<open>x \<noteq> b\<close> in simp)
      then have "buf_of ?t x = None" by (simp add: buf_of_None)
      moreover have "buf_of s x = Some i" using buf_of_Some[OF u] i True by blast
      moreover have "memdisk s x = b_data (bufs s ! i)" if "b_valid (bufs s ! i)"
        using that old idle True by (auto simp: buf_ok_def on_disk_def)
      ultimately show ?thesis by (simp add: bio_abs_def)
    next
      case off: False
      have "on_disk (bufs ?t ! j) x = on_disk (bufs s ! j) x" for j
        using at_i off_i off key False by (cases "j = i") auto
      then have "buf_of ?t x = buf_of s x" by (simp add: buf_of_def)
      moreover have "j \<noteq> i" if "buf_of s x = Some j" for j
        using that off buf_of_Some[OF u] by blast
      ultimately show ?thesis using off_i by (auto simp: bio_abs_def split: option.splits)
    qed
  qed
  have ex: "(\<exists>j < NBUF. on_disk (bufs ?t ! j) x \<and> P (bufs ?t ! j)) \<longleftrightarrow>
      x = b \<and> P c \<or> (\<exists>j < NBUF. on_disk (bufs s ! j) x \<and> P (bufs s ! j))"
    if "\<not> P (bufs s ! i)" for x P
    using at_i off_i i key that by metis
  have "held (bio_abs ?t) = insert b (held (bio_abs s))"
    using ex[where P = "\<lambda>c. sl_locked (b_lock c)"] idle c(4) by (auto simp: bio_abs_def)
  moreover have "dirty (bio_abs ?t) = dirty (bio_abs s)"
    using ex[where P = b_dirty] idle c(3) by (auto simp: bio_abs_def)
  ultimately show ?thesis
    using blk by (intro bstore.equality ext) (auto simp: bio_abs_def)
qed

text \<open>The pinned blocks, counted by the buffers that hold them.\<close>

lemma in_use_iff:
  "buf_ok s c \<Longrightarrow> in_use c \<longleftrightarrow> sl_locked (b_lock c) \<or> b_dirty c"
  by (auto simp: buf_ok_def in_use_def split: if_splits)

lemma card_pinned:
  assumes inv: "bio_inv s"
  shows "card (held (bio_abs s) \<union> dirty (bio_abs s)) = card {i \<in> {0..<NBUF}. in_use (bufs s ! i)}"
proof -
  let ?U = "{i \<in> {0..<NBUF}. in_use (bufs s ! i)}" and ?k = "\<lambda>i. b_blockno (bufs s ! i)"
  have u: "uniq_bufs s" and ok: "\<And>i. i < NBUF \<Longrightarrow> buf_ok s (bufs s ! i)"
    using inv by (auto simp: bio_inv_def)
  have root: "i \<in> ?U \<Longrightarrow> on_disk (bufs s ! i) (?k i)" for i
    using ok[of i] by (auto simp: buf_ok_def on_disk_def)
  have "inj_on ?k ?U"
  proof (rule inj_onI)
    fix i j assume ij: "i \<in> ?U" "j \<in> ?U" and eq: "?k i = ?k j"
    then show "i = j" using uniqD[OF u, of i j "?k i"] root[OF ij(1)] root[OF ij(2)] by auto
  qed
  moreover have "held (bio_abs s) \<union> dirty (bio_abs s) = ?k ` ?U"
  proof (rule set_eqI)
    fix x
    have "x \<in> held (bio_abs s) \<union> dirty (bio_abs s) \<longleftrightarrow>
        (\<exists>i < NBUF. on_disk (bufs s ! i) x \<and> in_use (bufs s ! i))"
      using in_use_iff[OF ok] by (auto simp: bio_abs_def)
    also have "\<dots> \<longleftrightarrow> x \<in> ?k ` ?U"
      using root by (auto simp: on_disk_def image_iff)
    finally show "x \<in> held (bio_abs s) \<union> dirty (bio_abs s) \<longleftrightarrow> x \<in> ?k ` ?U" .
  qed
  ultimately show ?thesis by (simp add: card_image)
qed

lemma card_pinned_less:
  assumes "bio_inv s"
  shows "card (held (bio_abs s) \<union> dirty (bio_abs s)) < NBUF \<longleftrightarrow> (\<exists>i < NBUF. \<not> in_use (bufs s ! i))"
proof -
  let ?U = "{i \<in> {0..<NBUF}. in_use (bufs s ! i)}"
  have "card ?U < NBUF \<longleftrightarrow> ?U \<noteq> {0..<NBUF}"
  proof
    assume "?U \<noteq> {0..<NBUF}"
    then have "?U \<subset> {0..<NBUF}" by blast
    then have "card ?U < card {0..<NBUF}" by (intro psubset_card_mono) simp
    then show "card ?U < NBUF" by simp
  next
    assume "card ?U < NBUF"
    then have "card ?U \<noteq> card {0..<NBUF}" by simp
    then show "?U \<noteq> {0..<NBUF}" by (rule contrapos_nn) (rule arg_cong)
  qed
  moreover have "?U \<noteq> {0..<NBUF} \<longleftrightarrow> (\<exists>i < NBUF. \<not> in_use (bufs s ! i))"
    by fastforce
  ultimately show ?thesis unfolding card_pinned[OF assms] by blast
qed

section \<open>Reading a block\<close>

definition locked_by :: "int \<Rightarrow> buf \<Rightarrow> buf" where
  "locked_by p c = c\<lparr>b_refcnt := 1, b_lock := \<lparr>sl_locked = True, sl_pid = p\<rparr>\<rparr>"

definition loaded :: "int \<Rightarrow> nat \<Rightarrow> block \<Rightarrow> buf" where
  "loaded p b d = \<lparr>b_valid = True, b_dirty = False, b_dev = ROOTDEV, b_blockno = b,
     b_lock = \<lparr>sl_locked = True, sl_pid = p\<rparr>, b_refcnt = 1, b_data = d\<rparr>"

lemma recycled_loaded:
  "(c :: buf)\<lparr>b_dev := ROOTDEV, b_blockno := b, b_dirty := False, b_refcnt := Suc 0,
     b_lock := \<lparr>sl_locked = True, sl_pid = p\<rparr>, b_data := d, b_valid := True\<rparr> = loaded p b d"
  by (cases c) (simp add: loaded_def)

lemma bio_invD:
  assumes "bio_inv s"
  shows "uniq_bufs s" "ring_ok s" "length (bufs s) = NBUF" "i < NBUF \<Longrightarrow> buf_ok s (bufs s ! i)"
  using assms by (auto simp: bio_inv_def uniq_bufs_def)

lemma bget_cached:
  assumes inv: "bio_inv s" and b: "buf_of s b = Some i"
  shows "bget ROOTDEV b s = lock_buf i (upd_buf i (\<lambda>c. c\<lparr>b_refcnt := b_refcnt c + 1\<rparr>) s)"
proof -
  note u = bio_invD(1)[OF inv]
  obtain xs where xs: "dll HEAD (b_next s) (b_prev s) xs" "set xs = {0..<NBUF}"
    using bio_invD(2)[OF inv] by (auto simp: ring_ok_def)
  then have "length xs < Suc NBUF"
    by (metis distinct_card card_atLeastLessThan diff_zero dll_def distinct.simps(2) lessI)
  note w = walk_next[OF xs(1) this]
  have "find (\<lambda>j. on_disk (bufs s ! j) b) xs = Some i"
    using b buf_of_Some[OF u] xs(2) uniqD[OF u] by (subst find_unique) auto
  moreover have "i \<noteq> HEAD" using b buf_of_Some[OF u] by auto
  ultimately show ?thesis
    by (simp add: bget_def w on_disk_def)
qed

lemma bget_uncached:
  assumes inv: "bio_inv s" and b: "buf_of s b = None"
    and xs: "dll HEAD (b_next s) (b_prev s) xs" "set xs = {0..<NBUF}"
  shows "bget ROOTDEV b s =
    (case find (\<lambda>i. \<not> in_use (bufs s ! i)) (rev xs) of
       None \<Rightarrow> Inl (Panic ''bget: no buffers'')
     | Some i \<Rightarrow> lock_buf i (upd_buf i (\<lambda>c. c\<lparr>b_dev := ROOTDEV, b_blockno := b,
         b_valid := False, b_dirty := False, b_refcnt := 1\<rparr>) s))"
proof -
  have len: "length xs < Suc NBUF"
    using xs by (metis distinct_card card_atLeastLessThan diff_zero dll_def distinct.simps(2) lessI)
  have "find (\<lambda>j. on_disk (bufs s ! j) b) xs = None"
    using b xs(2) by (auto simp: buf_of_None find_None_iff)
  moreover have "(\<lambda>i. b_refcnt (bufs s ! i) = 0 \<and> \<not> b_dirty (bufs s ! i)) = (\<lambda>i. \<not> in_use (bufs s ! i))"
    by (auto simp: in_use_def)
  moreover have "i \<noteq> HEAD" if "find P (rev xs) = Some i" for i P
    using find_in_set[OF that] xs(2) by auto
  ultimately show ?thesis
    using walk_next[OF xs(1) len] walk_prev[OF xs(1) len]
    by (auto simp: bget_def on_disk_def split: option.splits)
qed

lemma bread_cached:
  assumes inv: "bio_inv s" and b: "buf_of s b = Some i"
  shows "bread ROOTDEV b s =
    (if sl_locked (b_lock (bufs s ! i)) then Inl (Sleeps ''buffer'')
     else Inr (i, upd_buf i (locked_by (cur_pid s)) s))"
proof -
  have i: "i < NBUF" "on_disk (bufs s ! i) b" using b buf_of_Some bio_invD(1)[OF inv] by auto
  note ok = bio_invD(4)[OF inv i(1)] and len = bio_invD(3)[OF inv]
  have "b_valid (bufs s ! i)" using ok i(2) by (auto simp: buf_ok_def on_disk_def)
  moreover have "\<not> sl_locked (b_lock (bufs s ! i)) \<Longrightarrow> b_refcnt (bufs s ! i) = 0"
    using ok by (auto simp: buf_ok_def)
  ultimately show ?thesis
    using i len
    by (simp add: bread_def bget_cached[OF inv b] lock_buf_def acquiresleep_def kdefs
        locked_by_def upd_buf_def)
qed

lemma bread_uncached:
  assumes inv: "bio_inv s" and b: "buf_of s b = None"
    and xs: "dll HEAD (b_next s) (b_prev s) xs" "set xs = {0..<NBUF}"
  shows "bread ROOTDEV b s =
    (case find (\<lambda>i. \<not> in_use (bufs s ! i)) (rev xs) of
       None \<Rightarrow> Inl (Panic ''bget: no buffers'')
     | Some i \<Rightarrow>
         if disksize s \<le> b then Inl (Panic ''iderw: block out of range'')
         else Inr (i, upd_buf i (\<lambda>_. loaded (cur_pid s) b (memdisk s b)) s))"
proof (cases "find (\<lambda>i. \<not> in_use (bufs s ! i)) (rev xs)")
  case None
  then show ?thesis by (simp add: bread_def bget_uncached[OF assms] kdefs)
next
  case (Some i)
  then have i: "i < NBUF" "\<not> in_use (bufs s ! i)"
    using find_in_set[OF Some] xs(2) by auto
  note ok = bio_invD(4)[OF inv i(1)] and len = bio_invD(3)[OF inv]
  have free: "\<not> sl_locked (b_lock (bufs s ! i))"
    using ok i(2) in_use_iff by blast
  show ?thesis
    using Some i len free
    by (simp add: bread_def bget_uncached[OF assms] lock_buf_def acquiresleep_def kdefs iderw_def
        holdingsleep_def Let_def recycled_loaded upd_buf_def)
qed

section \<open>The invariant is kept\<close>

lemma buf_ok_cong:
  "cur_pid t = cur_pid s \<Longrightarrow> disksize t = disksize s \<Longrightarrow> memdisk t = memdisk s \<Longrightarrow>
   buf_ok t c = buf_ok s c"
  by (simp add: buf_ok_def)

lemma ring_upd_buf [simp]: "ring_ok (upd_buf i f s) = ring_ok s"
  by (simp add: ring_ok_def)

lemma inv_upd_buf:
  assumes "bio_inv s" "i < NBUF" "buf_ok s (f (bufs s ! i))"
    and "\<And>b. on_disk (f (bufs s ! i)) b \<Longrightarrow> on_disk (bufs s ! i) b \<or> buf_of s b = None"
  shows "bio_inv (upd_buf i f s)"
proof -
  have "buf_ok (upd_buf i f s) c = buf_ok s c" for c by (rule buf_ok_cong) simp_all
  then show ?thesis
    using assms uniq_upd_buf[of s i f] bio_invD[OF assms(1)]
    by (auto simp: bio_inv_def nth_list_update)
qed

lemma inv_bread:
  assumes inv: "bio_inv s" and r: "bread ROOTDEV b s = Inr (i, t)"
  shows "bio_inv t" "i < NBUF" "on_disk (bufs t ! i) b" "sl_locked (b_lock (bufs t ! i))"
    "b_valid (bufs t ! i)"
proof -
  have "bio_inv t \<and> i < NBUF \<and> on_disk (bufs t ! i) b \<and> sl_locked (b_lock (bufs t ! i)) \<and>
    b_valid (bufs t ! i)"
  proof (cases "buf_of s b")
    case None
    obtain xs where xs: "dll HEAD (b_next s) (b_prev s) xs" "set xs = {0..<NBUF}"
      using bio_invD(2)[OF inv] by (auto simp: ring_ok_def)
    from r have i: "find (\<lambda>i. \<not> in_use (bufs s ! i)) (rev xs) = Some i" "b < disksize s"
      and t: "t = upd_buf i (\<lambda>_. loaded (cur_pid s) b (memdisk s b)) s"
      unfolding bread_uncached[OF inv None xs] by (auto split: option.splits if_splits)
    from find_in_set[OF i(1)] have "i < NBUF" using xs(2) by auto
    moreover have "bio_inv t"
      unfolding t using inv \<open>i < NBUF\<close> i(2) None
      by (intro inv_upd_buf) (auto simp: buf_ok_def loaded_def on_disk_def)
    ultimately show ?thesis
      using bio_invD(3)[OF inv] by (simp add: t loaded_def on_disk_def)
  next
    case (Some j)
    from r have i: "j = i" "\<not> sl_locked (b_lock (bufs s ! i))"
      and t: "t = upd_buf i (locked_by (cur_pid s)) s"
      unfolding bread_cached[OF inv Some] by (auto split: if_splits)
    have "i < NBUF" "on_disk (bufs s ! i) b"
      using Some i buf_of_Some[OF bio_invD(1)[OF inv]] by auto
    moreover have "bio_inv t"
      unfolding t using inv \<open>i < NBUF\<close> bio_invD(4)[OF inv \<open>i < NBUF\<close>] \<open>on_disk _ b\<close>
      by (intro inv_upd_buf) (auto simp: buf_ok_def locked_by_def on_disk_def in_use_def)
    ultimately show ?thesis
      using bio_invD(3,4)[OF inv] by (auto simp: t locked_by_def on_disk_def buf_ok_def)
  qed
  then show "bio_inv t" "i < NBUF" "on_disk (bufs t ! i) b" "sl_locked (b_lock (bufs t ! i))"
    "b_valid (bufs t ! i)" by auto
qed

section \<open>The cache implements the block store\<close>

text \<open>
  The requests of a client that keeps the interface's rules: it reads a block, changes the
  buffer it holds and marks it \<open>B_DIRTY\<close> (what \<^verbatim>\<open>log_write\<close> does) or writes it through,
  and releases it.
\<close>

datatype bop = Read nat | Update nat block | Write nat block | Release nat

definition with_buf :: "nat \<Rightarrow> (nat \<Rightarrow> ('e bio_scheme, block) K) \<Rightarrow> ('e bio_scheme, block) K" where
  "with_buf b f s =
     (case buf_of s b of
        None \<Rightarrow> Inl (Fault ''buffer not held'')
      | Some i \<Rightarrow> if sl_locked (b_lock (bufs s ! i)) then f i s else Inl (Fault ''buffer not held''))"

fun bio_step :: "bop \<Rightarrow> ('e bio_scheme, block) K" where
  "bio_step (Read b) = bindK (bread ROOTDEV b) (\<lambda>i. getK (\<lambda>s. b_data (bufs s ! i)))"
| "bio_step (Update b d) = with_buf b (\<lambda>i.
     thenK (modK (upd_buf i (\<lambda>c. c\<lparr>b_data := d, b_dirty := True\<rparr>))) (ret []))"
| "bio_step (Write b d) = with_buf b (\<lambda>i.
     thenK (modK (upd_buf i (\<lambda>c. c\<lparr>b_data := d\<rparr>))) (thenK (bwrite i) (ret [])))"
| "bio_step (Release b) = with_buf b (\<lambda>i. thenK (brelse i) (ret []))"

definition if_held :: "nat \<Rightarrow> (bstore, block) K \<Rightarrow> (bstore, block) K" where
  "if_held b m s = (if b \<in> held s then m s else Inl (Fault ''buffer not held''))"

fun store_step :: "bop \<Rightarrow> (bstore, block) K" where
  "store_step (Read b) = bindK (bread_spec b) (\<lambda>b. getK (\<lambda>s. blk s b))"
| "store_step (Update b d) = if_held b
     (thenK (modK (\<lambda>s. (set_data b d s)\<lparr>dirty := insert b (dirty s)\<rparr>)) (ret []))"
| "store_step (Write b d) = if_held b
     (thenK (modK (set_data b d)) (thenK (bwrite_spec b) (ret [])))"
| "store_step (Release b) = if_held b (thenK (brelse_spec b) (ret []))"

lemma held_abs_iff:
  assumes "uniq_bufs s"
  shows "b \<in> held (bio_abs s) \<longleftrightarrow>
    (\<exists>i. buf_of s b = Some i \<and> sl_locked (b_lock (bufs s ! i)))"
  using buf_of_Some[OF assms] by (auto simp: bio_abs_def)

lemma dirty_abs_iff:
  assumes "uniq_bufs s"
  shows "b \<in> dirty (bio_abs s) \<longleftrightarrow> (\<exists>i. buf_of s b = Some i \<and> b_dirty (bufs s ! i))"
  using buf_of_Some[OF assms] by (auto simp: bio_abs_def)

lemma abs_fields [simp]:
  "platter (bio_abs s) = memdisk s" "dsize (bio_abs s) = disksize s"
  by (simp_all add: bio_abs_def)

lemma sim_read:
  assumes inv: "bio_inv s"
  shows "store_step (Read b) (bio_abs s) = map_state bio_abs (bio_step (Read b) s)"
proof (cases "buf_of s b")
  case None
  note u = bio_invD(1)[OF inv] and len = bio_invD(3)[OF inv]
  obtain xs where xs: "dll HEAD (b_next s) (b_prev s) xs" "set xs = {0..<NBUF}"
    using bio_invD(2)[OF inv] by (auto simp: ring_ok_def)
  have out: "b \<notin> held (bio_abs s)" "b \<notin> dirty (bio_abs s)"
    using None held_abs_iff[OF u] dirty_abs_iff[OF u] by auto
  show ?thesis
  proof (cases "find (\<lambda>i. \<not> in_use (bufs s ! i)) (rev xs)")
    case full: None
    then have "\<forall>i < NBUF. in_use (bufs s ! i)" using xs(2) by (auto simp: find_None_iff)
    then have "NBUF \<le> card (held (bio_abs s) \<union> dirty (bio_abs s))"
      using card_pinned_less[OF inv] by (meson not_less)
    with full out show ?thesis
      by (simp add: bread_uncached[OF inv None xs] bread_spec_def kdefs)
  next
    case (Some i)
    then have i: "i < NBUF" "\<not> in_use (bufs s ! i)" using find_in_set[OF Some] xs(2) by auto
    then have "card (held (bio_abs s) \<union> dirty (bio_abs s)) < NBUF"
      using card_pinned_less[OF inv] by blast
    moreover have "bio_abs (upd_buf i (\<lambda>_. loaded (cur_pid s) b (memdisk s b)) s) =
        (bio_abs s)\<lparr>held := insert b (held (bio_abs s))\<rparr>"
      by (rule abs_replace[OF u i(1) None bio_invD(4)[OF inv i(1)] i(2)])
        (simp_all add: loaded_def on_disk_def)
    moreover have "blk (bio_abs s) b = memdisk s b" using None by (simp add: bio_abs_def)
    ultimately show ?thesis
      using Some out i len
      by (simp add: bread_uncached[OF inv None xs] bread_spec_def kdefs loaded_def)
  qed
next
  case (Some i)
  note u = bio_invD(1)[OF inv] and len = bio_invD(3)[OF inv]
  have i: "i < NBUF" "on_disk (bufs s ! i) b" using Some buf_of_Some[OF u] by auto
  note ok = bio_invD(4)[OF inv i(1)]
  have v: "b_valid (bufs s ! i)" "b < disksize s" using ok i by (auto simp: buf_ok_def on_disk_def)
  have h: "b \<in> held (bio_abs s) \<longleftrightarrow> sl_locked (b_lock (bufs s ! i))"
    and d: "b \<in> dirty (bio_abs s) \<longleftrightarrow> b_dirty (bufs s ! i)"
    using Some held_abs_iff[OF u] dirty_abs_iff[OF u] by auto
  show ?thesis
  proof (cases "sl_locked (b_lock (bufs s ! i))")
    case True
    with h show ?thesis by (simp add: bread_cached[OF inv Some] bread_spec_def kdefs)
  next
    case False
    have room: "b \<notin> dirty (bio_abs s) \<Longrightarrow> card (held (bio_abs s) \<union> dirty (bio_abs s)) < NBUF"
      using False d i in_use_iff[OF ok] card_pinned_less[OF inv] by blast
    have blk: "blk (bio_abs s) b = b_data (bufs s ! i)"
      using Some v by (simp add: bio_abs_def)
    have "bio_abs (upd_buf i (locked_by (cur_pid s)) s) =
        (bio_abs s)\<lparr>held := insert b (held (bio_abs s))\<rparr>"
      using abs_upd_same_key[OF u i, of "locked_by (cur_pid s)", OF _ refl] v d blk[symmetric]
      by (auto simp: locked_by_def on_disk_def insert_absorb)
    then show ?thesis
      using False h room v len i blk
      by (auto simp: bread_cached[OF inv Some] bread_spec_def kdefs locked_by_def)
  qed
qed

text \<open>A buffer the process holds.\<close>

definition holds :: "'e bio_scheme \<Rightarrow> nat \<Rightarrow> nat \<Rightarrow> bool" where
  "holds s b i \<longleftrightarrow> buf_of s b = Some i \<and> sl_locked (b_lock (bufs s ! i))"

lemma holdsD:
  assumes "bio_inv s" "holds s b i"
  shows "i < NBUF" "on_disk (bufs s ! i) b" "b \<in> held (bio_abs s)"
    "holdingsleep (cur_pid s) (b_lock (bufs s ! i))" "b_refcnt (bufs s ! i) = 1"
    "b_valid (bufs s ! i)" "b < disksize s"
proof -
  note u = bio_invD(1)[OF assms(1)]
  show i: "i < NBUF" and b: "on_disk (bufs s ! i) b"
    using assms(2) buf_of_Some[OF u] by (auto simp: holds_def)
  show "b \<in> held (bio_abs s)" using assms(2) held_abs_iff[OF u] by (auto simp: holds_def)
  show "holdingsleep (cur_pid s) (b_lock (bufs s ! i))" "b_refcnt (bufs s ! i) = 1"
    "b_valid (bufs s ! i)" "b < disksize s"
    using bio_invD(4)[OF assms(1) i] b assms(2)
    by (auto simp: holds_def buf_ok_def holdingsleep_def on_disk_def in_use_def)
qed

lemma inv_set_dirty:
  assumes "bio_inv s" "holds s b i"
  shows "bio_inv (upd_buf i (\<lambda>c. c\<lparr>b_data := d, b_dirty := True\<rparr>) s)"
    (is "bio_inv (upd_buf i ?f s)")
proof (rule inv_upd_buf[OF assms(1) holdsD(1)[OF assms]])
  show "buf_ok s (?f (bufs s ! i))"
    using bio_invD(4)[OF assms(1) holdsD(1)[OF assms]] holdsD[OF assms]
    by (auto simp: buf_ok_def in_use_def on_disk_def split: if_splits)
qed (simp add: on_disk_def)

lemma abs_set_dirty:
  assumes "bio_inv s" "holds s b i"
  shows "bio_abs (upd_buf i (\<lambda>c. c\<lparr>b_data := d, b_dirty := True\<rparr>) s) =
    (set_data b d (bio_abs s))\<lparr>dirty := insert b (dirty (bio_abs s))\<rparr>"
proof -
  have "bio_abs (upd_buf i (\<lambda>c. c\<lparr>b_data := d, b_dirty := True\<rparr>) s) =
    (bio_abs s)\<lparr>blk := (blk (bio_abs s))(b := d), held := insert b (held (bio_abs s)),
      dirty := insert b (dirty (bio_abs s))\<rparr>"
    using abs_upd_same_key[OF bio_invD(1)[OF assms(1)] holdsD(1,2)[OF assms],
        of "\<lambda>c. c\<lparr>b_data := d, b_dirty := True\<rparr>", OF _ refl] holdsD[OF assms]
    by (simp add: on_disk_def holdingsleep_def)
  then show ?thesis
    using holdsD(3)[OF assms] by (simp add: set_data_def insert_absorb)
qed

text \<open>Storing data in a held buffer and writing it through.\<close>

definition written :: "nat \<Rightarrow> nat \<Rightarrow> block \<Rightarrow> 'e bio_scheme \<Rightarrow> 'e bio_scheme" where
  "written b i d s = upd_buf i (\<lambda>c. c\<lparr>b_data := d, b_dirty := False, b_valid := True\<rparr>)
     (s\<lparr>memdisk := (memdisk s)(b := d), writes := writes s @ [(b, d)]\<rparr>)"

lemma set_bwrite:
  assumes "bio_inv s" "holds s b i"
  shows "bwrite i (upd_buf i (\<lambda>c. c\<lparr>b_data := d\<rparr>) s) = Inr ((), written b i d s)"
  using holdsD[OF assms] bio_invD(3,4)[OF assms(1)]
  by (auto simp: bwrite_def kdefs iderw_def Let_def written_def upd_buf_def on_disk_def
      holdingsleep_def buf_ok_def)

lemma inv_written:
  assumes "bio_inv s" "holds s b i"
  shows "bio_inv (written b i d s)"
proof -
  note u = bio_invD(1)[OF assms(1)] and len = bio_invD(3)[OF assms(1)]
  note h = holdsD[OF assms]
  let ?s = "s\<lparr>memdisk := (memdisk s)(b := d), writes := writes s @ [(b, d)]\<rparr>"
  have "uniq_bufs (written b i d s)"
    using u h(1,2) unfolding written_def
    by (intro uniq_upd_buf) (auto simp: uniq_bufs_def on_disk_def)
  moreover have "ring_ok (written b i d s)"
    using bio_invD(2)[OF assms(1)] by (simp add: written_def ring_ok_def)
  moreover have "buf_ok (written b i d s) (bufs (written b i d s) ! j)" if j: "j < NBUF" for j
  proof (cases "j = i")
    case True
    then show ?thesis
      using h bio_invD(4)[OF assms(1) j] len
      by (auto simp: written_def buf_ok_def holdingsleep_def on_disk_def in_use_def split: if_splits)
  next
    case False
    note ok = bio_invD(4)[OF assms(1) j]
    have "b_blockno (bufs s ! j) \<noteq> b" if "b_valid (bufs s ! j)"
      using that ok uniqD[OF u j h(1), of b] h(2) False by (auto simp: on_disk_def buf_ok_def)
    with False ok show ?thesis by (auto simp: written_def buf_ok_def)
  qed
  ultimately show ?thesis by (simp add: bio_inv_def)
qed

lemma abs_written:
  assumes "bio_inv s" "holds s b i"
  shows "bio_abs (written b i d s) =
    (bio_abs s)\<lparr>blk := (blk (bio_abs s))(b := d), platter := (memdisk s)(b := d),
       dirty := dirty (bio_abs s) - {b}\<rparr>"
proof -
  note u = bio_invD(1)[OF assms(1)] and h = holdsD[OF assms]
  let ?s = "s\<lparr>memdisk := (memdisk s)(b := d), writes := writes s @ [(b, d)]\<rparr>"
  have u': "uniq_bufs ?s" using u by (simp add: uniq_bufs_def)
  have bo: "buf_of ?s x = buf_of s x" for x by (simp add: buf_of_def)
  have "blk (bio_abs ?s) x = blk (bio_abs s) x" if "x \<noteq> b" for x
    using that by (auto simp: bio_abs_def bo split: option.splits)
  then have b: "(blk (bio_abs ?s))(b := d) = (blk (bio_abs s))(b := d)" by auto
  have "bio_abs (written b i d s) =
    (bio_abs ?s)\<lparr>blk := (blk (bio_abs ?s))(b := d), held := insert b (held (bio_abs ?s)),
      dirty := dirty (bio_abs ?s) - {b}\<rparr>"
    using abs_upd_same_key[OF u', of i b "\<lambda>c. c\<lparr>b_data := d, b_dirty := False, b_valid := True\<rparr>",
        OF _ _ _ refl] h
    by (simp add: written_def on_disk_def holdingsleep_def)
  also have "\<dots> = (bio_abs s)\<lparr>blk := (blk (bio_abs s))(b := d), platter := (memdisk s)(b := d),
       dirty := dirty (bio_abs s) - {b}\<rparr>"
    using h(3) b by (auto simp: bio_abs_def insert_absorb)
  finally show ?thesis .
qed

text \<open>Releasing moves the buffer to the front of the list.\<close>

lemma ring_move_front:
  assumes "dll HEAD (b_next s) (b_prev s) (ys @ i # zs)"
  shows "dll HEAD (b_next (link_front i (unlink_buf i s))) (b_prev (link_front i (unlink_buf i s)))
    (i # ys @ zs)"
proof -
  let ?n = "(b_next s)(b_prev s i := b_next s i)" and ?p = "(b_prev s)(b_next s i := b_prev s i)"
  have d: "distinct (HEAD # ys @ i # zs)" using assms by (simp add: dll_def)
  have ends: "b_next s i = hd (zs @ [HEAD])" using dll_ends[OF assms] by simp
  then have ni: "b_next s i \<noteq> i" using d by (cases zs) auto
  have u: "dll HEAD ?n ?p (ys @ zs)" by (rule dll_unlink[OF assms])
  have "i \<noteq> HEAD" using d by auto
  then show ?thesis
    using dll_insert[OF u, of i] d ni
    by (simp add: link_front_def unlink_buf_def Let_def fun_upd_twist)
qed

lemma ring_ok_move_front: "ring_ok s \<Longrightarrow> i < NBUF \<Longrightarrow> ring_ok (link_front i (unlink_buf i s))"
proof -
  assume "ring_ok s" "i < NBUF"
  then obtain xs where xs: "dll HEAD (b_next s) (b_prev s) xs" "set xs = {0..<NBUF}"
    by (auto simp: ring_ok_def)
  then obtain ys zs where "xs = ys @ i # zs"
    using \<open>i < NBUF\<close> by (metis split_list atLeastLessThan_iff zero_le)
  with xs ring_move_front show ?thesis unfolding ring_ok_def
    by (intro exI[of _ "i # ys @ zs"]) auto
qed

definition released :: "nat \<Rightarrow> 'e bio_scheme \<Rightarrow> 'e bio_scheme" where
  "released i s = link_front i (unlink_buf i
     (upd_buf i (\<lambda>c. c\<lparr>b_lock := releasesleep (b_lock c), b_refcnt := b_refcnt c - 1\<rparr>) s))"

lemma brelse_held:
  assumes "bio_inv s" "holds s b i"
  shows "brelse i s = Inr ((), released i s)"
  using holdsD[OF assms] bio_invD(3)[OF assms(1)]
  by (simp add: brelse_def kdefs released_def upd_buf_twice)

lemma brelse_not_held:
  "\<not> holdingsleep (cur_pid s) (b_lock (bufs s ! i)) \<Longrightarrow> brelse i s = Inl (Panic ''brelse'')"
  by (simp add: brelse_def kdefs)

lemma bio_inv_cong:
  "bufs t = bufs s \<Longrightarrow> cur_pid t = cur_pid s \<Longrightarrow> memdisk t = memdisk s \<Longrightarrow>
   disksize t = disksize s \<Longrightarrow> ring_ok t \<Longrightarrow> bio_inv s \<Longrightarrow> bio_inv t"
  by (auto simp: bio_inv_def uniq_bufs_def buf_ok_def)

lemma bio_abs_cong:
  "bufs t = bufs s \<Longrightarrow> memdisk t = memdisk s \<Longrightarrow> disksize t = disksize s \<Longrightarrow>
   bio_abs t = bio_abs s"
  unfolding bio_abs_def buf_of_def by (simp only:)

lemma inv_released:
  assumes "bio_inv s" "holds s b i"
  shows "bio_inv (released i s)"
proof -
  let ?t = "upd_buf i (\<lambda>c. c\<lparr>b_lock := releasesleep (b_lock c), b_refcnt := b_refcnt c - 1\<rparr>) s"
  note h = holdsD[OF assms]
  have t: "bio_inv ?t"
    using bio_invD(4)[OF assms(1) h(1)] h
    by (intro inv_upd_buf assms(1)) (auto simp: buf_ok_def in_use_def on_disk_def releasesleep_def)
  then have "ring_ok (released i s)"
    unfolding released_def using bio_invD(2)[OF t] h(1) by (rule_tac ring_ok_move_front)
  then show ?thesis
    using t by (intro bio_inv_cong[of "released i s" ?t]) (simp_all add: released_def)
qed

lemma abs_released:
  assumes "bio_inv s" "holds s b i"
  shows "bio_abs (released i s) = (bio_abs s)\<lparr>held := held (bio_abs s) - {b}\<rparr>"
proof -
  let ?f = "\<lambda>c. c\<lparr>b_lock := releasesleep (b_lock c), b_refcnt := b_refcnt c - 1\<rparr>"
  note h = holdsD[OF assms] and u = bio_invD(1)[OF assms(1)]
  have blk: "blk (bio_abs s) b = b_data (bufs s ! i)"
    using assms(2) h by (simp add: bio_abs_def holds_def)
  have d: "b \<in> dirty (bio_abs s) \<longleftrightarrow> b_dirty (bufs s ! i)"
    using assms(2) dirty_abs_iff[OF u] by (auto simp: holds_def)
  have "bio_abs (released i s) = bio_abs (upd_buf i ?f s)"
    by (rule bio_abs_cong) (simp_all add: released_def)
  also have "\<dots> = (bio_abs s)\<lparr>held := held (bio_abs s) - {b}\<rparr>"
    using abs_upd_same_key[OF u h(1,2), of ?f, OF _ refl] h d blk[symmetric]
    by (auto simp: on_disk_def releasesleep_def insert_absorb)
  finally show ?thesis .
qed

text \<open>A fresh cache satisfies the invariant.\<close>

lemma link_front_ring:
  "dll HEAD (b_next s) (b_prev s) xs \<Longrightarrow> i \<notin> set (HEAD # xs) \<Longrightarrow>
   dll HEAD (b_next (link_front i s)) (b_prev (link_front i s)) (i # xs)"
  using dll_insert[of HEAD "b_next s" "b_prev s" xs i]
  by (auto simp: link_front_def Let_def fun_upd_twist)

lemma binit_loop:
  assumes "n \<le> NBUF" "length (bufs s) = NBUF" "\<forall>i < NBUF. bufs s ! i = bss_buf"
    and "dll HEAD (b_next s) (b_prev s) []"
  shows "let t = fold (\<lambda>b s. link_front b (upd_buf b (\<lambda>c. c\<lparr>b_lock := initsleeplock\<rparr>) s)) [0..<n] s
    in dll HEAD (b_next t) (b_prev t) (rev [0..<n]) \<and> bufs t = bufs s \<and> cur_pid t = cur_pid s \<and>
       memdisk t = memdisk s \<and> disksize t = disksize s"
  using assms(1)
proof (induction n)
  case 0
  then show ?case using assms(4) by simp
next
  case (Suc n)
  let ?g = "\<lambda>b s. link_front b (upd_buf b (\<lambda>c. c\<lparr>b_lock := initsleeplock\<rparr>) s)"
  define t where "t = fold ?g [0..<n] s"
  have t: "dll HEAD (b_next t) (b_prev t) (rev [0..<n])" "bufs t = bufs s" "cur_pid t = cur_pid s"
    "memdisk t = memdisk s" "disksize t = disksize s"
    using Suc by (auto simp: t_def Let_def)
  have same: "(bufs s)[n := (bufs s ! n)\<lparr>b_lock := initsleeplock\<rparr>] = bufs s"
    using Suc.prems assms(2,3)
    by (intro nth_equalityI) (auto simp: nth_list_update bss_buf_def initsleeplock_def)
  have "dll HEAD (b_next (?g n t)) (b_prev (?g n t)) (n # rev [0..<n])"
    using t(1) Suc.prems by (intro link_front_ring) auto
  moreover have "fold ?g [0..<Suc n] s = ?g n t" by (simp add: t_def)
  ultimately show ?case using t same by (simp add: Let_def)
qed

lemma inv_binit:
  assumes "length (bufs s) = NBUF" "\<forall>i < NBUF. bufs s ! i = bss_buf"
  shows "bio_inv (binit s)"
proof -
  let ?s = "s\<lparr>b_prev := (b_prev s)(HEAD := HEAD), b_next := (b_next s)(HEAD := HEAD)\<rparr>"
  have "dll HEAD (b_next ?s) (b_prev ?s) []" by (simp add: dll_def)
  from binit_loop[of NBUF ?s, OF _ _ _ this] assms
  have ring: "dll HEAD (b_next (binit s)) (b_prev (binit s)) (rev [0..<NBUF])"
    and b: "bufs (binit s) = bufs s"
    by (auto simp: binit_def Let_def)
  have "ring_ok (binit s)" unfolding ring_ok_def using ring by (intro exI[of _ "rev [0..<NBUF]"]) auto
  then show ?thesis
    using assms b
    by (auto simp: bio_inv_def uniq_bufs_def buf_ok_def in_use_def on_disk_def bss_buf_def ROOTDEV_def)
qed

section \<open>Contracts of single operations\<close>

text \<open>What a caller gets from each operation when it may proceed, buffers held before included.\<close>

lemma bread_ok:
  assumes inv: "bio_inv s" and free: "b \<notin> held (bio_abs s)" and on: "b < disksize s"
    and room: "b \<in> dirty (bio_abs s) \<or> card (held (bio_abs s) \<union> dirty (bio_abs s)) < NBUF"
  obtains i t where "bread ROOTDEV b s = Inr (i, t)" "bio_inv t" "holds t b i"
    "bio_abs t = (bio_abs s)\<lparr>held := insert b (held (bio_abs s))\<rparr>"
    "b_data (bufs t ! i) = blk (bio_abs s) b" "writes t = writes s" "bio.more t = bio.more s"
    "cur_pid t = cur_pid s" "\<forall>x j. holds s x j \<longrightarrow> holds t x j \<and> bufs t ! j = bufs s ! j"
proof -
  have "store_step (Read b) (bio_abs s) =
      Inr (blk (bio_abs s) b, (bio_abs s)\<lparr>held := insert b (held (bio_abs s))\<rparr>)"
    using free on room by (auto simp: bread_spec_def kdefs)
  then have m: "map_state bio_abs (bio_step (Read b) s) =
      Inr (blk (bio_abs s) b, (bio_abs s)\<lparr>held := insert b (held (bio_abs s))\<rparr>)"
    using sim_read[OF inv] by metis
  then obtain i t where r: "bread ROOTDEV b s = Inr (i, t)"
    and t: "b_data (bufs t ! i) = blk (bio_abs s) b"
      "bio_abs t = (bio_abs s)\<lparr>held := insert b (held (bio_abs s))\<rparr>"
    by (auto simp: kdefs map_state_def split: sum.splits prod.splits)
  note it = inv_bread[OF inv r]
  have h: "holds t b i"
    using it buf_of_Some[OF bio_invD(1)[OF it(1)]] by (simp add: holds_def)
  have upd: "\<exists>f. t = upd_buf i f s" and idle: "\<not> sl_locked (b_lock (bufs s ! i))"
  proof -
    obtain xs where xs: "dll HEAD (b_next s) (b_prev s) xs" "set xs = {0..<NBUF}"
      using bio_invD(2)[OF inv] by (auto simp: ring_ok_def)
    show "\<exists>f. t = upd_buf i f s"
      using r bread_cached[OF inv] bread_uncached[OF inv _ xs]
      by (cases "buf_of s b") (auto split: if_splits option.splits)
    show "\<not> sl_locked (b_lock (bufs s ! i))"
    proof (cases "buf_of s b")
      case None
      with r have "find (\<lambda>i. \<not> in_use (bufs s ! i)) (rev xs) = Some i"
        using bread_uncached[OF inv None xs] by (auto split: if_splits option.splits)
      from find_in_set[OF this] show ?thesis
        using xs(2) in_use_iff[OF bio_invD(4)[OF inv]] by auto
    next
      case (Some j)
      with r show ?thesis using bread_cached[OF inv Some] by (auto split: if_splits)
    qed
  qed
  have keep: "holds t x j \<and> bufs t ! j = bufs s ! j" if "holds s x j" for x j
  proof -
    have j: "j < NBUF" "on_disk (bufs s ! j) x" "sl_locked (b_lock (bufs s ! j))"
      using holdsD(1,2)[OF inv that] that by (auto simp: holds_def)
    with idle have "j \<noteq> i" by auto
    with upd have "bufs t ! j = bufs s ! j" by auto
    then show ?thesis
      using j buf_of_Some[OF bio_invD(1)[OF it(1)]] by (simp add: holds_def)
  qed
  have "writes t = writes s" "bio.more t = bio.more s" "cur_pid t = cur_pid s"
    using upd by auto
  with r it h t keep show ?thesis using that by blast
qed

lemma holds_written:
  assumes "bio_inv s" "holds s b i"
  shows "holds (written b i d s) x j = holds s x j" "b_data (bufs (written b i d s) ! i) = d"
proof -
  note h = holdsD[OF assms] and u = bio_invD(1)[OF assms(1)]
  let ?s = "s\<lparr>memdisk := (memdisk s)(b := d), writes := writes s @ [(b, d)]\<rparr>"
  have u': "uniq_bufs ?s" using u by (simp add: uniq_bufs_def)
  have "buf_of (written b i d s) x = buf_of ?s x"
    unfolding written_def by (rule buf_of_upd_same_key[OF u' h(1)]) (simp add: on_disk_def)
  also have "\<dots> = buf_of s x" by (simp add: buf_of_def)
  finally have "buf_of (written b i d s) x = buf_of s x" .
  then show "holds (written b i d s) x j = holds s x j"
    using h(1) bio_invD(3)[OF assms(1)] by (auto simp: holds_def written_def nth_list_update)
  show "b_data (bufs (written b i d s) ! i) = d"
    using h(1) bio_invD(3)[OF assms(1)] by (simp add: written_def)
qed

lemma written_fields [simp]:
  "writes (written b i d s) = writes s @ [(b, d)]" "bio.more (written b i d s) = bio.more s"
  "cur_pid (written b i d s) = cur_pid s" "disksize (written b i d s) = disksize s"
  "memdisk (written b i d s) = (memdisk s)(b := d)"
  by (simp_all add: written_def)

lemma released_fields [simp]:
  "writes (released i s) = writes s" "bio.more (released i s) = bio.more s"
  "cur_pid (released i s) = cur_pid s" "disksize (released i s) = disksize s"
  "memdisk (released i s) = memdisk s"
  by (simp_all add: released_def)

lemma holds_released:
  assumes "bio_inv s" "holds s b i" "holds s x j" "x \<noteq> b"
  shows "holds (released i s) x j" "bufs (released i s) ! j = bufs s ! j"
proof -
  note h = holdsD[OF assms(1,2)] and h' = holdsD[OF assms(1,3)] and u = bio_invD(1)[OF assms(1)]
  have "j \<noteq> i" using h(2) h'(2) assms(4) by (auto simp: on_disk_def)
  then show eq: "bufs (released i s) ! j = bufs s ! j" by (simp add: released_def)
  have "buf_of (released i s) x = Some j"
    using eq h'(1,2) buf_of_Some[OF bio_invD(1)[OF inv_released[OF assms(1,2)]]] by simp
  with eq assms(3) show "holds (released i s) x j" by (simp add: holds_def)
qed

section \<open>Simulation\<close>

lemma sim_held:
  assumes inv: "bio_inv s" and m: "\<And>i. holds s b i \<Longrightarrow> m (bio_abs s) = map_state bio_abs (f i s)"
  shows "if_held b m (bio_abs s) = map_state bio_abs (with_buf b f s)"
  using m held_abs_iff[OF bio_invD(1)[OF inv], of b]
  by (auto simp: with_buf_def if_held_def holds_def split: option.splits)

lemma inv_held:
  assumes "with_buf b f s = Inr (r, s')" "\<And>i. holds s b i \<Longrightarrow> f i s = Inr (r, s') \<Longrightarrow> bio_inv s'"
  shows "bio_inv s'"
  using assms by (auto simp: with_buf_def holds_def split: option.splits if_splits)

interpretation bcache: simulation bio_inv bio_abs bio_step store_step
proof
  fix s :: "'e bio_scheme" and x
  assume inv: "bio_inv s"
  show "store_step x (bio_abs s) = map_state bio_abs (bio_step x s)"
  proof (cases x)
    case (Read b)
    then show ?thesis using sim_read[OF inv] by simp
  next
    case (Update b d)
    show ?thesis unfolding Update bio_step.simps store_step.simps
      by (rule sim_held[OF inv]) (simp add: abs_set_dirty[OF inv] kdefs)
  next
    case (Write b d)
    show ?thesis unfolding Write bio_step.simps store_step.simps
      by (rule sim_held[OF inv])
        (simp add: set_bwrite[OF inv] abs_written[OF inv] holdsD(3)[OF inv] kdefs bwrite_spec_def
          set_data_def)
  next
    case (Release b)
    show ?thesis unfolding Release bio_step.simps store_step.simps
      by (rule sim_held[OF inv])
        (simp add: brelse_held[OF inv] abs_released[OF inv] holdsD(3)[OF inv] kdefs brelse_spec_def)
  qed
next
  fix s s' :: "'e bio_scheme" and x r
  assume inv: "bio_inv s" and step: "bio_step x s = Inr (r, s')"
  show "bio_inv s'"
  proof (cases x)
    case (Read b)
    with step obtain i where "bread ROOTDEV b s = Inr (i, s')"
      by (auto simp: kdefs split: sum.splits prod.splits)
    then show ?thesis using inv_bread(1)[OF inv] by blast
  next
    case (Update b d)
    from step[unfolded Update bio_step.simps] show ?thesis
      by (rule inv_held) (use inv_set_dirty[OF inv] in \<open>auto simp: kdefs\<close>)
  next
    case (Write b d)
    from step[unfolded Write bio_step.simps] show ?thesis
      by (rule inv_held) (use inv_written[OF inv] in \<open>auto simp: kdefs set_bwrite[OF inv]\<close>)
  next
    case (Release b)
    from step[unfolded Release bio_step.simps] show ?thesis
      by (rule inv_held) (use inv_released[OF inv] in \<open>auto simp: kdefs brelse_held[OF inv]\<close>)
  qed
qed

section \<open>Properties\<close>

text \<open>(C4) After \<^verbatim>\<open>binit\<close> on zeroed memory, for every sequence of requests the buffer cache returns
  the results and panics of the block store: its 30 buffers, their LRU list and their recycling
  are invisible to \<^verbatim>\<open>log.c\<close> and \<^verbatim>\<open>fs.c\<close> (recycling never drops a dirty or locked buffer, a block is
  never cached twice), and a request panics for want of buffers exactly when 30 blocks are
  locked or dirty.\<close>

theorem cache_refines_store:
  assumes "length (bufs s) = NBUF" "\<forall>i < NBUF. bufs s ! i = bss_buf"
  shows "runK store_step xs (bio_abs (binit s)) = map_state bio_abs (runK bio_step xs (binit s))"
  by (rule bcache.run_sim[OF inv_binit[OF assms]])

theorem cache_refines_store_witness:
  "let s = \<lparr>cur_pid = 1, memdisk = (\<lambda>_. zero_block), disksize = 100, writes = [],
     bufs = replicate NBUF bss_buf, b_next = (\<lambda>_. 0), b_prev = (\<lambda>_. 0)\<rparr>
   in runK store_step [Read 7, Write 7 zero_block, Release 7] (bio_abs (binit s)) =
      map_state bio_abs (runK bio_step [Read 7, Write 7 zero_block, Release 7] (binit s))"
  unfolding Let_def by (rule cache_refines_store) simp_all

end
