(* ===== verification/Log.thy ===== *)
theory Log
  imports Bio
begin

text \<open>
  The write-ahead log (\<^verbatim>\<open>log.c\<close>) over the buffer cache. \<open>lh\<close> is the in-memory header:
  \<^verbatim>\<open>log.lh.n\<close> is its length, \<^verbatim>\<open>log.lh.block\<close> its entries. A header read from disk whose
  count does not fit the array is a \<open>Fault\<close>. The theory computes the disk writes of
  \<^verbatim>\<open>commit\<close> and of recovery and shows that a power failure after any of them leaves a disk
  from which recovery produces the state before the transaction or the state after it.
\<close>

section \<open>State and operations\<close>

record logst = bio +
  log_start :: nat
  log_size :: nat
  outstanding :: int
  committing :: bool
  log_dev :: nat
  lh :: "nat list"

definition buf_data :: "nat \<Rightarrow> ('e bio_scheme, block) K" where
  "buf_data i = getK (\<lambda>s. b_data (bufs s ! i))"

definition set_buf_data :: "nat \<Rightarrow> block \<Rightarrow> ('e bio_scheme, unit) K" where
  "set_buf_data i d = modK (upd_buf i (\<lambda>c. c\<lparr>b_data := d\<rparr>))"

definition install_one :: "nat \<Rightarrow> ('e logst_scheme, unit option) K" where
  "install_one tail =
     bindK (getK log_dev) (\<lambda>dev.
     bindK (getK (\<lambda>s. log_start s + tail + 1)) (\<lambda>l.
     bindK (bread dev l) (\<lambda>lbuf.
     bindK (getK (\<lambda>s. lh s ! tail)) (\<lambda>h.
     bindK (bread dev h) (\<lambda>dbuf.
     bindK (buf_data lbuf) (\<lambda>d.
     thenK (set_buf_data dbuf d)
     (thenK (bwrite dbuf)
     (thenK (brelse lbuf)
     (thenK (brelse dbuf)
     (ret None))))))))))"

definition install_trans :: "('e logst_scheme, unit) K" where
  "install_trans =
     bindK (getK (\<lambda>s. length (lh s))) (\<lambda>n.
     bindK (forK [0..<n] install_one) (\<lambda>_. ret ()))"

definition read_head :: "('e logst_scheme, unit) K" where
  "read_head =
     bindK (getK log_dev) (\<lambda>dev.
     bindK (getK log_start) (\<lambda>start.
     bindK (bread dev start) (\<lambda>buf.
     bindK (buf_data buf) (\<lambda>d.
     if LOGSIZE < get_u32 d 0 then stopK (Fault ''log.lh.block'')
     else
       thenK (modK (\<lambda>s. s\<lparr>lh := map (\<lambda>i. get_u32 d (Suc i)) [0..<get_u32 d 0]\<rparr>))
       (brelse buf)))))"

definition head_data :: "nat list \<Rightarrow> block \<Rightarrow> block" where
  "head_data ls d = fold (\<lambda>i d. put_u32 d (Suc i) (ls ! i)) [0..<length ls] (put_u32 d 0 (length ls))"

definition write_head :: "('e logst_scheme, unit) K" where
  "write_head =
     bindK (getK log_dev) (\<lambda>dev.
     bindK (getK log_start) (\<lambda>start.
     bindK (bread dev start) (\<lambda>buf.
     bindK (buf_data buf) (\<lambda>d.
     bindK (getK lh) (\<lambda>ls.
     thenK (set_buf_data buf (head_data ls d))
     (thenK (bwrite buf)
     (brelse buf)))))))"

definition recover_from_log :: "('e logst_scheme, unit) K" where
  "recover_from_log =
     thenK read_head
     (thenK install_trans
     (thenK (modK (\<lambda>s. s\<lparr>lh := []\<rparr>))
     write_head))"

definition log_one :: "nat \<Rightarrow> ('e logst_scheme, unit option) K" where
  "log_one tail =
     bindK (getK log_dev) (\<lambda>dev.
     bindK (getK (\<lambda>s. log_start s + tail + 1)) (\<lambda>l.
     bindK (bread dev l) (\<lambda>to.
     bindK (getK (\<lambda>s. lh s ! tail)) (\<lambda>h.
     bindK (bread dev h) (\<lambda>from.
     bindK (buf_data from) (\<lambda>d.
     thenK (set_buf_data to d)
     (thenK (bwrite to)
     (thenK (brelse from)
     (thenK (brelse to)
     (ret None))))))))))"

definition write_log :: "('e logst_scheme, unit) K" where
  "write_log =
     bindK (getK (\<lambda>s. length (lh s))) (\<lambda>n.
     bindK (forK [0..<n] log_one) (\<lambda>_. ret ()))"

definition commit :: "('e logst_scheme, unit) K" where
  "commit =
     bindK (getK (\<lambda>s. length (lh s))) (\<lambda>n.
     whenK (n > 0)
       (thenK write_log
       (thenK write_head
       (thenK install_trans
       (thenK (modK (\<lambda>s. s\<lparr>lh := []\<rparr>))
       write_head)))))"

definition begin_op :: "('e logst_scheme, unit) K" where
  "begin_op s =
     (if committing s then Inl (Sleeps ''log'')
      else if int (length (lh s)) + (outstanding s + 1) * int MAXOPBLOCKS > int LOGSIZE
      then Inl (Sleeps ''log'')
      else Inr ((), s\<lparr>outstanding := outstanding s + 1\<rparr>))"

definition end_op :: "('e logst_scheme, unit) K" where
  "end_op =
     thenK (modK (\<lambda>s. s\<lparr>outstanding := outstanding s - 1\<rparr>))
     (bindK (getK committing) (\<lambda>c.
      if c then panic ''log.committing''
      else
        bindK (getK (\<lambda>s. outstanding s = 0)) (\<lambda>do_commit.
        whenK do_commit
          (thenK (modK (\<lambda>s. s\<lparr>committing := True\<rparr>))
          (thenK commit
          (modK (\<lambda>s. s\<lparr>committing := False\<rparr>)))))))"

definition log_absorb :: "nat list \<Rightarrow> nat \<Rightarrow> nat list" where
  "log_absorb ls b =
     (case find (\<lambda>i. ls ! i = b) [0..<length ls] of
        Some i \<Rightarrow> ls[i := b]
      | None \<Rightarrow> ls @ [b])"

definition log_write :: "nat \<Rightarrow> ('e logst_scheme, unit) K" where
  "log_write b s =
     (if length (lh s) \<ge> LOGSIZE \<or> int (length (lh s)) \<ge> int (log_size s) - 1
      then Inl (Panic ''too big a transaction'')
      else if outstanding s < 1 then Inl (Panic ''log_write outside of trans'')
      else Inr ((), upd_buf b (\<lambda>c. c\<lparr>b_dirty := True\<rparr>)
        (s\<lparr>lh := log_absorb (lh s) (b_blockno (bufs s ! b))\<rparr>)))"

definition initlog :: "nat \<Rightarrow> ('e logst_scheme, unit) K" where
  "initlog dev =
     bindK (bread dev 1) (\<lambda>bp.
     bindK (buf_data bp) (\<lambda>d.
     thenK (brelse bp)
     (thenK (modK (\<lambda>s. s\<lparr>log_start := sb_logstart (dec_superblock d),
         log_size := sb_nlog (dec_superblock d), log_dev := dev\<rparr>))
     recover_from_log)))"

section \<open>The header block\<close>

definition head_entries :: "block \<Rightarrow> nat list" where
  "head_entries d = map (\<lambda>i. get_u32 d (Suc i)) [0..<get_u32 d 0]"

lemma head_data_prefix:
  assumes "length d = BSIZE" "n \<le> length ls" "length ls \<le> LOGSIZE" "\<forall>b \<in> set ls. fits32 b"
  shows "let e = fold (\<lambda>i d. put_u32 d (Suc i) (ls ! i)) [0..<n] (put_u32 d 0 (length ls))
    in length e = BSIZE \<and> get_u32 e 0 = length ls \<and> (\<forall>i < n. get_u32 e (Suc i) = ls ! i)"
  using assms(2)
proof (induction n)
  case 0
  then show ?case using assms by (auto simp: fits32_def)
next
  case (Suc n)
  then show ?case using assms by (auto simp: Let_def less_Suc_eq)
qed

lemma length_head_data [simp]:
  "length d = BSIZE \<Longrightarrow> length ls \<le> LOGSIZE \<Longrightarrow> \<forall>b \<in> set ls. fits32 b \<Longrightarrow>
   length (head_data ls d) = BSIZE"
  using head_data_prefix[of d "length ls" ls] by (auto simp: head_data_def Let_def)

lemma head_entries_head_data:
  "length d = BSIZE \<Longrightarrow> length ls \<le> LOGSIZE \<Longrightarrow> \<forall>b \<in> set ls. fits32 b \<Longrightarrow>
   head_entries (head_data ls d) = ls"
  using head_data_prefix[of d "length ls" ls]
  by (auto simp: head_entries_def head_data_def Let_def intro!: nth_equalityI)

lemma log_absorb_eq: "log_absorb ls b = (if b \<in> set ls then ls else ls @ [b])"
proof (cases "find (\<lambda>i. ls ! i = b) [0..<length ls]")
  case None
  then have "b \<notin> set ls" by (auto simp: find_None_iff in_set_conv_nth)
  with None show ?thesis by (simp add: log_absorb_def)
next
  case (Some i)
  from find_in_set[OF Some] have "i < length ls" "ls ! i = b" by auto
  with Some show ?thesis by (auto simp: log_absorb_def)
qed

section \<open>Copying a block\<close>

lemma more_eq:
  fixes s t :: "'e logst_scheme"
  assumes "bio.more t = bio.more s"
  shows "log_start t = log_start s" "log_size t = log_size s" "outstanding t = outstanding s"
    "committing t = committing s" "log_dev t = log_dev s" "lh t = lh s"
  using assms by (cases s; cases t; simp)+

lemma finite_dirty: "uniq_bufs s \<Longrightarrow> finite (dirty (bio_abs s))"
  by (rule finite_subset[of _ "(\<lambda>i. b_blockno (bufs s ! i)) ` {0..<NBUF}"])
    (auto simp: bio_abs_def on_disk_def)

lemma room_for:
  "finite D \<Longrightarrow> card (insert x D) \<le> n \<Longrightarrow> x \<in> D \<or> card D < n"
  by (auto simp: card_insert_if split: if_splits)

text \<open>Both blocks are read, one is overwritten with the other and written through, both are
  released; \<open>src\<close> and \<open>dst\<close> may be read in either order.\<close>

lemma two_reads:
  assumes inv: "bio_inv s" and idle: "held (bio_abs s) = {}"
    and on: "x < disksize s" "y < disksize s" and ne: "x \<noteq> y"
    and room: "card (insert x (insert y (dirty (bio_abs s)))) \<le> NBUF"
  obtains i j t1 t where "bread ROOTDEV x s = Inr (i, t1)" "bread ROOTDEV y t1 = Inr (j, t)"
    "bio_inv t" "holds t x i" "holds t y j"
    "bio_abs t = (bio_abs s)\<lparr>held := {x, y}\<rparr>" "b_data (bufs t ! i) = blk (bio_abs s) x"
    "b_data (bufs t ! j) = blk (bio_abs s) y" "writes t = writes s"
    "bio.more t1 = bio.more s" "bio.more t = bio.more s"
proof -
  let ?D = "dirty (bio_abs s)"
  have fin: "finite ?D" by (rule finite_dirty[OF bio_invD(1)[OF inv]])
  have "card (insert x ?D) \<le> NBUF"
    by (rule le_trans[OF card_mono room]) (use fin in auto)
  then have r1: "x \<in> ?D \<or> card (held (bio_abs s) \<union> ?D) < NBUF"
    using room_for[OF fin] idle by simp
  have f1: "x \<notin> held (bio_abs s)" using idle by simp
  from bread_ok[OF inv f1 on(1) r1] obtain i t1 where
    1: "bread ROOTDEV x s = Inr (i, t1)" "bio_inv t1" "holds t1 x i"
      "bio_abs t1 = (bio_abs s)\<lparr>held := insert x (held (bio_abs s))\<rparr>"
      "b_data (bufs t1 ! i) = blk (bio_abs s) x" "writes t1 = writes s" "bio.more t1 = bio.more s"
      "cur_pid t1 = cur_pid s" "\<forall>x j. holds s x j \<longrightarrow> holds t1 x j \<and> bufs t1 ! j = bufs s ! j" .
  have ds: "y < disksize t1" using on(2) arg_cong[OF 1(4), of dsize] by simp
  have f2: "y \<notin> held (bio_abs t1)" using 1(4) ne idle by simp
  have r2: "y \<in> dirty (bio_abs t1) \<or> card (held (bio_abs t1) \<union> dirty (bio_abs t1)) < NBUF"
    using room_for[of "insert x ?D" y NBUF] fin room ne 1(4) idle by (auto simp: insert_commute)
  from bread_ok[OF 1(2) f2 ds r2] obtain j t where
    2: "bread ROOTDEV y t1 = Inr (j, t)" "bio_inv t" "holds t y j"
      "bio_abs t = (bio_abs t1)\<lparr>held := insert y (held (bio_abs t1))\<rparr>"
      "b_data (bufs t ! j) = blk (bio_abs t1) y" "writes t = writes t1" "bio.more t = bio.more t1"
      "cur_pid t = cur_pid t1" "\<forall>x i. holds t1 x i \<longrightarrow> holds t x i \<and> bufs t ! i = bufs t1 ! i" .
  show ?thesis
    using that[OF 1(1) 2(1,2)] 1 2 2(9)[rule_format, OF 1(3)] idle by (simp add: insert_commute)
qed

lemma held_empty_upd:
  "held (r :: bstore) = {} \<Longrightarrow>
   r\<lparr>blk := a, platter := p, held := {}, dirty := d\<rparr> = r\<lparr>blk := a, platter := p, dirty := d\<rparr>"
  by (cases r) simp

lemma overwrite_release:
  assumes inv: "bio_inv t" and h: "holds t src i" "holds t dst j" and ne: "src \<noteq> dst"
    and held: "held (bio_abs t) = {src, dst}"
    and d: "d = blk (bio_abs t) src"
  shows "\<exists>u. thenK (set_buf_data j d) (thenK (bwrite j) (thenK (brelse i) (thenK (brelse j) (ret r)))) t =
      Inr (r, u) \<and> bio_inv u \<and>
    bio_abs u = (bio_abs t)\<lparr>blk := (blk (bio_abs t))(dst := d), platter := (memdisk t)(dst := d),
      held := {}, dirty := dirty (bio_abs t) - {dst}\<rparr> \<and>
    writes u = writes t @ [(dst, d)] \<and> bio.more u = bio.more t"
proof -
  let ?w = "written dst j d t"
  have w: "bio_inv ?w" "holds ?w src i" "holds ?w dst j"
    using inv_written[OF inv h(2)] holds_written[OF inv h(2)] h by auto
  let ?v = "released i ?w"
  have v: "bio_inv ?v" "holds ?v dst j"
    using inv_released[OF w(1,2)] holds_released[OF w(1,2,3)] ne by auto
  have "bio_abs (released j ?v) = (bio_abs t)\<lparr>blk := (blk (bio_abs t))(dst := d),
      platter := (memdisk t)(dst := d), held := {}, dirty := dirty (bio_abs t) - {dst}\<rparr>"
    using held by (simp add: abs_released[OF v] abs_released[OF w(1,2)] abs_written[OF inv h(2)])
  then show ?thesis
    using inv_released[OF v]
    by (simp add: kdefs set_buf_data_def set_bwrite[OF inv h(2)] brelse_held[OF w(1,2)] brelse_held[OF v])
qed

lemma install_one_ok:
  fixes s :: "'e logst_scheme"
  assumes inv: "bio_inv s" and idle: "held (bio_abs s) = {}" and dev: "log_dev s = ROOTDEV"
    and l: "l = log_start s + tail + 1" and h: "h = lh s ! tail"
    and on: "l < disksize s" "h < disksize s" and ne: "l \<noteq> h"
    and room: "card (insert l (insert h (dirty (bio_abs s)))) \<le> NBUF"
  shows "\<exists>u. install_one tail s = Inr (None, u) \<and> bio_inv u \<and>
    bio_abs u = (bio_abs s)\<lparr>blk := (blk (bio_abs s))(h := blk (bio_abs s) l),
      platter := (memdisk s)(h := blk (bio_abs s) l), dirty := dirty (bio_abs s) - {h}\<rparr> \<and>
    writes u = writes s @ [(h, blk (bio_abs s) l)] \<and> bio.more u = bio.more s"
proof -
  from two_reads[OF inv idle on ne room] obtain i j t1 t where
    t: "bread ROOTDEV l s = Inr (i, t1)" "bread ROOTDEV h t1 = Inr (j, t)"
      "bio_inv t" "holds t l i" "holds t h j"
      "bio_abs t = (bio_abs s)\<lparr>held := {l, h}\<rparr>" "b_data (bufs t ! i) = blk (bio_abs s) l"
      "b_data (bufs t ! j) = blk (bio_abs s) h" "writes t = writes s"
      "bio.more t1 = bio.more s" "bio.more t = bio.more s" .
  have m: "memdisk t = memdisk s" using arg_cong[OF t(6), of platter] by simp
  let ?d = "blk (bio_abs s) l"
  have "install_one tail s =
      thenK (set_buf_data j ?d) (thenK (bwrite j) (thenK (brelse i) (thenK (brelse j) (ret None)))) t"
    using t(1,2,7) dev l h more_eq(6)[OF t(10)]
    by (simp add: install_one_def bindK_def getK_def buf_data_def)
  moreover obtain u where "thenK (set_buf_data j ?d) (thenK (bwrite j) (thenK (brelse i)
      (thenK (brelse j) (ret None)))) t = Inr (None :: unit option, u)" "bio_inv u"
      "bio_abs u = (bio_abs s)\<lparr>blk := (blk (bio_abs s))(h := ?d), platter := (memdisk s)(h := ?d),
        dirty := dirty (bio_abs s) - {h}\<rparr>"
      "writes u = writes s @ [(h, ?d)]" "bio.more u = bio.more s"
    using overwrite_release[OF t(3,4,5) ne, of ?d None] t(6,9,11) idle m
    by (auto simp: held_empty_upd)
  ultimately show ?thesis by auto
qed

lemma log_one_ok:
  fixes s :: "'e logst_scheme"
  assumes inv: "bio_inv s" and idle: "held (bio_abs s) = {}" and dev: "log_dev s = ROOTDEV"
    and l: "l = log_start s + tail + 1" and h: "h = lh s ! tail"
    and on: "l < disksize s" "h < disksize s" and ne: "l \<noteq> h"
    and room: "card (insert l (insert h (dirty (bio_abs s)))) \<le> NBUF"
  shows "\<exists>u. log_one tail s = Inr (None, u) \<and> bio_inv u \<and>
    bio_abs u = (bio_abs s)\<lparr>blk := (blk (bio_abs s))(l := blk (bio_abs s) h),
      platter := (memdisk s)(l := blk (bio_abs s) h), dirty := dirty (bio_abs s) - {l}\<rparr> \<and>
    writes u = writes s @ [(l, blk (bio_abs s) h)] \<and> bio.more u = bio.more s"
proof -
  from two_reads[OF inv idle on ne room] obtain i j t1 t where
    t: "bread ROOTDEV l s = Inr (i, t1)" "bread ROOTDEV h t1 = Inr (j, t)"
      "bio_inv t" "holds t l i" "holds t h j"
      "bio_abs t = (bio_abs s)\<lparr>held := {l, h}\<rparr>" "b_data (bufs t ! i) = blk (bio_abs s) l"
      "b_data (bufs t ! j) = blk (bio_abs s) h" "writes t = writes s"
      "bio.more t1 = bio.more s" "bio.more t = bio.more s" .
  have m: "memdisk t = memdisk s" using arg_cong[OF t(6), of platter] by simp
  let ?d = "blk (bio_abs s) h"
  have "log_one tail s =
      thenK (set_buf_data i ?d) (thenK (bwrite i) (thenK (brelse j) (thenK (brelse i) (ret None)))) t"
    using t(1,2,8) dev l h more_eq(6)[OF t(10)]
    by (simp add: log_one_def bindK_def getK_def buf_data_def)
  moreover obtain u where "thenK (set_buf_data i ?d) (thenK (bwrite i) (thenK (brelse j)
      (thenK (brelse i) (ret None)))) t = Inr (None :: unit option, u)" "bio_inv u"
      "bio_abs u = (bio_abs s)\<lparr>blk := (blk (bio_abs s))(l := ?d), platter := (memdisk s)(l := ?d),
        dirty := dirty (bio_abs s) - {l}\<rparr>"
      "writes u = writes s @ [(l, ?d)]" "bio.more u = bio.more s"
    using overwrite_release[OF t(3,5,4) ne[symmetric], of ?d None] t(6,9,11) idle m
    by (auto simp: held_empty_upd insert_commute)
  ultimately show ?thesis by auto
qed

section \<open>Sequences of disk writes\<close>

definition apply_writes :: "(nat \<times> block) list \<Rightarrow> (nat \<Rightarrow> block) \<Rightarrow> (nat \<Rightarrow> block)" where
  "apply_writes ws m = fold (\<lambda>(b, d) m. m(b := d)) ws m"

lemma apply_writes_simps [simp]:
  "apply_writes [] m = m" "apply_writes ((b, d) # ws) m = apply_writes ws (m(b := d))"
  "apply_writes (ws @ vs) m = apply_writes vs (apply_writes ws m)"
  by (simp_all add: apply_writes_def)

lemma apply_writes_outside: "x \<notin> fst ` set ws \<Longrightarrow> apply_writes ws m x = m x"
  by (induction ws arbitrary: m) auto

lemma apply_writes_take_outside:
  "x \<notin> fst ` set ws \<Longrightarrow> apply_writes (take j ws) m x = m x"
  by (rule apply_writes_outside) (auto dest: in_set_takeD)

text \<open>Every write to \<open>x\<close> stores the value \<open>f x\<close>: so does the sequence.\<close>

lemma apply_writes_const:
  "(\<And>b d. (b, d) \<in> set ws \<Longrightarrow> b = x \<Longrightarrow> d = v) \<Longrightarrow> x \<in> fst ` set ws \<Longrightarrow> apply_writes ws m x = v"
proof (induction ws arbitrary: m)
  case (Cons w ws)
  obtain b d where w: "w = (b, d)" by (cases w)
  show ?case
  proof (cases "x \<in> fst ` set ws")
    case True
    have "\<And>b d. (b, d) \<in> set ws \<Longrightarrow> b = x \<Longrightarrow> d = v" using Cons.prems(1) by auto
    from Cons.IH[OF this True] show ?thesis by (simp add: w)
  next
    case False
    then have "b = x" using Cons.prems(2) w by auto
    then show ?thesis using Cons.prems(1)[of b d] w False by (simp add: apply_writes_outside)
  qed
qed simp

definition log_area :: "'e logst_scheme \<Rightarrow> nat set" where
  "log_area s = {log_start s ..< log_start s + log_size s}"

text \<open>The writes of \<^verbatim>\<open>write_log\<close> and of \<^verbatim>\<open>install_trans\<close>, for block contents \<open>v\<close>.\<close>

definition log_writes :: "nat \<Rightarrow> nat list \<Rightarrow> (nat \<Rightarrow> block) \<Rightarrow> (nat \<times> block) list" where
  "log_writes start ls v = map (\<lambda>i. (start + i + 1, v (ls ! i))) [0..<length ls]"

definition home_writes :: "nat \<Rightarrow> nat list \<Rightarrow> (nat \<Rightarrow> block) \<Rightarrow> (nat \<times> block) list" where
  "home_writes start ls v = map (\<lambda>i. (ls ! i, v (start + i + 1))) [0..<length ls]"

lemma length_log_writes [simp]: "length (log_writes start ls v) = length ls"
  by (simp add: log_writes_def)

lemma length_home_writes [simp]: "length (home_writes start ls v) = length ls"
  by (simp add: home_writes_def)

lemma fst_log_writes: "fst ` set (log_writes start ls v) = {start + 1 ..< start + 1 + length ls}"
proof -
  have "(\<lambda>i. start + i + 1) ` {0..<length ls} = {start + 1 ..< start + 1 + length ls}"
    using image_add_atLeastLessThan[of "start + 1" 0 "length ls"] by (simp add: add.commute add.left_commute)
  then show ?thesis by (simp add: log_writes_def image_image)
qed

lemma fst_home_writes [simp]: "fst ` set (home_writes start ls v) = set ls"
  by (force simp: home_writes_def image_image in_set_conv_nth)

lemma apply_log_writes:
  "i < length ls \<Longrightarrow> apply_writes (log_writes start ls v) m (start + i + 1) = v (ls ! i)"
  by (rule apply_writes_const) (auto simp: log_writes_def image_image)

text \<open>Between transactions, and while one commits: no buffer is held, the log fits its area
  and the cache, and no logged block lies in the area.\<close>

definition trans_ok :: "'e logst_scheme \<Rightarrow> bool" where
  "trans_ok s \<longleftrightarrow> bio_inv s \<and> held (bio_abs s) = {} \<and> log_dev s = ROOTDEV \<and>
     length (lh s) < NBUF \<and> length (lh s) < log_size s \<and>
     log_start s + log_size s \<le> disksize s \<and>
     (\<forall>h \<in> set (lh s). h < disksize s \<and> h \<notin> log_area s) \<and> dirty (bio_abs s) \<subseteq> set (lh s)"

lemma trans_ok_room:
  assumes "trans_ok s" "D \<subseteq> set (lh s)" "h \<in> set (lh s)"
  shows "card (insert l (insert h D)) \<le> NBUF"
proof -
  have "card (insert l (insert h D)) \<le> card (insert l (set (lh s)))"
    using assms by (intro card_mono) auto
  also have "\<dots> \<le> Suc (length (lh s))"
    using card_length[of "lh s"] by (simp add: card_insert_if)
  finally show ?thesis using assms(1) by (auto simp: trans_ok_def)
qed

lemma dsize_eq: "bio_abs t = u \<Longrightarrow> dsize u = disksize t" "bio_abs t = u \<Longrightarrow> platter u = memdisk t"
  by auto

text \<open>The state a loop over the log reaches: only contents, disk and dirty marks moved.\<close>

definition moved :: "'e logst_scheme \<Rightarrow> (nat \<times> block) list \<Rightarrow> nat set \<Rightarrow> 'e logst_scheme \<Rightarrow> bool" where
  "moved s ws D t \<longleftrightarrow> bio_inv t \<and>
     bio_abs t = (bio_abs s)\<lparr>blk := apply_writes ws (blk (bio_abs s)),
       platter := apply_writes ws (memdisk s), dirty := D\<rparr> \<and>
     writes t = writes s @ ws \<and> bio.more t = bio.more s"

lemma movedD:
  assumes "moved s ws D t"
  shows "bio_inv t" "blk (bio_abs t) = apply_writes ws (blk (bio_abs s))"
    "memdisk t = apply_writes ws (memdisk s)" "dirty (bio_abs t) = D"
    "held (bio_abs t) = held (bio_abs s)" "disksize t = disksize s" "writes t = writes s @ ws"
    "bio.more t = bio.more s"
proof -
  have a: "bio_abs t = (bio_abs s)\<lparr>blk := apply_writes ws (blk (bio_abs s)),
       platter := apply_writes ws (memdisk s), dirty := D\<rparr>" using assms by (simp add: moved_def)
  from a show "blk (bio_abs t) = apply_writes ws (blk (bio_abs s))" "dirty (bio_abs t) = D"
    "held (bio_abs t) = held (bio_abs s)" by simp_all
  show "memdisk t = apply_writes ws (memdisk s)" "disksize t = disksize s"
    using dsize_eq[OF a] by simp_all
qed (use assms in \<open>auto simp: moved_def\<close>)

lemma moved_trans:
  assumes "moved s ws D t" "moved t vs E u"
  shows "moved s (ws @ vs) E u"
  using assms(2) movedD[OF assms(1)] assms(1) by (simp add: moved_def)

lemma moved_refl: "bio_inv s \<Longrightarrow> dirty (bio_abs s) = D \<Longrightarrow> moved s [] D s"
  by (auto simp: moved_def bio_abs_def)

lemma moved_step:
  assumes "moved s ws D t" "bio_inv u"
    and "bio_abs u = (bio_abs t)\<lparr>blk := (blk (bio_abs t))(b := d), platter := (memdisk t)(b := d),
      dirty := E\<rparr>"
    and "writes u = writes t @ [(b, d)]" "bio.more u = bio.more t"
  shows "moved s (ws @ [(b, d)]) E u"
proof (rule moved_trans[OF assms(1)])
  show "moved t [(b, d)] E u" using assms by (simp add: moved_def)
qed

lemma forK_Nones:
  assumes "P 0 s"
    and "\<And>k t. k < n \<Longrightarrow> P k t \<Longrightarrow> \<exists>u. body k t = Inr (None, u) \<and> P (Suc k) u"
  shows "\<exists>t. forK [0..<n] body s = Inr (None, t) \<and> P n t"
proof -
  have "runs (forK [0..<n] body) s (\<lambda>r t. r = None \<and> P (length [0..<n]) t)"
  proof (rule runs_forK_None[where I = P])
    fix k t assume "k < length [0..<n]" "P k t"
    with assms(2)[of k t] show "runs (body ([0..<n] ! k)) t (\<lambda>r t'. r = None \<and> P (Suc k) t')"
      by (auto simp: runs_def)
  qed (rule assms(1))
  then show ?thesis by (auto elim!: runsE)
qed

lemma write_log_ok:
  assumes ok: "trans_ok s"
  shows "\<exists>t. write_log s = Inr ((), t) \<and>
    moved s (log_writes (log_start s) (lh s) (blk (bio_abs s))) (dirty (bio_abs s)) t"
proof -
  let ?ls = "lh s" and ?v = "blk (bio_abs s)"
  let ?w = "\<lambda>k. map (\<lambda>i. (log_start s + i + 1, ?v (?ls ! i))) [0..<k]"
  have o: "bio_inv s" "held (bio_abs s) = {}" "log_dev s = ROOTDEV" "length ?ls < log_size s"
    "log_start s + log_size s \<le> disksize s"
    "\<And>h. h \<in> set ?ls \<Longrightarrow> h < disksize s \<and> h \<notin> log_area s" "dirty (bio_abs s) \<subseteq> set ?ls"
    using ok by (auto simp: trans_ok_def)
  have "\<exists>t. forK [0..<length ?ls] log_one s = Inr (None, t) \<and>
      moved s (?w (length ?ls)) (dirty (bio_abs s)) t"
  proof (rule forK_Nones[where P = "\<lambda>k. moved s (?w k) (dirty (bio_abs s))"])
    fix k t assume k: "k < length ?ls" and m: "moved s (?w k) (dirty (bio_abs s)) t"
    note md = movedD[OF m] and f = more_eq[OF movedD(8)[OF m]]
    have h: "?ls ! k \<in> set ?ls" using k by simp
    let ?l = "log_start s + k + 1"
    have l: "?l \<in> log_area s" using k o(4) by (simp add: log_area_def)
    then have "?l \<noteq> ?ls ! k" "?l \<notin> dirty (bio_abs s)" using o(6)[OF h] o(6,7) by auto
    moreover have "blk (bio_abs t) (?ls ! k) = ?v (?ls ! k)"
      using o(6)[OF h] o(4) k unfolding md(2)
      by (intro apply_writes_outside) (auto simp: log_area_def image_image)
    ultimately show "\<exists>u. log_one k t = Inr (None, u) \<and>
        moved s (?w (Suc k)) (dirty (bio_abs s)) u"
      using log_one_ok[OF md(1), of ?l k "?ls ! k"] o l h md f
        trans_ok_room[OF ok o(7) h] moved_step[OF m, where b = ?l and d = "?v (?ls ! k)"]
      by (fastforce simp: log_area_def)
  qed (simp add: moved_refl o(1))
  then show ?thesis by (auto simp: write_log_def bindK_def getK_def ret_def log_writes_def)
qed

lemma install_trans_ok:
  assumes ok: "trans_ok s"
  shows "\<exists>t. install_trans s = Inr ((), t) \<and>
    moved s (home_writes (log_start s) (lh s) (blk (bio_abs s))) {} t"
proof -
  let ?ls = "lh s" and ?v = "blk (bio_abs s)"
  let ?w = "\<lambda>k. map (\<lambda>i. (?ls ! i, ?v (log_start s + i + 1))) [0..<k]"
  let ?D = "\<lambda>k. dirty (bio_abs s) - set (take k ?ls)"
  have o: "bio_inv s" "held (bio_abs s) = {}" "log_dev s = ROOTDEV" "length ?ls < log_size s"
    "log_start s + log_size s \<le> disksize s"
    "\<And>h. h \<in> set ?ls \<Longrightarrow> h < disksize s \<and> h \<notin> log_area s" "dirty (bio_abs s) \<subseteq> set ?ls"
    using ok by (auto simp: trans_ok_def)
  have "\<exists>t. forK [0..<length ?ls] install_one s = Inr (None, t) \<and>
      moved s (?w (length ?ls)) (?D (length ?ls)) t"
  proof (rule forK_Nones[where P = "\<lambda>k. moved s (?w k) (?D k)"])
    fix k t assume k: "k < length ?ls" and m: "moved s (?w k) (?D k) t"
    note md = movedD[OF m] and f = more_eq[OF movedD(8)[OF m]]
    have h: "?ls ! k \<in> set ?ls" using k by simp
    let ?l = "log_start s + k + 1"
    have l: "?l \<in> log_area s" using k o(4) by (simp add: log_area_def)
    then have "?l \<noteq> ?ls ! k" using o(6)[OF h] by auto
    moreover have "?D k - {?ls ! k} = ?D (Suc k)"
      using k by (auto simp: take_Suc_conv_app_nth)
    moreover have "blk (bio_abs t) ?l = ?v ?l"
      using l o(6) k nth_mem unfolding md(2)
      by (intro apply_writes_outside) (fastforce simp: image_image)
    moreover have "?D k \<subseteq> set ?ls" using o(7) by auto
    ultimately show "\<exists>u. install_one k t = Inr (None, u) \<and> moved s (?w (Suc k)) (?D (Suc k)) u"
      using install_one_ok[OF md(1), of ?l k "?ls ! k"] o l h md f
        trans_ok_room[OF ok _ h] moved_step[OF m, where b = "?ls ! k" and d = "?v ?l"]
      by (fastforce simp: log_area_def)
  qed (simp add: moved_refl o(1))
  moreover have "dirty (bio_abs s) - set ?ls = {}" using o(7) by blast
  ultimately show ?thesis by (auto simp: install_trans_def bindK_def getK_def ret_def home_writes_def)
qed

lemma write_head_ok:
  assumes ok: "trans_ok s"
  shows "\<exists>t. write_head s = Inr ((), t) \<and>
    moved s [(log_start s, head_data (lh s) (blk (bio_abs s) (log_start s)))] (dirty (bio_abs s)) t"
proof -
  let ?b = "log_start s" and ?d = "head_data (lh s) (blk (bio_abs s) (log_start s))"
  have o: "bio_inv s" "held (bio_abs s) = {}" "log_dev s = ROOTDEV" "length (lh s) < log_size s"
    "log_start s + log_size s \<le> disksize s"
    "\<And>h. h \<in> set (lh s) \<Longrightarrow> h < disksize s \<and> h \<notin> log_area s" "dirty (bio_abs s) \<subseteq> set (lh s)"
    using ok by (auto simp: trans_ok_def)
  have b: "?b \<in> log_area s" "?b < disksize s" using o(4,5) by (auto simp: log_area_def)
  then have nd: "?b \<notin> dirty (bio_abs s)" using o(6,7) by auto
  have "card (dirty (bio_abs s)) \<le> length (lh s)"
    using card_mono[OF _ o(7)] card_length[of "lh s"] by auto
  then have room: "?b \<in> dirty (bio_abs s) \<or> card (held (bio_abs s) \<union> dirty (bio_abs s)) < NBUF"
    using ok o(2) by (auto simp: trans_ok_def)
  have free: "?b \<notin> held (bio_abs s)" using o(2) by simp
  from bread_ok[OF o(1) free b(2) room] obtain i t where
    t: "bread ROOTDEV ?b s = Inr (i, t)" "bio_inv t" "holds t ?b i"
      "bio_abs t = (bio_abs s)\<lparr>held := insert ?b (held (bio_abs s))\<rparr>"
      "b_data (bufs t ! i) = blk (bio_abs s) ?b" "writes t = writes s" "bio.more t = bio.more s"
      "cur_pid t = cur_pid s" "\<forall>x j. holds s x j \<longrightarrow> holds t x j \<and> bufs t ! j = bufs s ! j" .
  let ?w = "written ?b i ?d t"
  have w: "bio_inv ?w" "holds ?w ?b i"
    using inv_written[OF t(2,3)] holds_written[OF t(2,3)] t(3) by auto
  have "write_head s = Inr ((), released i ?w)"
    using t(1,5) o(3) more_eq(6)[OF t(7)]
    by (simp add: write_head_def kdefs buf_data_def set_buf_data_def set_bwrite[OF t(2,3)]
        brelse_held[OF w])
  moreover have "moved s [(?b, ?d)] (dirty (bio_abs s)) (released i ?w)"
    unfolding moved_def
    using inv_released[OF w] t(4,6,7) o(2) nd dsize_eq[OF t(4)]
    by (simp add: abs_released[OF w] abs_written[OF t(2,3)] held_empty_upd)
  ultimately show ?thesis by blast
qed

lemma moved_trans_ok:
  assumes "trans_ok s" "moved s ws D t" "D \<subseteq> set (lh s)"
  shows "trans_ok t"
  using assms movedD[OF assms(2)] more_eq[OF movedD(8)[OF assms(2)]]
  by (simp add: trans_ok_def log_area_def)

text \<open>Fields of the log do not show in the block store.\<close>

lemma log_upd_abs [simp]:
  fixes s :: "'e logst_scheme"
  shows "bio_abs (s\<lparr>lh := x\<rparr>) = bio_abs s" "bio_abs (s\<lparr>outstanding := o1\<rparr>) = bio_abs s"
    "bio_abs (s\<lparr>committing := c\<rparr>) = bio_abs s"
    "bio_abs (s\<lparr>log_start := a, log_size := b, log_dev := d\<rparr>) = bio_abs s"
  by (rule bio_abs_cong; simp)+

lemma log_upd_inv [simp]:
  fixes s :: "'e logst_scheme"
  shows "bio_inv (s\<lparr>lh := x\<rparr>) = bio_inv s" "bio_inv (s\<lparr>outstanding := o1\<rparr>) = bio_inv s"
    "bio_inv (s\<lparr>committing := c\<rparr>) = bio_inv s"
    "bio_inv (s\<lparr>log_start := a, log_size := b, log_dev := d\<rparr>) = bio_inv s"
  by (auto simp: bio_inv_def uniq_bufs_def ring_ok_def buf_ok_def)

section \<open>Commit\<close>

definition commit_writes :: "nat \<Rightarrow> nat list \<Rightarrow> (nat \<Rightarrow> block) \<Rightarrow> (nat \<times> block) list" where
  "commit_writes start ls v =
     (let hd1 = head_data ls (v start) in
      log_writes start ls v @ [(start, hd1)] @ map (\<lambda>b. (b, v b)) ls @ [(start, head_data [] hd1)])"

lemma commit_ok:
  assumes ok: "trans_ok s" and ne: "lh s \<noteq> []"
  shows "\<exists>t. commit s = Inr ((), t) \<and> bio_inv t \<and> held (bio_abs t) = {} \<and>
    dirty (bio_abs t) = {} \<and> lh t = [] \<and> disksize t = disksize s \<and>
    (log_start t, log_size t, outstanding t, committing t, log_dev t) =
      (log_start s, log_size s, outstanding s, committing s, log_dev s) \<and>
    writes t = writes s @ commit_writes (log_start s) (lh s) (blk (bio_abs s)) \<and>
    memdisk t = apply_writes (commit_writes (log_start s) (lh s) (blk (bio_abs s))) (memdisk s) \<and>
    blk (bio_abs t) =
      apply_writes (commit_writes (log_start s) (lh s) (blk (bio_abs s))) (blk (bio_abs s))"
proof -
  let ?ls = "lh s" and ?st = "log_start s" and ?v = "blk (bio_abs s)" and ?D = "dirty (bio_abs s)"
  let ?w1 = "log_writes ?st ?ls ?v" and ?h1 = "head_data ?ls (?v ?st)"
  have D: "?D \<subseteq> set ?ls" using ok by (simp add: trans_ok_def)
  obtain t1 where t1: "write_log s = Inr ((), t1)" "moved s ?w1 ?D t1"
    using write_log_ok[OF ok] by blast
  note f1 = more_eq[OF movedD(8)[OF t1(2)]] and ok1 = moved_trans_ok[OF ok t1(2) D]
  have st: "?st \<notin> fst ` set ?w1" by (simp add: fst_log_writes)
  have "blk (bio_abs t1) ?st = ?v ?st"
    unfolding movedD(2)[OF t1(2)] by (rule apply_writes_outside[OF st])
  then obtain t2 where t2: "write_head t1 = Inr ((), t2)" "moved t1 [(?st, ?h1)] ?D t2"
    using write_head_ok[OF ok1] f1 movedD(4)[OF t1(2)] by auto
  note m2 = moved_trans[OF t1(2) t2(2)]
  note f2 = more_eq[OF movedD(8)[OF m2]] and ok2 = moved_trans_ok[OF ok m2 D]
  have "blk (bio_abs t2) (?st + i + 1) = ?v (?ls ! i)" if "i < length ?ls" for i
    unfolding movedD(2)[OF m2] using apply_log_writes[OF that, of ?st ?v ?v] by simp
  then have hw: "home_writes (log_start t2) (lh t2) (blk (bio_abs t2)) = map (\<lambda>b. (b, ?v b)) ?ls"
    using f2 by (auto simp: home_writes_def intro!: nth_equalityI)
  obtain t3 where t3: "install_trans t2 = Inr ((), t3)" "moved t2 (map (\<lambda>b. (b, ?v b)) ?ls) {} t3"
    using install_trans_ok[OF ok2] hw by auto
  note m3 = moved_trans[OF m2 t3(2)]
  note f3 = more_eq[OF movedD(8)[OF m3]] and ok3 = moved_trans_ok[OF ok m3]
  let ?t3 = "t3\<lparr>lh := []\<rparr>"
  have ok3': "trans_ok ?t3" using ok3 movedD(4)[OF m3] by (auto simp: trans_ok_def log_area_def)
  have st3: "?st \<notin> set ?ls" using ok by (auto simp: trans_ok_def log_area_def)
  have "blk (bio_abs t3) ?st = ?h1"
    unfolding movedD(2)[OF m3] using st3 by (simp add: apply_writes_outside image_image)
  then obtain t4 where t4: "write_head ?t3 = Inr ((), t4)" "moved ?t3 [(?st, head_data [] ?h1)] {} t4"
    using write_head_ok[OF ok3'] f3 movedD(4)[OF m3] by auto
  have "commit s = Inr ((), t4)"
    using ne t1(1) t2(1) t3(1) t4(1) by (simp add: commit_def kdefs)
  moreover have "lh t4 = []" "log_start t4 = log_start s" "log_size t4 = log_size s"
      "outstanding t4 = outstanding s" "committing t4 = committing s" "log_dev t4 = log_dev s"
    using more_eq[OF movedD(8)[OF t4(2)]] f3 by simp_all
  moreover have "held (bio_abs t4) = {}"
    using ok movedD(5)[OF t4(2)] movedD(5)[OF m3] by (simp add: trans_ok_def)
  ultimately show ?thesis
    using movedD[OF t4(2)] movedD[OF m3] by (simp add: commit_writes_def Let_def)
qed

section \<open>Recovery\<close>

text \<open>A machine that has just started: nothing is cached dirty, the log header on disk is
  well formed.\<close>

definition booted :: "'e logst_scheme \<Rightarrow> bool" where
  "booted s \<longleftrightarrow> bio_inv s \<and> held (bio_abs s) = {} \<and> dirty (bio_abs s) = {} \<and>
     log_dev s = ROOTDEV \<and> 0 < log_size s \<and> log_start s + log_size s \<le> disksize s \<and>
     length (head_entries (memdisk s (log_start s))) < min NBUF (log_size s) \<and>
     (\<forall>h \<in> set (head_entries (memdisk s (log_start s))). h < disksize s \<and> h \<notin> log_area s)"

lemma blk_clean:
  assumes "bio_inv s" "b \<notin> dirty (bio_abs s)"
  shows "blk (bio_abs s) b = memdisk s b"
proof (cases "buf_of s b")
  case (Some i)
  then have "i < NBUF" "on_disk (bufs s ! i) b" "\<not> b_dirty (bufs s ! i)"
    using buf_of_Some[OF bio_invD(1)[OF assms(1)]] assms(2)
      dirty_abs_iff[OF bio_invD(1)[OF assms(1)]] by auto
  with bio_invD(4)[OF assms(1)] Some show ?thesis
    by (auto simp: bio_abs_def buf_ok_def on_disk_def)
qed (simp add: bio_abs_def)

lemma read_head_ok:
  assumes ok: "booted s"
  shows "\<exists>t. read_head s = Inr ((), t) \<and> trans_ok t \<and>
    lh t = head_entries (memdisk s (log_start s)) \<and> memdisk t = memdisk s \<and>
    blk (bio_abs t) = memdisk s \<and> writes t = writes s \<and> dirty (bio_abs t) = {} \<and>
    log_start t = log_start s \<and> log_size t = log_size s"
proof -
  let ?b = "log_start s"
  have o: "bio_inv s" "held (bio_abs s) = {}" "dirty (bio_abs s) = {}" "log_dev s = ROOTDEV"
    "?b < disksize s"
    using ok by (auto simp: booted_def)
  have blk: "blk (bio_abs s) = memdisk s" using blk_clean[OF o(1)] o(3) by auto
  have "?b \<notin> held (bio_abs s)" "?b \<in> dirty (bio_abs s) \<or> card (held (bio_abs s) \<union> dirty (bio_abs s)) < NBUF"
    using o by (auto simp: NBUF_def)
  from bread_ok[OF o(1) this(1) o(5) this(2)] obtain i t where
    t: "bread ROOTDEV ?b s = Inr (i, t)" "bio_inv t" "holds t ?b i"
      "bio_abs t = (bio_abs s)\<lparr>held := insert ?b (held (bio_abs s))\<rparr>"
      "b_data (bufs t ! i) = blk (bio_abs s) ?b" "writes t = writes s" "bio.more t = bio.more s"
      "cur_pid t = cur_pid s" "\<forall>x j. holds s x j \<longrightarrow> holds t x j \<and> bufs t ! j = bufs s ! j" .
  let ?es = "head_entries (memdisk s ?b)" and ?t = "t\<lparr>lh := head_entries (memdisk s ?b)\<rparr>"
  have h: "bio_inv ?t" "holds ?t ?b i" using t(2,3) by (auto simp: holds_def buf_of_def)
  have len: "\<not> LOGSIZE < get_u32 (memdisk s ?b) 0"
    using ok by (simp add: booted_def head_entries_def NBUF_def)
  have r: "read_head s = Inr ((), released i ?t)"
    using t(1,5) o(4) blk len
    by (simp add: read_head_def kdefs buf_data_def brelse_held[OF h, unfolded head_entries_def] head_entries_def)
  have a: "bio_abs (released i ?t) = (bio_abs s)\<lparr>held := {}\<rparr>"
    using abs_released[OF h] t(4) o(2) by simp
  have f: "log_start (released i ?t) = ?b" "log_size (released i ?t) = log_size s"
    "log_dev (released i ?t) = log_dev s" "lh (released i ?t) = ?es"
    using more_eq[of "released i ?t" ?t] more_eq[OF t(7)] by simp_all
  moreover have "memdisk (released i ?t) = memdisk s" "disksize (released i ?t) = disksize s"
    using dsize_eq[OF a] by simp_all
  moreover have "trans_ok (released i ?t)"
    using ok inv_released[OF h] a f dsize_eq[OF a] o(3)
    by (auto simp: trans_ok_def booted_def log_area_def)
  ultimately show ?thesis
    using r a blk t(6) o(3) by auto
qed

lemma recover_ok:
  assumes ok: "booted s" and es: "es = head_entries (memdisk s (log_start s))"
  shows "\<exists>t. recover_from_log s = Inr ((), t) \<and> lh t = [] \<and> bio_inv t \<and>
    dirty (bio_abs t) = {} \<and> held (bio_abs t) = {} \<and>
    writes t = writes s @ home_writes (log_start s) es (memdisk s) @
      [(log_start s, head_data [] (memdisk s (log_start s)))] \<and>
    memdisk t = apply_writes (home_writes (log_start s) es (memdisk s) @
      [(log_start s, head_data [] (memdisk s (log_start s)))]) (memdisk s)"
proof -
  let ?st = "log_start s"
  obtain t0 where t0: "read_head s = Inr ((), t0)" "trans_ok t0" "lh t0 = es"
    "memdisk t0 = memdisk s" "blk (bio_abs t0) = memdisk s" "writes t0 = writes s"
    "dirty (bio_abs t0) = {}" "log_start t0 = ?st" "log_size t0 = log_size s"
    using read_head_ok[OF ok] es by auto
  let ?w = "home_writes ?st es (memdisk s)"
  obtain t1 where t1: "install_trans t0 = Inr ((), t1)" "moved t0 ?w {} t1"
    using install_trans_ok[OF t0(2)] t0 by auto
  note f = more_eq[OF movedD(8)[OF t1(2)]] and ok1 = moved_trans_ok[OF t0(2) t1(2)]
  let ?t1 = "t1\<lparr>lh := []\<rparr>"
  have ok1': "trans_ok ?t1" using ok1 movedD(4)[OF t1(2)] by (auto simp: trans_ok_def log_area_def)
  have "?st \<notin> set es" using t0(2,3,8,9) ok by (auto simp: trans_ok_def log_area_def booted_def)
  then have "blk (bio_abs t1) ?st = memdisk s ?st"
    unfolding movedD(2)[OF t1(2)] t0(5) by (intro apply_writes_outside) simp
  then obtain t2 where t2: "write_head ?t1 = Inr ((), t2)"
    "moved ?t1 [(?st, head_data [] (memdisk s ?st))] {} t2"
    using write_head_ok[OF ok1'] f t0(8) movedD(4)[OF t1(2)] by auto
  have "recover_from_log s = Inr ((), t2)"
    using t0(1) t1(1) t2(1) by (simp add: recover_from_log_def kdefs)
  moreover have "lh t2 = []" using more_eq(6)[OF movedD(8)[OF t2(2)]] by simp
  moreover have "held (bio_abs t2) = {}"
    using t0(2) movedD(5)[OF t2(2)] movedD(5)[OF t1(2)] by (simp add: trans_ok_def)
  ultimately show ?thesis
    using movedD[OF t2(2)] movedD[OF t1(2)] t0 by simp
qed

section \<open>Power failures\<close>

text \<open>A machine restarted from the disk \<open>m\<close>: an empty cache, the log where it was.\<close>

definition restarted :: "'e logst_scheme \<Rightarrow> (nat \<Rightarrow> block) \<Rightarrow> 'e logst_scheme \<Rightarrow> bool" where
  "restarted s m r \<longleftrightarrow> bio_inv r \<and> held (bio_abs r) = {} \<and> dirty (bio_abs r) = {} \<and>
     memdisk r = m \<and> disksize r = disksize s \<and> log_dev r = ROOTDEV \<and>
     log_start r = log_start s \<and> log_size r = log_size s"

lemma head_entries_cleared:
  "length d = BSIZE \<Longrightarrow> head_entries (head_data [] d) = []"
  using head_entries_head_data[of d "[]"] by simp

lemma head_entries_zero: "get_u32 d 0 = 0 \<Longrightarrow> head_entries d = []"
  by (simp add: head_entries_def)

lemma restarted_booted:
  assumes "restarted s m r" "trans_ok s" "set (head_entries (m (log_start s))) \<subseteq> set (lh s)"
    "length (head_entries (m (log_start s))) \<le> length (lh s)"
  shows "booted r"
  using assms by (fastforce simp: restarted_def booted_def trans_ok_def log_area_def)

lemma recover_result:
  assumes r: "restarted s m r" and ok: "trans_ok s" and es: "es = head_entries (m (log_start s))"
    and sub: "set es \<subseteq> set (lh s)" "length es \<le> length (lh s)"
  shows "\<exists>u. recover_from_log r = Inr ((), u) \<and>
    (\<forall>b. b \<notin> log_area s \<longrightarrow> memdisk u b = apply_writes (home_writes (log_start s) es m) m b)"
proof -
  have b: "booted r" using restarted_booted[OF r ok] sub es by simp
  have "log_start s \<in> log_area s" using ok by (simp add: trans_ok_def log_area_def)
  with recover_ok[OF b, of es] r es show ?thesis by (auto simp: restarted_def)
qed

lemma crash_atomic:
  assumes ok: "trans_ok s" and fit: "\<forall>b \<in> set (lh s). fits32 b"
    and clean: "get_u32 (memdisk s (log_start s)) 0 = 0"
    and len: "length (memdisk s (log_start s)) = BSIZE"
    and ws: "ws = commit_writes (log_start s) (lh s) (blk (bio_abs s))"
    and k: "k \<le> length ws"
    and r: "restarted s (apply_writes (take k ws) (memdisk s)) r"
  shows "\<exists>u. recover_from_log r = Inr ((), u) \<and>
    (\<forall>b. b \<notin> log_area s \<longrightarrow>
       memdisk u b = (if k \<le> length (lh s) then memdisk s b else blk (bio_abs s) b))"
proof -
  let ?ls = "lh s" and ?st = "log_start s" and ?v = "blk (bio_abs s)" and ?m = "memdisk s"
  let ?n = "length ?ls" and ?lw = "log_writes (log_start s) (lh s) (blk (bio_abs s))"
  let ?hw = "map (\<lambda>b. (b, ?v b)) ?ls" and ?h1 = "head_data ?ls (?v ?st)"
  have o: "bio_inv s" "?n < NBUF" "?n < log_size s" "\<And>h. h \<in> set ?ls \<Longrightarrow> h \<notin> log_area s"
    "dirty (bio_abs s) \<subseteq> set ?ls"
    using ok by (auto simp: trans_ok_def)
  have area: "?st \<in> log_area s" "\<And>i. i < ?n \<Longrightarrow> ?st + i + 1 \<in> log_area s"
    using o(3) by (auto simp: log_area_def)
  then have st: "?st \<notin> set ?ls" using o(4) by blast
  have vst: "?v ?st = ?m ?st" using blk_clean[OF o(1)] st o(5) by blast
  have LW: "fst ` set ?lw \<subseteq> log_area s" using o(3) by (auto simp: fst_log_writes log_area_def)
  have H1: "head_entries ?h1 = ?ls" "length ?h1 = BSIZE"
    using head_entries_head_data[of "?m ?st" ?ls] length_head_data[of "?m ?st" ?ls] len fit o(2) vst
    by (auto simp: NBUF_def)
  have take_lw: "x \<notin> fst ` set ?lw \<Longrightarrow> apply_writes (take j ?lw) m x = m x" for j m x
    by (rule apply_writes_take_outside)
  have clean_out: "b \<notin> log_area s \<Longrightarrow> b \<notin> set ?ls \<Longrightarrow> ?m b = ?v b" for b
    using blk_clean[OF o(1), of b] o(5) by (metis subsetD)
  have W: "ws = ?lw @ (?st, ?h1) # ?hw @ [(?st, head_data [] ?h1)]"
    by (simp add: ws commit_writes_def Let_def)
  consider (log) "k \<le> ?n" | (install) j where "j \<le> ?n" "k = ?n + 1 + j" | (cleared) "k = 2 * ?n + 2"
  proof -
    have "k \<le> 2 * ?n + 2" using k W by simp
    then show ?thesis using that(1) that(2)[of "k - ?n - 1"] that(3) by linarith
  qed
  then show ?thesis
  proof cases
    case log
    then have tk: "take k ws = take k ?lw" using W by simp
    have "?st \<notin> fst ` set ?lw" by (simp add: fst_log_writes)
    then have "[] = head_entries (apply_writes (take k ws) ?m ?st)"
      using head_entries_zero[OF clean] take_lw[of ?st k ?m] tk by simp
    from recover_result[OF r ok this, unfolded tk] obtain u where u: "recover_from_log r = Inr ((), u)"
      "\<forall>b. b \<notin> log_area s \<longrightarrow> memdisk u b =
        apply_writes (home_writes ?st [] (apply_writes (take k ?lw) ?m)) (apply_writes (take k ?lw) ?m) b"
      by (metis empty_set empty_subsetI le0 list.size(3))
    have "memdisk u b = ?m b" if "b \<notin> log_area s" for b
    proof -
      have "b \<notin> fst ` set ?lw" using that LW by blast
      with u(2) that take_lw[of b k ?m] show ?thesis by (simp add: home_writes_def)
    qed
    with u(1) log show ?thesis by auto
  next
    case (install j)
    then have tk: "take k ws = ?lw @ (?st, ?h1) # take j ?hw" using W by simp
    let ?d = "apply_writes (take k ws) ?m"
    have hw: "x \<notin> set ?ls \<Longrightarrow> apply_writes (take j ?hw) m x = m x" for m x
      by (rule apply_writes_outside) (auto simp: take_map image_image dest: in_set_takeD)
    have d: "?d ?st = ?h1" using hw[OF st] by (simp add: tk)
    have dl: "?d (?st + i + 1) = ?v (?ls ! i)" if "i < ?n" for i
    proof -
      have "?st + i + 1 \<notin> set ?ls" using area(2)[OF that] o(4) by blast
      then show ?thesis using hw apply_log_writes[OF that, of ?st ?v ?m] by (simp add: tk)
    qed
    have home: "home_writes ?st ?ls ?d = ?hw"
      using dl by (auto simp: home_writes_def intro!: nth_equalityI)
    have "apply_writes ?hw ?d b = ?v b" if b: "b \<notin> log_area s" for b
    proof (cases "b \<in> set ?ls")
      case True
      then show ?thesis by (intro apply_writes_const) (auto simp: image_image)
    next
      case False
      then have "apply_writes ?hw ?d b = ?d b" by (intro apply_writes_outside) (simp add: image_image)
      moreover have "b \<notin> fst ` set ?lw" "b \<noteq> ?st" using b LW area(1) by blast+
      then have "?d b = ?m b" using hw[OF False] by (simp add: tk apply_writes_outside)
      ultimately show ?thesis using clean_out[OF b False] by simp
    qed
    with recover_result[OF r ok, of ?ls, unfolded d H1(1) home] install show ?thesis by simp
  next
    case cleared
    then have tk: "take k ws = ws" using W by simp
    let ?d = "apply_writes ws ?m"
    have "?d ?st = head_data [] ?h1" by (simp add: W)
    then have es: "head_entries (?d ?st) = []" using head_entries_cleared H1(2) by simp
    have "?d b = ?v b" if b: "b \<notin> log_area s" for b
    proof (cases "b \<in> set ?ls")
      case True
      then have "b \<noteq> ?st" using st by auto
      then show ?thesis using True
        by (simp add: W) (rule apply_writes_const, auto simp: image_image)
    next
      case False
      have "b \<notin> fst ` set ?lw" "b \<noteq> ?st" using b LW area(1) by blast+
      then show ?thesis
        using clean_out[OF b False] False by (simp add: W apply_writes_outside image_image)
    qed
    moreover have "[] = head_entries (apply_writes (take k ws) ?m ?st)" using es tk by simp
    from recover_result[OF r ok this] obtain u
      where "recover_from_log r = Inr ((), u)" "\<forall>b. b \<notin> log_area s \<longrightarrow> memdisk u b = ?d b"
      unfolding tk home_writes_def by auto
    ultimately show ?thesis using cleared by auto
  qed
qed

text \<open>A failure during recovery: recovering again gives the same blocks.\<close>

lemma apply_writes_base: "x \<in> fst ` set ws \<Longrightarrow> apply_writes ws m x = apply_writes ws m' x"
proof (induction ws arbitrary: m m')
  case (Cons w ws)
  obtain b d where w: "w = (b, d)" by (cases w)
  show ?case
  proof (cases "x \<in> fst ` set ws")
    case True
    then show ?thesis using Cons.IH[OF True, of "m(b := d)" "m'(b := d)"] unfolding w by (simp only: apply_writes_simps)
  next
    case False
    then show ?thesis using Cons.prems w by (auto simp: apply_writes_outside)
  qed
qed simp

lemma recovery_idempotent:
  assumes ok: "booted r" and len: "length (memdisk r (log_start r)) = BSIZE"
    and u: "recover_from_log r = Inr ((), u)" and ws: "writes u = writes r @ ws"
    and k: "k \<le> length ws"
    and r': "restarted r (apply_writes (take k ws) (memdisk r)) r'"
  shows "\<exists>u'. recover_from_log r' = Inr ((), u') \<and>
    (\<forall>b. b \<notin> log_area r \<longrightarrow> memdisk u' b = memdisk u b)"
proof -
  let ?m = "memdisk r" and ?st = "log_start r"
  define es where "es = head_entries (?m ?st)"
  let ?hw = "home_writes ?st es ?m" and ?h0 = "head_data [] (?m ?st)"
  have W: "ws = ?hw @ [(?st, ?h0)]" and mu: "memdisk u = apply_writes ws ?m"
    using recover_ok[OF ok es_def] u ws by auto
  have es_out: "\<And>h. h \<in> set es \<Longrightarrow> h \<notin> log_area r" and lenes: "length es < log_size r"
    and area: "?st \<in> log_area r"
    using ok by (auto simp: booted_def es_def log_area_def)
  have al: "?st + i + 1 \<in> log_area r" if "i < length es" for i
    using that lenes by (simp add: log_area_def)
  let ?d = "apply_writes (take k ws) ?m"
  show ?thesis
  proof (cases "k \<le> length es")
    case True
    then have tk: "take k ws = take k ?hw" using W by simp
    have out: "x \<in> log_area r \<Longrightarrow> ?d x = ?m x" for x
      unfolding tk by (rule apply_writes_take_outside) (use es_out in auto)
    have b: "booted r'"
      using r' ok out[OF area] by (auto simp: restarted_def booted_def log_area_def)
    have hw: "home_writes ?st es ?d = ?hw" using al out by (simp add: home_writes_def)
    have es': "es = head_entries (memdisk r' (log_start r'))"
      using r' out[OF area] by (simp add: restarted_def es_def)
    obtain u' where u': "recover_from_log r' = Inr ((), u')"
      "memdisk u' = apply_writes (?hw @ [(?st, head_data [] (?d ?st))]) ?d"
      using recover_ok[OF b es'] r' hw by (auto simp: restarted_def)
    have "memdisk u' x = memdisk u x" if x: "x \<notin> log_area r" for x
    proof (cases "x \<in> set es")
      case True
      then show ?thesis
        using u'(2) mu W x area apply_writes_base[of x ?hw ?d ?m] by auto
    next
      case False
      then have "?d x = ?m x"
        unfolding tk by (intro apply_writes_take_outside) simp
      with False show ?thesis
        using u'(2) mu W x area by (auto simp: apply_writes_outside)
    qed
    with u'(1) show ?thesis by blast
  next
    case False
    then have tk: "take k ws = ws" using k W by simp
    have d: "?d ?st = ?h0" unfolding tk by (simp add: W)
    have es0: "head_entries (memdisk r' (log_start r')) = []"
      using r' d head_entries_cleared[OF len] by (simp add: restarted_def)
    have b: "booted r'"
      using r' ok es0 by (auto simp: restarted_def booted_def log_area_def)
    obtain u' where "recover_from_log r' = Inr ((), u')"
      "memdisk u' = apply_writes [(?st, head_data [] (?d ?st))] ?d"
      using recover_ok[OF b es0[symmetric]] r' by (auto simp: restarted_def home_writes_def)
    with tk mu area show ?thesis by auto
  qed
qed

end
