(* ===== verification/Logged.thy ===== *)
theory Logged
  imports Log
begin

text \<open>
  What \<^verbatim>\<open>log.c\<close> over \<^verbatim>\<open>bio.c\<close> promises to \<^verbatim>\<open>fs.c\<close>: the block store, with the header of
  the current transaction. \<open>end_op_spec\<close> says what a commit leaves: the disk has every
  logged block, and of the other blocks only the log area has moved.
\<close>

record lstore = bstore +
  ls_start :: nat
  ls_size :: nat
  ls_outstanding :: int
  ls_lh :: "nat list"

definition log_write_spec :: "nat \<Rightarrow> ('e lstore_scheme, unit) K" where
  "log_write_spec b s =
     (if length (ls_lh s) \<ge> LOGSIZE \<or> int (length (ls_lh s)) \<ge> int (ls_size s) - 1
      then Inl (Panic ''too big a transaction'')
      else if ls_outstanding s < 1 then Inl (Panic ''log_write outside of trans'')
      else Inr ((), s\<lparr>dirty := insert b (dirty s), ls_lh := log_absorb (ls_lh s) b\<rparr>))"

definition begin_op_spec :: "('e lstore_scheme, unit) K" where
  "begin_op_spec s =
     (if int (length (ls_lh s)) + (ls_outstanding s + 1) * int MAXOPBLOCKS > int LOGSIZE
      then Inl (Sleeps ''log'')
      else Inr ((), s\<lparr>ls_outstanding := ls_outstanding s + 1\<rparr>))"

definition end_op_spec :: "('e lstore_scheme, unit) K" where
  "end_op_spec s =
     (let t = s\<lparr>ls_outstanding := ls_outstanding s - 1\<rparr> in
      if ls_outstanding t = 0 \<and> ls_lh t \<noteq> [] then
        let ws = commit_writes (ls_start t) (ls_lh t) (blk t)
        in Inr ((), t\<lparr>blk := apply_writes ws (blk t), platter := apply_writes ws (platter t),
             dirty := {}, ls_lh := []\<rparr>)
      else Inr ((), t))"

definition log_abs :: "'e logst_scheme \<Rightarrow> lstore" where
  "log_abs s = \<lparr>blk = blk (bio_abs s), platter = memdisk s, dsize = disksize s,
     held = held (bio_abs s), dirty = dirty (bio_abs s), ls_start = log_start s,
     ls_size = log_size s, ls_outstanding = outstanding s, ls_lh = lh s\<rparr>"

definition log_inv :: "'e logst_scheme \<Rightarrow> bool" where
  "log_inv s \<longleftrightarrow> bio_inv s \<and> log_dev s = ROOTDEV \<and> \<not> committing s \<and>
     log_size s \<le> NBUF \<and> 0 < log_size s \<and> log_start s + log_size s \<le> disksize s \<and>
     length (lh s) < log_size s \<and> distinct (lh s) \<and> dirty (bio_abs s) = set (lh s) \<and>
     (\<forall>h \<in> set (lh s). h < disksize s \<and> h \<notin> log_area s)"

text \<open>The requests of a file-system call: as for the cache, but changes go through
  \<^verbatim>\<open>log_write\<close>, stay out of the log area, and no buffer is held when an operation ends.\<close>

datatype lop = LRead nat | LUpdate nat block | LRelease nat | LBegin | LEnd

definition area_of :: "nat \<Rightarrow> nat \<Rightarrow> nat set" where
  "area_of start sz = {start ..< start + sz}"

fun log_step :: "lop \<Rightarrow> ('e logst_scheme, block) K" where
  "log_step (LRead b) = bio_step (Read b)"
| "log_step (LUpdate b d) = (\<lambda>s.
     if b \<in> area_of (log_start s) (log_size s) then Inl (Fault ''log area'')
     else with_buf b (\<lambda>i. thenK (set_buf_data i d) (thenK (log_write i) (ret []))) s)"
| "log_step (LRelease b) = bio_step (Release b)"
| "log_step LBegin = thenK begin_op (ret [])"
| "log_step LEnd = (\<lambda>s.
     if \<exists>c \<in> set (bufs s). sl_locked (b_lock c)
     then Inl (Fault ''buffer held'')
     else thenK end_op (ret []) s)"

definition if_held_l :: "nat \<Rightarrow> (lstore, block) K \<Rightarrow> (lstore, block) K" where
  "if_held_l b m s = (if b \<in> held s then m s else Inl (Fault ''buffer not held''))"

fun lstore_step :: "lop \<Rightarrow> (lstore, block) K" where
  "lstore_step (LRead b) = bindK (bread_spec b) (\<lambda>b. getK (\<lambda>s. blk s b))"
| "lstore_step (LUpdate b d) = (\<lambda>s.
     if b \<in> area_of (ls_start s) (ls_size s) then Inl (Fault ''log area'')
     else if_held_l b (thenK (modK (set_data b d)) (thenK (log_write_spec b) (ret []))) s)"
| "lstore_step (LRelease b) = if_held_l b (thenK (brelse_spec b) (ret []))"
| "lstore_step LBegin = thenK begin_op_spec (ret [])"
| "lstore_step LEnd = (\<lambda>s.
     if held s \<noteq> {} then Inl (Fault ''buffer held'') else thenK end_op_spec (ret []) s)"

section \<open>The log implements the logged store\<close>

lemma log_abs_fields [simp]:
  "blk (log_abs s) = blk (bio_abs s)" "platter (log_abs s) = memdisk s"
  "dsize (log_abs s) = disksize s" "held (log_abs s) = held (bio_abs s)"
  "dirty (log_abs s) = dirty (bio_abs s)" "ls_start (log_abs s) = log_start s"
  "ls_size (log_abs s) = log_size s" "ls_outstanding (log_abs s) = outstanding s"
  "ls_lh (log_abs s) = lh s"
  by (simp_all add: log_abs_def)

lemma log_abs_eqI:
  assumes "bio_abs t = a" "bio.more t = bio.more s"
  shows "log_abs t = (log_abs s)\<lparr>blk := blk a, platter := platter a, dsize := dsize a,
    held := held a, dirty := dirty a\<rparr>"
  using assms(1) more_eq[OF assms(2)] by (auto simp: log_abs_def)

lemma log_inv_trans: "log_inv s \<Longrightarrow> held (bio_abs s) = {} \<Longrightarrow> trans_ok s"
  by (auto simp: log_inv_def trans_ok_def)

lemma log_inv_moved:
  assumes "log_inv s" "bio_inv t" "bio.more t = bio.more s" "disksize t = disksize s"
    "dirty (bio_abs t) = dirty (bio_abs s)"
  shows "log_inv t"
  using assms more_eq[OF assms(3)] by (simp add: log_inv_def log_area_def)

lemma read_cases:
  assumes inv: "bio_inv s"
  obtains (stop) e where "bio_step (Read b) s = Inl e" "bread_spec b (log_abs s) = Inl e"
  | (ok) t where "bio_step (Read b) s = Inr (blk (bio_abs s) b, t)" "bio_inv t"
      "bread_spec b (log_abs s) = Inr (b, log_abs t)" "blk (bio_abs t) b = blk (bio_abs s) b"
      "bio.more t = bio.more s" "disksize t = disksize s" "dirty (bio_abs t) = dirty (bio_abs s)"
proof (cases "bread_spec b (bio_abs s)")
  case (Inl e)
  then have "bio_step (Read b) s = Inl e"
    using sim_read[OF inv, of b] by (cases "bio_step (Read b) s") (auto simp: kdefs map_state_def)
  moreover have "bread_spec b (log_abs s) = Inl e"
    using Inl by (auto simp: bread_spec_def split: if_splits)
  ultimately show ?thesis using stop by blast
next
  case (Inr p)
  have "b < disksize s" if "b \<in> dirty (bio_abs s)"
    using that bio_invD(4)[OF inv] buf_of_Some[OF bio_invD(1)[OF inv]] dirty_abs_iff[OF bio_invD(1)[OF inv]]
    by (auto simp: buf_ok_def on_disk_def)
  with Inr have c: "b \<notin> held (bio_abs s)" "b < disksize s"
    "b \<in> dirty (bio_abs s) \<or> card (held (bio_abs s) \<union> dirty (bio_abs s)) < NBUF"
    by (auto simp: bread_spec_def split: if_splits)
  obtain i t where t: "bread ROOTDEV b s = Inr (i, t)" "bio_inv t"
    "bio_abs t = (bio_abs s)\<lparr>held := insert b (held (bio_abs s))\<rparr>"
    "b_data (bufs t ! i) = blk (bio_abs s) b" "bio.more t = bio.more s"
    using bread_ok[OF inv c] by metis
  have "log_abs t = (log_abs s)\<lparr>held := insert b (held (bio_abs s))\<rparr>"
    using log_abs_eqI[OF t(3,5)] by (simp add: log_abs_def)
  then have "bread_spec b (log_abs s) = Inr (b, log_abs t)"
    using c by (auto simp: bread_spec_def)
  moreover have "disksize t = disksize s" using dsize_eq(1)[OF t(3)] by simp
  ultimately show ?thesis
    using ok[of t] t by (simp add: kdefs)
qed

lemma if_held_with:
  assumes inv: "bio_inv s" and m: "\<And>i. holds s b i \<Longrightarrow> m (log_abs s) = map_state log_abs (f i s)"
  shows "if_held_l b m (log_abs s) = map_state log_abs (with_buf b f s)"
  using m held_abs_iff[OF bio_invD(1)[OF inv], of b]
  by (auto simp: with_buf_def if_held_l_def holds_def split: option.splits)

lemma with_bufE:
  assumes "with_buf b f s = Inr (r, t)"
  obtains i where "holds s b i" "f i s = Inr (r, t)"
  using assms by (auto simp: with_buf_def holds_def split: option.splits if_splits)

text \<open>Changing a held buffer and logging it.\<close>

lemma log_upd_buf [simp]:
  "log_start (upd_buf i f s) = log_start s" "log_size (upd_buf i f s) = log_size s"
  "outstanding (upd_buf i f s) = outstanding s" "committing (upd_buf i f s) = committing s"
  "log_dev (upd_buf i f s) = log_dev s" "lh (upd_buf i f s) = lh s"
  by (simp_all add: upd_buf_def)

definition logged :: "nat \<Rightarrow> nat \<Rightarrow> block \<Rightarrow> 'e logst_scheme \<Rightarrow> 'e logst_scheme" where
  "logged b i d s = (upd_buf i (\<lambda>c. c\<lparr>b_data := d, b_dirty := True\<rparr>) s)\<lparr>lh := log_absorb (lh s) b\<rparr>"

lemma set_log_write:
  assumes "bio_inv s" "holds s b i"
  shows "thenK (set_buf_data i d) (log_write i) s =
    (if length (lh s) \<ge> LOGSIZE \<or> int (length (lh s)) \<ge> int (log_size s) - 1
     then Inl (Panic ''too big a transaction'')
     else if outstanding s < 1 then Inl (Panic ''log_write outside of trans'')
     else Inr ((), logged b i d s))"
  using holdsD[OF assms] bio_invD(3)[OF assms(1)]
  by (simp add: kdefs set_buf_data_def log_write_def logged_def upd_buf_def on_disk_def)

lemma logged_ok:
  assumes "bio_inv s" "holds s b i"
  shows "bio_inv (logged b i d s)"
    "log_abs (logged b i d s) = (set_data b d (log_abs s))
       \<lparr>dirty := insert b (dirty (log_abs s)), ls_lh := log_absorb (lh s) b\<rparr>"
  using inv_set_dirty[OF assms, of d] abs_set_dirty[OF assms, of d]
  by (simp_all add: logged_def log_abs_def set_data_def)

lemma log_inv_logged:
  assumes inv: "log_inv s" and h: "holds s b i" and out: "b \<notin> log_area s"
    and n: "int (length (lh s)) < int (log_size s) - 1"
  shows "log_inv (logged b i d s)"
proof -
  have bi: "bio_inv s" using inv by (simp add: log_inv_def)
  have "dirty (bio_abs (logged b i d s)) = insert b (dirty (bio_abs s))"
    unfolding log_abs_fields(5)[symmetric] logged_ok(2)[OF bi h] by simp
  then show ?thesis
    using inv out n holdsD(7)[OF bi h] logged_ok(1)[OF bi h, of d]
    by (auto simp: log_inv_def log_area_def logged_def log_absorb_eq)
qed

lemma end_op_result:
  assumes inv: "log_inv s" and free: "held (bio_abs s) = {}"
  obtains t where "end_op s = Inr ((), t)" "log_inv t" "end_op_spec (log_abs s) = Inr ((), log_abs t)"
proof (cases "outstanding s = 1 \<and> lh s \<noteq> []")
  case True
  let ?s = "s\<lparr>outstanding := outstanding s - 1, committing := True\<rparr>"
  have same: "bio_abs ?s = bio_abs s" "bio_inv ?s = bio_inv s"
    using log_upd_abs(2,3) log_upd_inv(2,3) by metis+
  have ok: "trans_ok ?s"
    using log_inv_trans[OF inv free] same by (simp add: trans_ok_def log_area_def)
  from commit_ok[OF ok] True obtain t where t: "commit ?s = Inr ((), t)" "bio_inv t"
    "held (bio_abs t) = {}" "dirty (bio_abs t) = {}" "lh t = []" "disksize t = disksize s"
    "log_start t = log_start s" "log_size t = log_size s" "outstanding t = outstanding s - 1"
    "log_dev t = log_dev s"
    "memdisk t = apply_writes (commit_writes (log_start s) (lh s) (blk (bio_abs s))) (memdisk s)"
    "blk (bio_abs t) =
      apply_writes (commit_writes (log_start s) (lh s) (blk (bio_abs s))) (blk (bio_abs s))"
    unfolding same by auto
  let ?t = "t\<lparr>committing := False\<rparr>"
  have "end_op s = Inr ((), ?t)"
    using t(1) True inv by (simp add: end_op_def kdefs log_inv_def)
  moreover have "log_inv ?t"
    using inv t by (simp add: log_inv_def log_area_def)
  moreover have "end_op_spec (log_abs s) = Inr ((), log_abs ?t)"
    using True t free by (simp add: end_op_spec_def Let_def log_abs_def)
  ultimately show ?thesis using that by blast
next
  case False
  let ?t = "s\<lparr>outstanding := outstanding s - 1\<rparr>"
  have "end_op s = Inr ((), ?t)"
    using False inv by (auto simp: end_op_def commit_def kdefs log_inv_def)
  moreover have "log_inv ?t" using inv by (simp add: log_inv_def log_area_def)
  moreover have "end_op_spec (log_abs s) = Inr ((), log_abs ?t)"
    using False by (auto simp: end_op_spec_def Let_def log_abs_def)
  ultimately show ?thesis using that by blast
qed

lemma held_empty_iff:
  assumes "bio_inv s"
  shows "held (bio_abs s) \<noteq> {} \<longleftrightarrow> (\<exists>c \<in> set (bufs s). sl_locked (b_lock c))"
proof -
  have len: "length (bufs s) = NBUF" using bio_invD(1)[OF assms] by (simp add: uniq_bufs_def)
  have "b_dev c = ROOTDEV" if "c \<in> set (bufs s)" "sl_locked (b_lock c)" for c
    using that bio_invD(4)[OF assms] len by (auto simp: in_set_conv_nth buf_ok_def in_use_def)
  then show ?thesis
    by (fastforce simp: bio_abs_def on_disk_def in_set_conv_nth len)
qed

lemma log_write_abs:
  assumes "bio_inv s" "holds s b i"
  shows "thenK (modK (set_data b d)) (log_write_spec b) (log_abs s) =
    map_state log_abs (thenK (set_buf_data i d) (log_write i) s)"
  using logged_ok(2)[OF assms, of d]
  by (simp add: set_log_write[OF assms]) (simp add: kdefs log_write_spec_def set_data_def)

lemma thenK_assoc_ret:
  "thenK m (thenK n (ret x)) = thenK (thenK m n) (ret x)"
  by (rule ext) (auto simp: kdefs split: sum.splits)

lemma map_state_thenK_ret:
  "n u = map_state f (m s) \<Longrightarrow> thenK n (ret x) u = map_state f (thenK m (ret x) s)"
  by (cases "m s") (auto simp: kdefs map_state_def split: prod.splits)

lemma thenK_retE:
  assumes "thenK m (ret x) s = Inr (r, t)"
  shows "m s = Inr ((), t)"
  using assms by (auto simp: kdefs split: sum.splits)

lemma log_step_sim:
  assumes inv: "log_inv s"
  shows "lstore_step x (log_abs s) = map_state log_abs (log_step x s)"
proof -
  have bi: "bio_inv s" using inv by (simp add: log_inv_def)
  show ?thesis
  proof (cases x)
    case (LRead b)
    show ?thesis unfolding LRead log_step.simps
      by (rule read_cases[OF bi, of b]) (simp_all add: kdefs)
  next
    case (LUpdate b d)
    show ?thesis
    proof (cases "b \<in> area_of (log_start s) (log_size s)")
      case False
      have "if_held_l b (thenK (modK (set_data b d)) (thenK (log_write_spec b) (ret []))) (log_abs s) =
          map_state log_abs (with_buf b (\<lambda>i. thenK (set_buf_data i d) (thenK (log_write i) (ret []))) s)"
        unfolding thenK_assoc_ret
        by (rule if_held_with[OF bi], rule map_state_thenK_ret, rule log_write_abs[OF bi])
      with False LUpdate show ?thesis by simp
    qed (simp add: LUpdate)
  next
    case (LRelease b)
    show ?thesis unfolding LRelease log_step.simps bio_step.simps lstore_step.simps
    proof (rule if_held_with[OF bi], rule map_state_thenK_ret)
      fix i assume h: "holds s b i"
      have "log_abs (released i s) = (log_abs s)\<lparr>held := held (bio_abs s) - {b}\<rparr>"
        using log_abs_eqI[OF abs_released[OF bi h] released_fields(2)] by (simp add: log_abs_def)
      then show "brelse_spec b (log_abs s) = map_state log_abs (brelse i s)"
        using holdsD(3)[OF bi h] by (simp add: brelse_held[OF bi h] brelse_spec_def)
    qed
  next
    case LBegin
    show ?thesis unfolding LBegin log_step.simps lstore_step.simps
      by (rule map_state_thenK_ret)
        (use inv in \<open>simp add: begin_op_def begin_op_spec_def log_inv_def log_abs_def\<close>)
  next
    case LEnd
    show ?thesis
    proof (cases "held (bio_abs s) = {}")
      case True
      then have "\<not> (\<exists>c \<in> set (bufs s). sl_locked (b_lock c))" using held_empty_iff[OF bi] by blast
      with True LEnd show ?thesis
        by (simp add: end_op_result[OF inv True] map_state_thenK_ret)
          (rule end_op_result[OF inv True], simp add: kdefs)
    next
      case False
      with LEnd held_empty_iff[OF bi] show ?thesis by simp
    qed
  qed
qed

lemma log_step_inv:
  assumes inv: "log_inv s" and step: "log_step x s = Inr (r, t)"
  shows "log_inv t"
proof -
  have bi: "bio_inv s" using inv by (simp add: log_inv_def)
  show ?thesis
  proof (cases x)
    case (LRead b)
    with step have "bio_step (Read b) s = Inr (r, t)" by simp
    then show ?thesis
      by (cases rule: read_cases[OF bi, of b]) (use log_inv_moved[OF inv] in auto)
  next
    case (LUpdate b d)
    with step have out: "b \<notin> log_area s"
      and "with_buf b (\<lambda>i. thenK (set_buf_data i d) (thenK (log_write i) (ret []))) s = Inr (r, t)"
      by (auto simp: log_area_def area_of_def split: if_splits)
    then obtain i where h: "holds s b i"
      and "thenK (thenK (set_buf_data i d) (log_write i)) (ret []) s = Inr (r, t)"
      unfolding thenK_assoc_ret by (elim with_bufE)
    from thenK_retE[OF this(2)] have "t = logged b i d s" "int (length (lh s)) < int (log_size s) - 1"
      unfolding set_log_write[OF bi h] by (auto split: if_splits)
    with log_inv_logged[OF inv h out] show ?thesis by simp
  next
    case (LRelease b)
    with step obtain i where h: "holds s b i" and "thenK (brelse i) (ret []) s = Inr (r, t)"
      by (auto elim: with_bufE)
    from thenK_retE[OF this(2)] have t: "t = released i s" by (simp add: brelse_held[OF bi h])
    have "dirty (bio_abs t) = dirty (bio_abs s)" using t abs_released[OF bi h] by simp
    with t log_inv_moved[OF inv inv_released[OF bi h]] show ?thesis by simp
  next
    case LBegin
    with step have "begin_op s = Inr ((), t)" using thenK_retE by fastforce
    then show ?thesis
      using inv by (auto simp: begin_op_def log_inv_def log_area_def split: if_splits)
  next
    case LEnd
    with step have free: "held (bio_abs s) = {}" and "end_op s = Inr ((), t)"
      using held_empty_iff[OF bi] by (auto split: if_splits dest: thenK_retE)
    then show ?thesis using end_op_result[OF inv free] by (metis Inr_inject snd_conv)
  qed
qed

interpretation wal: simulation log_inv log_abs log_step lstore_step
  using log_step_sim log_step_inv by unfold_locales blast+

section \<open>A concrete machine\<close>

text \<open>A machine just after \<^verbatim>\<open>binit\<close> with disk \<open>m\<close> of 100 blocks whose log is at 2..31, and the same
  machine with one change to block 60 in the log.\<close>

definition fresh :: "(nat \<Rightarrow> block) \<Rightarrow> logst" where
  "fresh m = binit \<lparr>cur_pid = 1, memdisk = m, disksize = 100, writes = [],
     bufs = replicate NBUF bss_buf, b_next = (\<lambda>_. 0), b_prev = (\<lambda>_. 0), log_start = 2, log_size = 30,
     outstanding = 0, committing = False, log_dev = ROOTDEV, lh = []\<rparr>"

lemma binit_fields:
  "memdisk (binit s) = memdisk s" "disksize (binit s) = disksize s" "bio.more (binit s) = bio.more s"
  "map b_dirty (bufs (binit s)) = map b_dirty (bufs s)" "map b_dev (bufs (binit s)) = map b_dev (bufs s)"
proof -
  have "memdisk (fold (\<lambda>b s. link_front b (upd_buf b (\<lambda>c. c\<lparr>b_lock := initsleeplock\<rparr>) s)) xs s) = memdisk s \<and>
    disksize (fold (\<lambda>b s. link_front b (upd_buf b (\<lambda>c. c\<lparr>b_lock := initsleeplock\<rparr>) s)) xs s) = disksize s \<and>
    bio.more (fold (\<lambda>b s. link_front b (upd_buf b (\<lambda>c. c\<lparr>b_lock := initsleeplock\<rparr>) s)) xs s) = bio.more s \<and>
    map b_dirty (bufs (fold (\<lambda>b s. link_front b (upd_buf b (\<lambda>c. c\<lparr>b_lock := initsleeplock\<rparr>) s)) xs s)) =
      map b_dirty (bufs s) \<and>
    map b_dev (bufs (fold (\<lambda>b s. link_front b (upd_buf b (\<lambda>c. c\<lparr>b_lock := initsleeplock\<rparr>) s)) xs s)) =
      map b_dev (bufs s)" for xs and s :: "'a bio_scheme"
  proof (induction xs arbitrary: s)
    case (Cons b xs)
    have m: "map g ((bufs s)[b := (bufs s ! b)\<lparr>b_lock := l\<rparr>]) = map g (bufs s)"
      if "\<And>c. g (c\<lparr>b_lock := l\<rparr>) = g c" for g :: "buf \<Rightarrow> 'z" and l
      by (cases "b < length (bufs s)") (simp_all add: map_update that list_update_beyond list_update_same_conv)
    show ?case by (simp add: Cons.IH m)
  qed simp
  then show "memdisk (binit s) = memdisk s" "disksize (binit s) = disksize s"
    "bio.more (binit s) = bio.more s" "map b_dirty (bufs (binit s)) = map b_dirty (bufs s)"
    "map b_dev (bufs (binit s)) = map b_dev (bufs s)"
    by (simp_all add: binit_def)
qed

lemma fresh_fields [simp]:
  "memdisk (fresh m) = m" "disksize (fresh m) = 100" "log_start (fresh m) = 2"
  "log_size (fresh m) = 30" "outstanding (fresh m) = 0" "\<not> committing (fresh m)"
  "log_dev (fresh m) = ROOTDEV" "lh (fresh m) = []"
  unfolding fresh_def by (simp_all add: binit_fields more_eq[OF binit_fields(3)])

lemma fresh_inv: "bio_inv (fresh m)"
  unfolding fresh_def by (rule inv_binit) simp_all

lemma fresh_abs:
  "blk (bio_abs (fresh m)) = m" "held (bio_abs (fresh m)) = {}" "dirty (bio_abs (fresh m)) = {}"
proof -
  let ?c = "\<lambda>i. bufs (fresh m) ! i"
  have len: "length (bufs (fresh m)) = NBUF"
    using bio_invD(1)[OF fresh_inv] by (simp add: uniq_bufs_def)
  have "map b_dev (bufs (fresh m)) = replicate NBUF 0"
    by (simp add: fresh_def binit_fields bss_buf_def)
  then have "b_dev (?c i) = 0" if "i < NBUF" for i
    using that len by (metis nth_map nth_replicate)
  then have off: "\<not> on_disk (?c i) b" if "i < NBUF" for i b
    using that by (simp add: on_disk_def ROOTDEV_def)
  then have "buf_of (fresh m) b = None" for b by (simp add: buf_of_None)
  then show "blk (bio_abs (fresh m)) = m" by (simp add: bio_abs_def)
  show "held (bio_abs (fresh m)) = {}" "dirty (bio_abs (fresh m)) = {}"
    using off by (auto simp: bio_abs_def)
qed

lemma fresh_log_inv: "log_inv (fresh m)"
  by (simp add: log_inv_def fresh_inv fresh_abs NBUF_def)

lemma fresh_log_abs:
  "log_abs (fresh m) = \<lparr>blk = m, platter = m, dsize = 100, held = {}, dirty = {}, ls_start = 2,
     ls_size = 30, ls_outstanding = 0, ls_lh = []\<rparr>"
  by (simp add: log_abs_def fresh_abs)

lemma one_block_logged:
  obtains s where "runK log_step [LBegin, LRead 60, LUpdate 60 d, LRelease 60] (fresh m) =
      Inr ([[], m 60, [], []], s)"
    "log_inv s" "log_abs s = \<lparr>blk = m(60 := d), platter = m, dsize = 100, held = {}, dirty = {60},
       ls_start = 2, ls_size = 30, ls_outstanding = 1, ls_lh = [60]\<rparr>"
proof -
  let ?ops = "[LBegin, LRead 60, LUpdate 60 d, LRelease 60]"
  have "runK lstore_step ?ops (log_abs (fresh m)) = Inr ([[], m 60, [], []],
      \<lparr>blk = m(60 := d), platter = m, dsize = 100, held = {}, dirty = {60},
       ls_start = 2, ls_size = 30, ls_outstanding = 1, ls_lh = [60]\<rparr>)"
    by (simp add: fresh_log_abs kdefs begin_op_spec_def bread_spec_def NBUF_def area_of_def
        if_held_l_def log_write_spec_def set_data_def log_absorb_def brelse_spec_def)
  then have "map_state log_abs (runK log_step ?ops (fresh m)) = Inr ([[], m 60, [], []],
      \<lparr>blk = m(60 := d), platter = m, dsize = 100, held = {}, dirty = {60},
       ls_start = 2, ls_size = 30, ls_outstanding = 1, ls_lh = [60]\<rparr>)"
    using wal.run_sim[OF fresh_log_inv, of ?ops m] by simp
  then obtain s where "runK log_step ?ops (fresh m) = Inr ([[], m 60, [], []], s)"
    "log_abs s = \<lparr>blk = m(60 := d), platter = m, dsize = 100, held = {}, dirty = {60},
       ls_start = 2, ls_size = 30, ls_outstanding = 1, ls_lh = [60]\<rparr>"
    by (cases "runK log_step ?ops (fresh m)") (auto simp: map_state_def)
  moreover from this(1) have "log_inv s" by (rule wal.run_inv[OF fresh_log_inv])
  ultimately show ?thesis using that by blast
qed

section \<open>Properties\<close>

text \<open>(C1) A power failure during \<^verbatim>\<open>commit\<close>, after any number \<open>k\<close> of its disk writes: the recovery of
  the next boot succeeds, and outside the log area it leaves every block as it was before the
  transaction when the header write had not been reached, and as the transaction made it
  otherwise. No mixture of the two is possible.\<close>

theorem commit_crash_atomic:
  assumes "trans_ok s" "\<forall>b \<in> set (lh s). fits32 b" "get_u32 (memdisk s (log_start s)) 0 = 0"
    "length (memdisk s (log_start s)) = BSIZE"
    and run: "commit s = Inr ((), t)" "writes t = writes s @ ws" "k \<le> length ws"
    and "restarted s (apply_writes (take k ws) (memdisk s)) r"
  shows "\<exists>u. recover_from_log r = Inr ((), u) \<and>
    (\<forall>b. b \<notin> log_area s \<longrightarrow>
       memdisk u b = (if k \<le> length (lh s) then memdisk s b else blk (bio_abs s) b))"
proof (cases "lh s = []")
  case True
  with run have "k = 0" by (auto simp: commit_def kdefs)
  with assms show ?thesis using crash_atomic[OF assms(1-4) refl, of 0 r] by simp
next
  case False
  with commit_ok[OF assms(1)] run(1,2)
  have "ws = commit_writes (log_start s) (lh s) (blk (bio_abs s))" by auto
  from crash_atomic[OF assms(1-4) this run(3) assms(8)] show ?thesis .
qed

theorem commit_crash_atomic_witness:
  "\<exists>(s :: logst) t ws r u. lh s = [60] \<and> commit s = Inr ((), t) \<and> writes t = writes s @ ws \<and>
     restarted s (apply_writes (take 3 ws) (memdisk s)) r \<and> recover_from_log r = Inr ((), u) \<and>
     memdisk s 60 = zero_block \<and> memdisk u 60 = replicate BSIZE 7 \<and> memdisk u 61 = zero_block"
proof -
  let ?d = "replicate BSIZE 7 :: block" and ?m = "\<lambda>_ :: nat. zero_block"
  obtain s :: logst where s: "log_inv s" "log_abs s = \<lparr>blk = ?m(60 := ?d), platter = ?m, dsize = 100,
      held = {}, dirty = {60}, ls_start = 2, ls_size = 30, ls_outstanding = 1, ls_lh = [60]\<rparr>"
    by (rule one_block_logged[where m = ?m and d = ?d]) simp
  have f: "lh s = [60]" "held (bio_abs s) = {}" "log_start s = 2" "log_size s = 30"
    "memdisk s = ?m" "disksize s = 100" "blk (bio_abs s) = ?m(60 := ?d)"
    using s(2) log_abs_fields[of s] by simp_all
  have ok: "trans_ok s" using log_inv_trans[OF s(1)] f by simp
  from commit_ok[OF ok] f obtain t where t: "commit s = Inr ((), t)"
    "writes t = writes s @ commit_writes 2 [60] (?m(60 := ?d))" by auto
  let ?ws = "commit_writes 2 [60] (?m(60 := ?d))"
  let ?r = "fresh (apply_writes (take 3 ?ws) (memdisk s))"
  have r: "restarted s (apply_writes (take 3 ?ws) (memdisk s)) ?r"
    using f by (simp add: restarted_def fresh_inv fresh_abs)
  have len: "length ?ws = 4" by (simp add: commit_writes_def Let_def)
  have z: "get_u32 zero_block 0 = 0" by simp
  obtain u where u: "recover_from_log ?r = Inr ((), u)"
    "\<forall>b. b \<notin> log_area s \<longrightarrow> memdisk u b = (if 3 \<le> length (lh s) then memdisk s b else blk (bio_abs s) b)"
    using commit_crash_atomic[OF ok _ _ _ t _ r] f len z by (auto simp: fits32_def)
  have "memdisk u 60 = ?d" "memdisk u 61 = zero_block"
    using u(2) f by (simp_all add: log_area_def)
  with f t r u(1) show ?thesis
    by (intro exI[of _ s] exI[of _ t] exI[of _ ?ws] exI[of _ ?r] exI[of _ u]) simp
qed

text \<open>(C3) The log over the buffer cache implements the logged block store: for every sequence of
  requests, from every state that satisfies the invariant, the results, the panics and the
  contents that the C code produces are those of the specification.\<close>

theorem log_refines_store:
  "log_inv s \<Longrightarrow> runK lstore_step xs (log_abs s) = map_state log_abs (runK log_step xs s)"
  by (rule wal.run_sim)

theorem log_refines_store_witness:
  "log_inv (fresh (\<lambda>_. zero_block)) \<and>
   runK lstore_step [LBegin, LRead 60, LUpdate 60 zero_block, LRelease 60, LEnd]
     (log_abs (fresh (\<lambda>_. zero_block))) =
   map_state log_abs (runK log_step [LBegin, LRead 60, LUpdate 60 zero_block, LRelease 60, LEnd]
     (fresh (\<lambda>_. zero_block)))"
  using log_refines_store[OF fresh_log_inv] fresh_log_inv by blast

text \<open>(C2) A power failure during recovery itself, after any number \<open>k\<close> of its disk writes: the
  recovery of the boot after that one succeeds and leaves the same blocks as an
  undisturbed recovery.\<close>

theorem recovery_restartable:
  assumes "booted r" "length (memdisk r (log_start r)) = BSIZE"
    and "recover_from_log r = Inr ((), u)" "writes u = writes r @ ws" "k \<le> length ws"
    and "restarted r (apply_writes (take k ws) (memdisk r)) r'"
  shows "\<exists>u'. recover_from_log r' = Inr ((), u') \<and>
    (\<forall>b. b \<notin> log_area r \<longrightarrow> memdisk u' b = memdisk u b)"
  by (rule recovery_idempotent[OF assms])

theorem recovery_restartable_witness:
  "\<exists>(r :: logst) u ws r' u'. head_entries (memdisk r (log_start r)) = [60] \<and>
     recover_from_log r = Inr ((), u) \<and> writes u = writes r @ ws \<and>
     restarted r (apply_writes (take 1 ws) (memdisk r)) r' \<and> recover_from_log r' = Inr ((), u') \<and>
     memdisk u' 60 = memdisk u 60"
proof -
  let ?h = "head_data [60] zero_block"
  define r where "r = fresh ((\<lambda>_. zero_block)(2 := ?h))"
  have h: "head_entries ?h = [60]" "length ?h = BSIZE"
    using head_entries_head_data[of zero_block "[60]"] length_head_data[of zero_block "[60]"]
    by (auto simp: fits32_def)
  have b: "booted r"
    by (simp add: r_def booted_def fresh_inv fresh_abs h NBUF_def log_area_def)
  from recover_ok[OF b refl] h obtain u ws where u: "recover_from_log r = Inr ((), u)"
    "writes u = writes r @ ws" "1 \<le> length ws"
    by (auto simp: r_def)
  let ?r = "fresh (apply_writes (take 1 ws) (memdisk r))"
  have r': "restarted r (apply_writes (take 1 ws) (memdisk r)) ?r"
    by (simp add: restarted_def fresh_inv fresh_abs r_def)
  obtain u' where "recover_from_log ?r = Inr ((), u')" "memdisk u' 60 = memdisk u 60"
    using recovery_restartable[OF b _ u r'] h by (auto simp: r_def log_area_def)
  with h u r' show ?thesis
    by (intro exI[of _ r] exI[of _ u] exI[of _ ws] exI[of _ ?r] exI[of _ u']) (simp add: r_def)
qed

end
