(* ===== verification/Console.thy ===== *)
theory Console
  imports Logged
begin

text \<open>
  The console (\<^verbatim>\<open>console.c\<close>): formatted output, the CGA text screen, and the input buffer with
  its line editing. Characters are natural numbers below 256 (\<open>BACKSPACE\<close> is 256); what is
  sent to the serial port is the list \<open>uart_out\<close>. The three indices of the input buffer are
  32-bit words, as in the code they grow without bound and wrap around. \<^verbatim>\<open>consoleread\<close> and
  \<^verbatim>\<open>consolewrite\<close>, which unlock and lock an inode, are in theory \<open>Inode\<close>.
\<close>

section \<open>State\<close>

record conss = lstore +
  panicked :: bool
  uart_out :: "nat list"
  crt :: "nat \<Rightarrow> nat"
  crt_pos :: nat
  in_buf :: "nat list"
  in_r :: "32 word"
  in_w :: "32 word"
  in_e :: "32 word"

abbreviation BACKSPACE :: nat where "BACKSPACE \<equiv> 256"
abbreviation INPUT_BUF :: nat where "INPUT_BUF \<equiv> 128"
abbreviation newline :: nat where "newline \<equiv> 10"
abbreviation ctrl_D :: nat where "ctrl_D \<equiv> 4"

section \<open>Output\<close>

text \<open>The screen is 25 rows of 80 cells; \<open>crt_pos\<close> is the cursor register.\<close>

definition cga_advance :: "nat \<Rightarrow> (nat \<Rightarrow> nat) \<Rightarrow> nat \<Rightarrow> (nat \<Rightarrow> nat) \<times> nat" where
  "cga_advance c m pos =
     (if c = newline then (m, pos + (80 - pos mod 80))
      else if c = BACKSPACE then (m, if pos > 0 then pos - 1 else pos)
      else (m(pos := c mod 256 + 1792), pos + 1))"

definition cga_scroll :: "(nat \<Rightarrow> nat) \<Rightarrow> nat \<Rightarrow> (nat \<Rightarrow> nat) \<times> nat" where
  "cga_scroll m pos =
     (if pos div 80 \<ge> 24 then
        let up = (\<lambda>i. if i < 23 * 80 then m (i + 80) else m i); pos' = pos - 80
        in (\<lambda>i. if pos' \<le> i \<and> i < 24 * 80 then 0 else up i, pos')
      else (m, pos))"

definition cgaputc :: "nat \<Rightarrow> ('e conss_scheme, unit) K" where
  "cgaputc c s =
     (case cga_advance c (crt s) (crt_pos s) of (m, pos) \<Rightarrow>
      if pos > 25 * 80 then Inl (Panic ''pos under/overflow'')
      else case cga_scroll m pos of (m', pos') \<Rightarrow>
        Inr ((), s\<lparr>crt := m'(pos' := 32 + 1792), crt_pos := pos'\<rparr>))"

definition uartputc :: "nat \<Rightarrow> ('e conss_scheme, unit) K" where
  "uartputc c = modK (\<lambda>s. s\<lparr>uart_out := uart_out s @ [c]\<rparr>)"

definition consputc :: "nat \<Rightarrow> ('e conss_scheme, unit) K" where
  "consputc c =
     bindK (getK panicked) (\<lambda>p.
     if p then stopK (Sleeps ''panicked'')
     else
       thenK (if c = BACKSPACE then thenK (uartputc 8) (thenK (uartputc 32) (uartputc 8))
              else uartputc c)
       (cgaputc c))"

fun consputs :: "nat list \<Rightarrow> ('e conss_scheme, unit) K" where
  "consputs [] = ret ()"
| "consputs (c # cs) = thenK (consputc c) (consputs cs)"

text \<open>The digits of \<open>x\<close>, least significant first, in a buffer of \<open>room\<close> bytes.\<close>

definition digit :: "nat \<Rightarrow> nat" where
  "digit d = (if d < 10 then 48 + d else 87 + d)"

fun print_digits :: "nat \<Rightarrow> nat \<Rightarrow> nat \<Rightarrow> nat list option" where
  "print_digits 0 base x = None"
| "print_digits (Suc n) base x =
     (if x div base = 0 then Some [digit (x mod base)]
      else map_option (Cons (digit (x mod base))) (print_digits n base (x div base)))"

definition printint :: "int \<Rightarrow> nat \<Rightarrow> bool \<Rightarrow> nat list option" where
  "printint xx base sign =
     (let neg = sign \<and> xx < 0;
          x = nat ((if neg then - xx else xx) mod 4294967296)
      in case print_digits 16 base x of
           None \<Rightarrow> None
         | Some ds \<Rightarrow> if neg then if length ds < 16 then Some (45 # rev ds) else None
                     else Some (rev ds))"

text \<open>The arguments of \<^verbatim>\<open>cprintf\<close>: numbers and pointers to strings.\<close>

datatype carg = Num int | Str "nat list option"

fun cprintf :: "nat list \<Rightarrow> carg list \<Rightarrow> ('e conss_scheme, unit) K" where
  "cprintf [] args = ret ()"
| "cprintf [c] args = (if c = 37 then ret () else consputc c)"
| "cprintf (c # d # fmt) args =
     (if c \<noteq> 37 then thenK (consputc c) (cprintf (d # fmt) args)
      else if d = 100 \<or> d = 120 \<or> d = 112 then
        case args of
          Num x # args' \<Rightarrow>
            (case (if d = 100 then printint x 10 True else printint x 16 False) of
               Some ds \<Rightarrow> thenK (consputs ds) (cprintf fmt args')
             | None \<Rightarrow> stopK (Fault ''printint''))
        | _ \<Rightarrow> stopK (Fault ''cprintf'')
      else if d = 115 then
        case args of
          Str None # args' \<Rightarrow> thenK (consputs [40, 110, 117, 108, 108, 41]) (cprintf fmt args')
        | Str (Some cs) # args' \<Rightarrow> thenK (consputs (takeWhile (\<lambda>c. c \<noteq> 0) cs)) (cprintf fmt args')
        | _ \<Rightarrow> stopK (Fault ''cprintf'')
      else if d = 37 then thenK (consputc 37) (cprintf fmt args)
      else thenK (consputc 37) (thenK (consputc d) (cprintf fmt args)))"

section \<open>Input\<close>

definition in_at :: "'e conss_scheme \<Rightarrow> 32 word \<Rightarrow> nat" where
  "in_at s i = in_buf s ! (unat i mod INPUT_BUF)"

text \<open>Control-U: erase back to the last end of line. Each round lowers the distance of the
  edit index from the write index.\<close>

function kill_line :: "('e conss_scheme, unit) K" where
  "kill_line s =
     (if in_e s \<noteq> in_w s \<and> in_at s (in_e s - 1) \<noteq> newline
      then case consputc BACKSPACE (s\<lparr>in_e := in_e s - 1\<rparr>) of
             Inl e \<Rightarrow> Inl e
           | Inr (_, s') \<Rightarrow> kill_line s'
      else Inr ((), s))"
  by pat_completeness auto

definition erase_char :: "('e conss_scheme, unit) K" where
  "erase_char =
     bindK (getK (\<lambda>s. in_e s \<noteq> in_w s)) (\<lambda>ne.
     whenK ne (thenK (modK (\<lambda>s. s\<lparr>in_e := in_e s - 1\<rparr>)) (consputc BACKSPACE)))"

definition put_char :: "nat \<Rightarrow> ('e conss_scheme, unit) K" where
  "put_char c0 =
     bindK (getK (\<lambda>s. unat (in_e s - in_r s) < INPUT_BUF)) (\<lambda>space.
     whenK (c0 \<noteq> 0 \<and> space)
       (let c = (if c0 = 13 then newline else c0) in
        thenK (modK (\<lambda>s. s\<lparr>in_buf := (in_buf s)[unat (in_e s) mod INPUT_BUF := c mod 256], in_e := in_e s + 1\<rparr>))
        (thenK (consputc c)
        (modK (\<lambda>s. if c = newline \<or> c = ctrl_D \<or> in_e s = in_r s + of_nat INPUT_BUF
                   then s\<lparr>in_w := in_e s\<rparr> else s)))))"

lemma consputc_frame:
  assumes "consputc c s = Inr (x, t)"
  shows "\<exists>o1 m p. t = s\<lparr>uart_out := o1, crt := m, crt_pos := p\<rparr>"
  using assms unfolding consputc_def uartputc_def cgaputc_def kdefs
  by (auto split: if_splits prod.splits sum.splits)

termination kill_line
proof (relation "measure (\<lambda>s. unat (in_e s - in_w s))")
  fix s :: "'e conss_scheme" and p x and t :: "'e conss_scheme"
  assume ne: "in_e s \<noteq> in_w s \<and> in_at s (in_e s - 1) \<noteq> newline"
    and r: "consputc BACKSPACE (s\<lparr>in_e := in_e s - 1\<rparr>) = Inr p" "(x, t) = p"
  from consputc_frame[OF r(1)[folded r(2)]]
  have e: "in_e t = in_e s - 1" "in_w t = in_w s" by auto
  have "in_e s - in_w s \<noteq> 0" using ne by simp
  then have "unat (in_e s - in_w s - 1) < unat (in_e s - in_w s)"
    by (metis unat_minus_one unat_gt_0 diff_less zero_less_one)
  with e show "(t, s) \<in> measure (\<lambda>s. unat (in_e s - in_w s))"
    by (simp add: diff_diff_eq add.commute)
qed simp

declare kill_line.simps [simp del]

text \<open>The interrupt handler on the characters that \<^verbatim>\<open>getc\<close> delivers before it returns a negative
  number. The result says whether \<^verbatim>\<open>procdump\<close> is to be called.\<close>

fun consoleintr :: "nat list \<Rightarrow> ('e conss_scheme, bool) K" where
  "consoleintr [] = ret False"
| "consoleintr (c # cs) =
     (if c = 16 then bindK (consoleintr cs) (\<lambda>_. ret True)
      else if c = 21 then thenK kill_line (consoleintr cs)
      else if c = 8 \<or> c = 127 then thenK erase_char (consoleintr cs)
      else thenK (put_char c) (consoleintr cs))"

section \<open>The screen\<close>

lemma next_line:
  assumes "pos < 1920"
  shows "pos + (80 - pos mod 80) \<le> (1920 :: nat)"
proof -
  define q r where "q = pos div 80" and "r = pos mod 80"
  then have "pos = 80 * q + r" "r < 80" by simp_all
  moreover have "pos + (80 - r) = 80 * q + 80" using calculation by linarith
  moreover have "q < 24" using assms calculation by linarith
  ultimately show ?thesis by (simp flip: r_def)
qed

lemma cga_advance_on:
  assumes "pos < 1920" "cga_advance c m pos = (m', pos')"
  shows "pos' \<le> 1920" "i \<ge> 1920 \<Longrightarrow> m' i = m i"
proof -
  show "pos' \<le> 1920"
    using assms next_line[OF assms(1)]
    by (cases "c = newline"; cases "c = BACKSPACE"; cases "pos > 0") (auto simp: cga_advance_def)
  show "i \<ge> 1920 \<Longrightarrow> m' i = m i"
    using assms by (cases "c = newline"; cases "c = BACKSPACE") (auto simp: cga_advance_def)
qed

lemma cga_scroll_on:
  assumes "pos \<le> 1920" "cga_scroll m pos = (m', pos')"
  shows "pos' < 1920" "i \<ge> 1920 \<Longrightarrow> m' i = m i"
proof -
  show "pos' < 1920"
  proof (cases "24 \<le> pos div 80")
    case True
    with assms show ?thesis by (auto simp: cga_scroll_def Let_def)
  next
    case False
    then have "pos \<noteq> 1920" by auto
    with False assms show ?thesis by (auto simp: cga_scroll_def)
  qed
  show "i \<ge> 1920 \<Longrightarrow> m' i = m i"
    using assms by (cases "24 \<le> pos div 80") (auto simp: cga_scroll_def Let_def)
qed

text \<open>The cursor stays in the first 24 rows and nothing outside them is overwritten.\<close>

lemma cga_on_screen:
  assumes "crt_pos s < 1920"
  shows "\<exists>m p. cgaputc c s = Inr ((), s\<lparr>crt := m, crt_pos := p\<rparr>) \<and> p < 1920 \<and>
    (\<forall>i \<ge> 1920. m i = crt s i)"
proof -
  obtain m1 p1 where a: "cga_advance c (crt s) (crt_pos s) = (m1, p1)" by fastforce
  obtain m2 p2 where b: "cga_scroll m1 p1 = (m2, p2)" by fastforce
  note on = cga_advance_on[OF assms a] and on2 = cga_scroll_on[OF cga_advance_on(1)[OF assms a] b]
  have "cgaputc c s = Inr ((), s\<lparr>crt := m2(p2 := 32 + 1792), crt_pos := p2\<rparr>)"
    using on(1) by (simp add: cgaputc_def a b)
  moreover have "(m2(p2 := 32 + 1792)) i = crt s i" if "i \<ge> 1920" for i
    using on(2)[OF that] on2(1) on2(2)[OF that] that by simp
  ultimately show ?thesis using on2(1) by blast
qed

end
