(* ===== verification/Balloc.thy ===== *)
theory Balloc
  imports Console
begin

text \<open>
  The bottom of \<^verbatim>\<open>fs.c\<close>: the super block, zeroing a block, and the block allocator with its free
  bit map, over the logged block store. A buffer is denoted by its block number; \<open>bdata\<close>
  and \<open>set_bdata\<close> are accesses through \<^verbatim>\<open>bp->data\<close>. The theory computes what each operation
  does to the contents of the blocks.
\<close>

section \<open>State and operations\<close>

record fsst = conss +
  fs_sb :: superblock

definition fs_bread :: "nat \<Rightarrow> nat \<Rightarrow> ('e bstore_scheme, nat) K" where
  "fs_bread dev b =
     (if dev = ROOTDEV then bread_spec b else panic ''iderw: request not for disk 1'')"

definition bdata :: "nat \<Rightarrow> ('e bstore_scheme, block) K" where
  "bdata b = getK (\<lambda>s. blk s b)"

definition set_bdata :: "nat \<Rightarrow> block \<Rightarrow> ('e bstore_scheme, unit) K" where
  "set_bdata b d = modK (set_data b d)"

definition readsb :: "nat \<Rightarrow> ('e fsst_scheme, superblock) K" where
  "readsb dev =
     bindK (fs_bread dev 1) (\<lambda>bp.
     bindK (bdata bp) (\<lambda>d.
     thenK (brelse_spec bp)
     (ret (dec_superblock d))))"

definition bzero :: "nat \<Rightarrow> nat \<Rightarrow> ('e fsst_scheme, unit) K" where
  "bzero dev bno =
     bindK (fs_bread dev bno) (\<lambda>bp.
     thenK (set_bdata bp zero_block)
     (thenK (log_write_spec bp)
     (brelse_spec bp)))"

text \<open>Bit \<open>bi\<close> of a bit map block.\<close>

definition bit_mask :: "nat \<Rightarrow> u8" where
  "bit_mask bi = push_bit (bi mod 8) 1"

definition bit_free :: "block \<Rightarrow> nat \<Rightarrow> bool" where
  "bit_free d bi \<longleftrightarrow> and (d ! (bi div 8)) (bit_mask bi) = 0"

definition bit_mark :: "block \<Rightarrow> nat \<Rightarrow> block" where
  "bit_mark d bi = d[bi div 8 := or (d ! (bi div 8)) (bit_mask bi)]"

definition bit_clear :: "block \<Rightarrow> nat \<Rightarrow> block" where
  "bit_clear d bi = d[bi div 8 := and (d ! (bi div 8)) (not (bit_mask bi))]"

text \<open>The body of the outer loop of \<^verbatim>\<open>balloc\<close>, for the bit map block of the blocks from \<open>b\<close> on.\<close>

definition balloc_group :: "nat \<Rightarrow> nat \<Rightarrow> ('e fsst_scheme, nat option) K" where
  "balloc_group dev b =
     bindK (getK fs_sb) (\<lambda>sb.
     bindK (fs_bread dev (BBLOCK b sb)) (\<lambda>bp.
     bindK (bdata bp) (\<lambda>d.
     case find (bit_free d) [0..<min BPB (sb_size sb - b)] of
       Some bi \<Rightarrow>
         thenK (set_bdata bp (bit_mark d bi))
         (thenK (log_write_spec bp)
         (thenK (brelse_spec bp)
         (thenK (bzero dev (b + bi))
         (ret (Some (b + bi))))))
     | None \<Rightarrow> thenK (brelse_spec bp) (ret None))))"

definition balloc :: "nat \<Rightarrow> ('e fsst_scheme, nat) K" where
  "balloc dev =
     bindK (getK fs_sb) (\<lambda>sb.
     bindK (forK (map (\<lambda>k. k * BPB) [0..<(sb_size sb + BPB - 1) div BPB]) (balloc_group dev)) (\<lambda>r.
     case r of Some b \<Rightarrow> ret b | None \<Rightarrow> panic ''balloc: out of blocks''))"

definition bfree :: "nat \<Rightarrow> nat \<Rightarrow> ('e fsst_scheme, unit) K" where
  "bfree dev b =
     bindK (getK fs_sb) (\<lambda>sb.
     bindK (fs_bread dev (BBLOCK b sb)) (\<lambda>bp.
     bindK (bdata bp) (\<lambda>d.
     if bit_free d (b mod BPB) then panic ''freeing free block''
     else
       thenK (set_bdata bp (bit_clear d (b mod BPB)))
       (thenK (log_write_spec bp)
       (brelse_spec bp)))))"

section \<open>Bits\<close>

lemma bit_free_iff: "bit_free d bi \<longleftrightarrow> \<not> bit (d ! (bi div 8)) (bi mod 8)"
  by (simp add: bit_free_def bit_mask_def push_bit_eq_mult and_exp_eq_0_iff_not_bit)

lemma bit_mask_iff: "bit (bit_mask bi) j \<longleftrightarrow> j = bi mod 8"
  by (auto simp: bit_mask_def bit_simps)

lemma nth_upd_same_byte: "i < length d \<Longrightarrow> (d[i := x]) ! j = (if i = j then x else d ! j)"
  by simp

lemma bit_mark_free:
  assumes "bi < 8 * length d"
  shows "bit_free (bit_mark d bi) j \<longleftrightarrow> bit_free d j \<and> j \<noteq> bi"
proof -
  have "j = bi \<longleftrightarrow> j div 8 = bi div 8 \<and> j mod 8 = bi mod 8" by (metis div_mult_mod_eq)
  with assms show ?thesis
    by (auto simp: bit_free_iff bit_mark_def bit_or_iff bit_mask_iff nth_list_update less_mult_imp_div_less mult.commute)
qed

lemma bit_clear_free:
  assumes "bi < 8 * length d"
  shows "bit_free (bit_clear d bi) j \<longleftrightarrow> bit_free d j \<or> j = bi"
proof -
  have "j = bi \<longleftrightarrow> j div 8 = bi div 8 \<and> j mod 8 = bi mod 8" by (metis div_mult_mod_eq)
  with assms show ?thesis
    by (auto simp: bit_free_iff bit_clear_def bit_and_iff bit_not_iff bit_mask_iff nth_list_update less_mult_imp_div_less mult.commute)
qed

lemma length_bit_mark [simp]: "length (bit_mark d bi) = length d"
  by (simp add: bit_mark_def)

lemma length_bit_clear [simp]: "length (bit_clear d bi) = length d"
  by (simp add: bit_clear_def)

lemma bit_clear_mark:
  assumes "bit_free d bi" "bi < 8 * length d"
  shows "bit_clear (bit_mark d bi) bi = d"
proof -
  have i: "bi div 8 < length d" using assms(2) by (simp add: less_mult_imp_div_less mult.commute)
  have "and (or (d ! (bi div 8)) (bit_mask bi)) (not (bit_mask bi)) = d ! (bi div 8)"
    using assms(1)
    by (intro bit_eqI) (auto simp: bit_and_iff bit_or_iff bit_not_iff bit_mask_iff bit_free_iff)
  with i show ?thesis by (simp add: bit_clear_def bit_mark_def)
qed

section \<open>Reading and logging a block\<close>

text \<open>\<open>hold b\<close> is the state with the buffer of \<open>b\<close> locked, \<open>lput b d\<close> the state after
  \<open>b\<close> was set to \<open>d\<close> and logged. \<open>room l h s\<close>: \<open>l\<close> more blocks can be logged and
  \<open>h\<close> more buffers locked at the same time.\<close>

definition hold :: "nat \<Rightarrow> 'e bstore_scheme \<Rightarrow> 'e bstore_scheme" where
  "hold b s = s\<lparr>held := insert b (held s)\<rparr>"

definition lput :: "nat \<Rightarrow> block \<Rightarrow> 'e lstore_scheme \<Rightarrow> 'e lstore_scheme" where
  "lput b d s = s\<lparr>blk := (blk s)(b := d), dirty := insert b (dirty s), ls_lh := log_absorb (ls_lh s) b\<rparr>"

definition room :: "nat \<Rightarrow> nat \<Rightarrow> 'e lstore_scheme \<Rightarrow> bool" where
  "room l h s \<longleftrightarrow> dirty s = set (ls_lh s) \<and> finite (held s) \<and>
     length (ls_lh s) + l \<le> LOGSIZE \<and> length (ls_lh s) + l < ls_size s \<and>
     (0 < l \<longrightarrow> 1 \<le> ls_outstanding s) \<and> card (held s) + length (ls_lh s) + l + h \<le> NBUF"

lemma hold_fields [simp]:
  "blk (hold b s) = blk s" "dsize (hold b s) = dsize s" "held (hold b s) = insert b (held s)"
  by (simp_all add: hold_def)

lemma hold_lfields [simp]:
  "ls_lh (hold b s) = ls_lh s" "ls_outstanding (hold b s) = ls_outstanding s"
  "ls_size (hold b s) = ls_size s" "fs_sb (hold b t) = fs_sb t"
  by (simp_all add: hold_def)

lemma lput_fields [simp]:
  "blk (lput b d s) = (blk s)(b := d)" "dsize (lput b d s) = dsize s" "held (lput b d s) = held s"
  "ls_outstanding (lput b d s) = ls_outstanding s" "ls_size (lput b d s) = ls_size s"
  "fs_sb (lput b d t) = fs_sb t"
  by (simp_all add: lput_def)

lemma lput_hold: "lput b d (hold c s) = hold c (lput b d s)"
  by (simp add: lput_def hold_def)

lemma lput_lput: "lput b d (lput b e s) = lput b d s"
  by (simp add: lput_def log_absorb_eq)

lemma bread_hold:
  assumes "room l (Suc h) s" "b \<notin> held s" "b < dsize s"
  shows "bread_spec b s = Inr (b, hold b s)"
proof -
  have "card (held s \<union> dirty s) \<le> card (held s) + length (ls_lh s)"
    using card_Un_le[of "held s" "set (ls_lh s)"] card_length[of "ls_lh s"] assms(1)
    by (simp add: room_def)
  with assms show ?thesis by (auto simp: bread_spec_def room_def hold_def)
qed

lemma brelse_hold: "b \<notin> held s \<Longrightarrow> brelse_spec b (hold b s) = Inr ((), s)"
  by (simp add: brelse_spec_def hold_def)

lemma log_write_lput:
  assumes "room (Suc l) h s"
  shows "log_write_spec b (set_data b d s) = Inr ((), lput b d s)"
  using assms by (simp add: log_write_spec_def set_data_def room_def lput_def)

lemma room_hold: "room l (Suc h) s \<Longrightarrow> room l h (hold b s)"
  by (auto simp: room_def hold_def card_insert_if)

lemma room_lput: "room (Suc l) h s \<Longrightarrow> room l h (lput b d s)"
  by (auto simp: room_def lput_def log_absorb_eq)

lemma room_mono: "room l h s \<Longrightarrow> l' \<le> l \<Longrightarrow> h' \<le> h \<Longrightarrow> room l' h' s"
  by (auto simp: room_def)

lemma room_lput_again: "room l h s \<Longrightarrow> b \<in> set (ls_lh s) \<Longrightarrow> room l h (lput b d s)"
  by (auto simp: room_def lput_def log_absorb_eq)

lemma lput_in_log [simp]: "set (ls_lh (lput b d s)) = insert b (set (ls_lh s))"
  by (auto simp: lput_def log_absorb_eq)

text \<open>The two idioms of \<^verbatim>\<open>fs.c\<close>: read a block and release it, and change a block.\<close>

definition look :: "nat \<Rightarrow> (block \<Rightarrow> 'a) \<Rightarrow> ('e bstore_scheme, 'a) K" where
  "look b f = bindK (fs_bread ROOTDEV b) (\<lambda>bp. bindK (bdata bp) (\<lambda>d. thenK (brelse_spec bp) (ret (f d))))"

lemma look_ok:
  assumes "room l (Suc h) s" "b \<notin> held s" "b < dsize s"
  shows "look b f s = Inr (f (blk s b), s)"
  using assms by (simp add: look_def fs_bread_def kdefs bread_hold bdata_def brelse_hold)

definition change :: "nat \<Rightarrow> (block \<Rightarrow> block) \<Rightarrow> ('e lstore_scheme, unit) K" where
  "change b f = bindK (fs_bread ROOTDEV b) (\<lambda>bp. bindK (bdata bp) (\<lambda>d.
     thenK (set_bdata bp (f d)) (thenK (log_write_spec bp) (brelse_spec bp))))"

lemma change_ok:
  assumes "room (Suc l) (Suc h) s" "b \<notin> held s" "b < dsize s"
  shows "change b f s = Inr ((), lput b (f (blk s b)) s)"
  using assms log_write_lput[OF room_hold[OF assms(1), of b], of b]
  by (simp add: change_def fs_bread_def kdefs bread_hold bdata_def set_bdata_def lput_hold brelse_hold)

section \<open>The allocator\<close>

lemma bzero_ok:
  assumes "room (Suc l) (Suc h) s" "b \<notin> held s" "b < dsize s"
  shows "bzero ROOTDEV b s = Inr ((), lput b zero_block s)"
  using change_ok[OF assms, of "\<lambda>_. zero_block"]
  by (simp add: change_def bzero_def bdata_def kdefs cong: sum.case_cong prod.case_cong)

lemma readsb_ok:
  assumes "room l (Suc h) s" "1 \<notin> held s" "1 < dsize s"
  shows "readsb ROOTDEV s = Inr (dec_superblock (blk s 1), s)"
  using look_ok[OF assms, of dec_superblock] by (simp add: readsb_def look_def)

text \<open>The bit map of the file system with contents \<open>v\<close>.\<close>

definition used :: "superblock \<Rightarrow> (nat \<Rightarrow> block) \<Rightarrow> nat \<Rightarrow> bool" where
  "used sb v b \<longleftrightarrow> \<not> bit_free (v (BBLOCK b sb)) (b mod BPB)"

definition mark :: "superblock \<Rightarrow> nat \<Rightarrow> 'e lstore_scheme \<Rightarrow> 'e lstore_scheme" where
  "mark sb b s = lput (BBLOCK b sb) (bit_mark (blk s (BBLOCK b sb)) (b mod BPB)) s"

definition unmark :: "superblock \<Rightarrow> nat \<Rightarrow> 'e lstore_scheme \<Rightarrow> 'e lstore_scheme" where
  "unmark sb b s = lput (BBLOCK b sb) (bit_clear (blk s (BBLOCK b sb)) (b mod BPB)) s"

text \<open>The super block describes blocks of the disk, and the bit map blocks are in it.\<close>

definition sb_fits :: "superblock \<Rightarrow> nat \<Rightarrow> bool" where
  "sb_fits sb n \<longleftrightarrow> sb_size sb \<le> n \<and> (\<forall>b < sb_size sb. BBLOCK b sb < sb_size sb)"

definition bitmap :: "superblock \<Rightarrow> nat set" where
  "bitmap sb = (\<lambda>b. BBLOCK b sb) ` {..<sb_size sb}"

lemma bitmap_in: "b < sb_size sb \<Longrightarrow> BBLOCK b sb \<in> bitmap sb"
  by (auto simp: bitmap_def)

lemma find_append: "find P (xs @ ys) = (case find P xs of None \<Rightarrow> find P ys | Some x \<Rightarrow> Some x)"
  by (induction xs) auto

lemma find_map: "find P (map f xs) = map_option f (find (P \<circ> f) xs)"
  by (induction xs) auto

lemma group_mod: "k < BPB \<Longrightarrow> BBLOCK (g * BPB + k) sb = BBLOCK (g * BPB) sb \<and> (g * BPB + k) mod BPB = k"
  by (simp add: BBLOCK_def)

lemma group_find:
  assumes "g * BPB < n"
  shows "find (\<lambda>b. \<not> used sb v b) [g * BPB..<n] =
    (case find (bit_free (v (BBLOCK (g * BPB) sb))) [0..<min BPB (n - g * BPB)] of
       Some bi \<Rightarrow> Some (g * BPB + bi)
     | None \<Rightarrow> find (\<lambda>b. \<not> used sb v b) [Suc g * BPB..<n])"
proof -
  let ?m = "min BPB (n - g * BPB)"
  have split: "[g * BPB..<n] = map (\<lambda>k. g * BPB + k) [0..<?m] @ [Suc g * BPB..<n]"
  proof (cases "BPB \<le> n - g * BPB")
    case True
    then have "[g * BPB..<n] = [g * BPB..<Suc g * BPB] @ [Suc g * BPB..<n]"
      using upt_add_eq_append[of "g * BPB" "Suc g * BPB" "n - Suc g * BPB"] by simp
    moreover have "[g * BPB..<Suc g * BPB] = map (\<lambda>k. g * BPB + k) [0..<BPB]"
      using map_add_upt[of "g * BPB" BPB] by (simp add: add.commute)
    ultimately show ?thesis using True by simp
  next
    case False
    moreover have "[g * BPB..<n] = map (\<lambda>k. g * BPB + k) [0..<n - g * BPB]"
      using map_add_upt[of "g * BPB" "n - g * BPB"] assms by (simp add: add.commute)
    ultimately show ?thesis by simp
  qed
  have "find ((\<lambda>b. \<not> used sb v b) \<circ> (\<lambda>k. g * BPB + k)) [0..<?m] =
      find (bit_free (v (BBLOCK (g * BPB) sb))) [0..<?m]"
    by (rule find_cong) (auto simp: used_def group_mod)
  then show ?thesis
    unfolding split find_append find_map by (auto split: option.splits)
qed

text \<open>\<open>alloc_ready\<close>: what the allocator needs of the state: the bit map can be read, no free
  block's buffer is locked, two blocks can be logged.\<close>

definition alloc_ready :: "nat \<Rightarrow> nat \<Rightarrow> 'e fsst_scheme \<Rightarrow> bool" where
  "alloc_ready l h s \<longleftrightarrow> room l h s \<and> sb_fits (fs_sb s) (dsize s) \<and> held s \<inter> bitmap (fs_sb s) = {} \<and>
     (\<forall>b < sb_size (fs_sb s). \<not> used (fs_sb s) (blk s) b \<longrightarrow> b \<notin> held s)"

definition alloced :: "superblock \<Rightarrow> nat \<Rightarrow> 'e lstore_scheme \<Rightarrow> 'e lstore_scheme" where
  "alloced sb b s = lput b zero_block (mark sb b s)"

lemma find_Some_upt: "find P [a..<n] = Some b \<Longrightarrow> a \<le> b \<and> b < n \<and> P b"
  by (auto simp: find_Some_iff)

lemma balloc_group_ok:
  assumes ready: "alloc_ready (Suc (Suc l)) (Suc h) s" and g: "g * BPB < sb_size (fs_sb s)"
  shows "balloc_group ROOTDEV (g * BPB) s =
    (case find (bit_free (blk s (BBLOCK (g * BPB) (fs_sb s)))) [0..<min BPB (sb_size (fs_sb s) - g * BPB)] of
       Some bi \<Rightarrow> Inr (Some (g * BPB + bi), alloced (fs_sb s) (g * BPB + bi) s)
     | None \<Rightarrow> Inr (None, s))"
proof -
  let ?sb = "fs_sb s" and ?B = "BBLOCK (g * BPB) (fs_sb s)"
  have r: "room (Suc (Suc l)) (Suc h) s" and fits: "sb_fits ?sb (dsize s)"
    using ready by (auto simp: alloc_ready_def)
  have B: "?B \<notin> held s" "?B < dsize s"
    using ready g bitmap_in[OF g] by (auto simp: alloc_ready_def sb_fits_def)
  show ?thesis
  proof (cases "find (bit_free (blk s ?B)) [0..<min BPB (sb_size ?sb - g * BPB)]")
    case None
    then show ?thesis
      using bread_hold[OF r B] B
      by (simp add: balloc_group_def kdefs fs_bread_def bdata_def brelse_hold)
  next
    case (Some bi)
    from find_Some_upt[OF Some] have bi: "bi < BPB" "g * BPB + bi < sb_size ?sb" "bit_free (blk s ?B) bi"
      by auto
    note gm = group_mod[OF bi(1), of g ?sb]
    have "g * BPB + bi \<notin> held s"
      using ready bi gm by (simp add: alloc_ready_def used_def)
    moreover have "g * BPB + bi < dsize s" using bi fits by (simp add: sb_fits_def)
    ultimately have "bzero ROOTDEV (g * BPB + bi) (mark ?sb (g * BPB + bi) s) =
        Inr ((), alloced ?sb (g * BPB + bi) s)"
      unfolding alloced_def
      by (intro bzero_ok) (auto simp: mark_def intro: room_lput[OF r])
    then show ?thesis
      using Some bread_hold[OF r B] B log_write_lput[OF room_hold[OF r, of ?B], of ?B] gm
      by (simp add: balloc_group_def kdefs fs_bread_def bdata_def set_bdata_def lput_hold brelse_hold
          mark_def)
  qed
qed

lemma balloc_loop:
  assumes ready: "alloc_ready (Suc (Suc l)) (Suc h) s"
    and n: "n = (sb_size (fs_sb s) + BPB - 1) div BPB" "g \<le> n"
  shows "forK (map (\<lambda>k. k * BPB) [g..<n]) (balloc_group ROOTDEV) s =
    (case find (\<lambda>b. \<not> used (fs_sb s) (blk s) b) [g * BPB..<sb_size (fs_sb s)] of
       Some b \<Rightarrow> Inr (Some b, alloced (fs_sb s) b s) | None \<Rightarrow> Inr (None, s))"
  using n(2)
proof (induction "n - g" arbitrary: g)
  case 0
  then have "sb_size (fs_sb s) \<le> g * BPB" "[g..<n] = []" using n(1) by auto
  then show ?case by (simp only: upt_conv_Nil) (simp add: kdefs)
next
  case (Suc d)
  then have g: "g < n" "g * BPB < sb_size (fs_sb s)" using n(1) by auto
  have IH: "forK (map (\<lambda>k. k * BPB) [Suc g..<n]) (balloc_group ROOTDEV) s =
    (case find (\<lambda>b. \<not> used (fs_sb s) (blk s) b) [Suc g * BPB..<sb_size (fs_sb s)] of
       Some b \<Rightarrow> Inr (Some b, alloced (fs_sb s) b s) | None \<Rightarrow> Inr (None, s))"
    using Suc g(1) by (intro Suc.hyps(1)) auto
  have "forK (map (\<lambda>k. k * BPB) [g..<n]) (balloc_group ROOTDEV) s =
    bindK (balloc_group ROOTDEV (g * BPB)) (\<lambda>r. case r of
      None \<Rightarrow> forK (map (\<lambda>k. k * BPB) [Suc g..<n]) (balloc_group ROOTDEV)
    | Some v \<Rightarrow> ret (Some v)) s"
    using g(1) by (simp add: upt_rec[of g])
  then show ?case
    unfolding bindK_def balloc_group_ok[OF ready g(2)] group_find[OF g(2)]
    by (simp add: IH ret_def del: mult_Suc split: option.splits)
qed

lemma balloc_ok:
  assumes ready: "alloc_ready (Suc (Suc l)) (Suc h) s"
  shows "balloc ROOTDEV s =
    (case find (\<lambda>b. \<not> used (fs_sb s) (blk s) b) [0..<sb_size (fs_sb s)] of
       Some b \<Rightarrow> Inr (b, alloced (fs_sb s) b s)
     | None \<Rightarrow> Inl (Panic ''balloc: out of blocks''))"
  using balloc_loop[OF ready refl, of 0]
  by (simp add: balloc_def kdefs split: option.splits)

lemma bfree_ok:
  assumes "alloc_ready (Suc l) (Suc h) s" "b < sb_size (fs_sb s)"
  shows "bfree ROOTDEV b s =
    (if used (fs_sb s) (blk s) b then Inr ((), unmark (fs_sb s) b s)
     else Inl (Panic ''freeing free block''))"
proof -
  let ?B = "BBLOCK b (fs_sb s)"
  have r: "room (Suc l) (Suc h) s" and B: "?B \<notin> held s" "?B < dsize s"
    using assms bitmap_in[OF assms(2)] by (auto simp: alloc_ready_def sb_fits_def)
  show ?thesis
    using bread_hold[OF r B] B log_write_lput[OF room_hold[OF r, of ?B], of ?B]
    by (simp add: bfree_def kdefs fs_bread_def bdata_def set_bdata_def lput_hold brelse_hold used_def
        unmark_def)
qed

section \<open>The bit map after an operation\<close>

definition map_wf :: "superblock \<Rightarrow> (nat \<Rightarrow> block) \<Rightarrow> bool" where
  "map_wf sb v \<longleftrightarrow> (\<forall>b \<in> bitmap sb. length (v b) = BSIZE)"

lemma same_bit: "BBLOCK x sb = BBLOCK b sb \<Longrightarrow> x mod BPB = b mod BPB \<longleftrightarrow> x = b"
  by (simp add: BBLOCK_def) (metis div_mod_decomp)

lemma used_mark:
  assumes "map_wf sb (blk s)" "b < sb_size sb"
  shows "used sb (blk (mark sb b s)) x \<longleftrightarrow> used sb (blk s) x \<or> x = b"
proof (cases "BBLOCK x sb = BBLOCK b sb")
  case True
  have "b mod BPB < 8 * length (blk s (BBLOCK b sb))"
    using assms bitmap_in[OF assms(2)] by (simp add: map_wf_def)
  with True same_bit[OF True] show ?thesis
    by (auto simp: used_def mark_def bit_mark_free)
qed (auto simp: used_def mark_def)

lemma used_unmark:
  assumes "map_wf sb (blk s)" "b < sb_size sb"
  shows "used sb (blk (unmark sb b s)) x \<longleftrightarrow> used sb (blk s) x \<and> x \<noteq> b"
proof (cases "BBLOCK x sb = BBLOCK b sb")
  case True
  have "b mod BPB < 8 * length (blk s (BBLOCK b sb))"
    using assms bitmap_in[OF assms(2)] by (simp add: map_wf_def)
  with True same_bit[OF True] show ?thesis
    by (auto simp: used_def unmark_def bit_clear_free)
qed (auto simp: used_def unmark_def)

lemma used_lput_other: "b \<notin> bitmap sb \<Longrightarrow> x < sb_size sb \<Longrightarrow> used sb (v(b := d)) x = used sb v x"
  by (auto simp: used_def bitmap_in)

text \<open>In a file system whose bit map marks its own blocks as used, allocation takes a free
  block that is not a bit map block.\<close>

lemma alloced_ok:
  assumes wf: "map_wf sb (blk s)" and own: "\<forall>x \<in> bitmap sb. used sb (blk s) x"
    and b: "b < sb_size sb" "\<not> used sb (blk s) b"
  shows "b \<notin> bitmap sb" "blk (alloced sb b s) b = zero_block"
    "x < sb_size sb \<Longrightarrow> used sb (blk (alloced sb b s)) x \<longleftrightarrow> used sb (blk s) x \<or> x = b"
    "y \<notin> bitmap sb \<Longrightarrow> y \<noteq> b \<Longrightarrow> blk (alloced sb b s) y = blk s y"
    "map_wf sb (blk (alloced sb b s))"
proof -
  show nb: "b \<notin> bitmap sb" using own b by auto
  show "blk (alloced sb b s) b = zero_block" by (simp add: alloced_def)
  show "x < sb_size sb \<Longrightarrow> used sb (blk (alloced sb b s)) x \<longleftrightarrow> used sb (blk s) x \<or> x = b"
    using used_lput_other[OF nb] used_mark[OF wf b(1)] by (simp add: alloced_def)
  show "y \<notin> bitmap sb \<Longrightarrow> y \<noteq> b \<Longrightarrow> blk (alloced sb b s) y = blk s y"
    using bitmap_in[OF b(1)] by (auto simp: alloced_def mark_def)
  show "map_wf sb (blk (alloced sb b s))"
    using wf nb bitmap_in[OF b(1)] by (auto simp: map_wf_def alloced_def mark_def)
qed

end
