(* ===== verification/Proctab.thy ===== *)
theory Proctab
  imports Xv6_Prelude
begin

text \<open>
  The process structure (\<^verbatim>\<open>struct proc\<close> of \<^verbatim>\<open>proc.h\<close>, \<^verbatim>\<open>struct trapframe\<close> of \<^verbatim>\<open>x86.h\<close>). Pointers
  to processes, files and inodes are indices of the tables they point into, with \<open>None\<close> for the
  null pointer; the trap frame, which the code keeps on the kernel stack, is a value. The
  addresses processes sleep on are a data type of their own.
\<close>

datatype procstate = UNUSED | EMBRYO | SLEEPING | RUNNABLE | RUNNING | ZOMBIE

record trapframe =
  tf_edi :: nat
  tf_esi :: nat
  tf_ebp :: nat
  tf_oesp :: nat
  tf_ebx :: nat
  tf_edx :: nat
  tf_ecx :: nat
  tf_eax :: nat
  tf_gs :: nat
  tf_fs :: nat
  tf_es :: nat
  tf_ds :: nat
  tf_trapno :: nat
  tf_err :: nat
  tf_eip :: nat
  tf_cs :: nat
  tf_eflags :: nat
  tf_esp :: nat
  tf_ss :: nat

datatype channel =
    Chan_proc nat | Chan_ticks | Chan_nread nat | Chan_nwrite nat | Chan_buf nat | Chan_log
  | Chan_inode nat | Chan_input

text \<open>Where the kernel thread of a process goes on: \<open>forkret\<close> for a new process, otherwise
  after the call of \<^verbatim>\<open>swtch\<close> in \<^verbatim>\<open>sched\<close>; \<open>p_ebp\<close> is the frame pointer saved there.\<close>

datatype kcontext = Ctx_none | Ctx_forkret | Ctx_sched

record proc =
  p_sz :: nat
  p_pgdir :: nat
  p_kstack :: nat
  p_state :: procstate
  p_pid :: int
  p_parent :: "nat option"
  p_tf :: trapframe
  p_context :: kcontext
  p_ebp :: nat
  p_chan :: "channel option"
  p_killed :: bool
  p_ofile :: "nat option list"
  p_cwd :: "nat option"
  p_name :: "u8 list"
  p_pStartTime :: nat
  p_pEndTime :: nat
  p_pUptime :: nat
  p_priority :: int

abbreviation NPROC :: nat where "NPROC \<equiv> 64"
abbreviation NOFILE :: nat where "NOFILE \<equiv> 16"

definition zero_tf :: trapframe where
  "zero_tf = \<lparr>tf_edi = 0, tf_esi = 0, tf_ebp = 0, tf_oesp = 0, tf_ebx = 0, tf_edx = 0, tf_ecx = 0,
     tf_eax = 0, tf_gs = 0, tf_fs = 0, tf_es = 0, tf_ds = 0, tf_trapno = 0, tf_err = 0, tf_eip = 0,
     tf_cs = 0, tf_eflags = 0, tf_esp = 0, tf_ss = 0\<rparr>"

definition zero_proc :: proc where
  "zero_proc = \<lparr>p_sz = 0, p_pgdir = 0, p_kstack = 0, p_state = UNUSED, p_pid = 0, p_parent = None,
     p_tf = zero_tf, p_context = Ctx_none, p_ebp = 0, p_chan = None, p_killed = False,
     p_ofile = replicate NOFILE None, p_cwd = None, p_name = replicate 16 0, p_pStartTime = 0,
     p_pEndTime = 0, p_pUptime = 0, p_priority = 0\<rparr>"

section \<open>Wakeup\<close>

text \<open>\<^verbatim>\<open>wakeup1\<close> makes every process sleeping on the channel runnable; \<^verbatim>\<open>wakeup\<close> is the same under the
  lock of the process table. \<open>None\<close> is the null pointer.\<close>

definition wake :: "channel option \<Rightarrow> proc \<Rightarrow> proc" where
  "wake chan p = (if p_state p = SLEEPING \<and> p_chan p = chan then p\<lparr>p_state := RUNNABLE\<rparr> else p)"

definition wakeup1 :: "channel option \<Rightarrow> proc list \<Rightarrow> proc list" where
  "wakeup1 chan ps = map (wake chan) ps"

lemma length_wakeup1 [simp]: "length (wakeup1 chan ps) = length ps"
  by (simp add: wakeup1_def)

lemma nth_wakeup1 [simp]: "i < length ps \<Longrightarrow> wakeup1 chan ps ! i = wake chan (ps ! i)"
  by (simp add: wakeup1_def)

lemma wake_fields [simp]:
  "p_pid (wake c p) = p_pid p" "p_killed (wake c p) = p_killed p" "p_ofile (wake c p) = p_ofile p"
  "p_cwd (wake c p) = p_cwd p" "p_parent (wake c p) = p_parent p" "p_sz (wake c p) = p_sz p"
  "p_pgdir (wake c p) = p_pgdir p" "p_tf (wake c p) = p_tf p" "p_kstack (wake c p) = p_kstack p"
  "p_chan (wake c p) = p_chan p" "p_priority (wake c p) = p_priority p" "p_name (wake c p) = p_name p"
  by (simp_all add: wake_def)

lemma wake_running: "p_state p \<noteq> SLEEPING \<Longrightarrow> wake c p = p"
  by (simp add: wake_def)

end
