(* ===== verification/Inode.thy ===== *)
theory Inode
  imports Balloc Proctab
begin

text \<open>
  Inodes (\<^verbatim>\<open>fs.c\<close>, \<^verbatim>\<open>file.h\<close>): the inode cache with its reference counts and locks, the
  on-disk inodes, truncation, and the console's device functions, which unlock and lock the
  inode they are called with. A \<^verbatim>\<open>struct inode\<close> pointer is an index of the cache; where the
  code checks or may be given a null pointer it is an option. The critical sections of
  \<^verbatim>\<open>icache.lock\<close> are atomic here.
\<close>

section \<open>State\<close>

record extent =
  e_length :: nat
  e_start :: nat

record inode =
  i_dev :: nat
  i_inum :: nat
  i_ref :: int
  i_lock :: sleeplock
  i_valid :: bool
  i_type :: int
  i_major :: int
  i_minor :: int
  i_nlink :: int
  i_size :: nat
  i_addrs :: "nat list"
  i_extentz :: "extent list"
  i_numExtents :: nat
  i_sisterblocks :: int
  i_eOffset :: int
  i_lOffset :: int

datatype devfn = Consoleread | Consolewrite

record devsw_entry =
  dev_read :: "devfn option"
  dev_write :: "devfn option"

record icst = fsst +
  ptable :: "proc list"
  curproc :: nat
  ticks :: nat
  icache :: "inode list"
  devsw :: "devsw_entry list"

text \<open>The process table is part of this state because the code asks who is running: \<open>curproc\<close>
  is the index of \<^verbatim>\<open>myproc()\<close>.\<close>

abbreviation myproc :: "'e icst_scheme \<Rightarrow> proc" where "myproc s \<equiv> ptable s ! curproc s"
abbreviation fs_pid :: "'e icst_scheme \<Rightarrow> int" where "fs_pid s \<equiv> p_pid (myproc s)"
abbreviation fs_killed :: "'e icst_scheme \<Rightarrow> bool" where "fs_killed s \<equiv> p_killed (myproc s)"

definition upd_ino :: "nat \<Rightarrow> (inode \<Rightarrow> inode) \<Rightarrow> 'e icst_scheme \<Rightarrow> 'e icst_scheme" where
  "upd_ino ip f s = s\<lparr>icache := (icache s)[ip := f (icache s ! ip)]\<rparr>"

definition getI :: "nat \<Rightarrow> (inode \<Rightarrow> 'a) \<Rightarrow> ('e icst_scheme, 'a) K" where
  "getI ip g = getK (\<lambda>s. g (icache s ! ip))"

definition setI :: "nat \<Rightarrow> (inode \<Rightarrow> inode) \<Rightarrow> ('e icst_scheme, unit) K" where
  "setI ip f = modK (upd_ino ip f)"

section \<open>The cache\<close>

definition text_of :: "string \<Rightarrow> nat list" where
  "text_of cs = map of_char cs"

definition iinit :: "nat \<Rightarrow> ('e icst_scheme, unit) K" where
  "iinit dev =
     thenK (modK (\<lambda>s. s\<lparr>icache := map (\<lambda>i. i\<lparr>i_lock := initsleeplock\<rparr>) (icache s)\<rparr>))
     (bindK (readsb dev) (\<lambda>sb.
     thenK (modK (\<lambda>s. s\<lparr>fs_sb := sb\<rparr>))
     (cprintf (text_of ''sb: size %d nblocks %d ninodes %d nlog %d logstart %d inodestart %d bmap start %d'' @ [newline])
       [Num (int (sb_size sb)), Num (int (sb_nblocks sb)), Num (int (sb_ninodes sb)), Num (int (sb_nlog sb)),
        Num (int (sb_logstart sb)), Num (int (sb_inodestart sb)), Num (int (sb_bmapstart sb))])))"

definition iget :: "nat \<Rightarrow> nat \<Rightarrow> ('e icst_scheme, nat) K" where
  "iget dev inum s =
     (let slot = (\<lambda>i. icache s ! i) in
      case find (\<lambda>i. i_ref (slot i) > 0 \<and> i_dev (slot i) = dev \<and> i_inum (slot i) = inum) [0..<NINODE] of
        Some ip \<Rightarrow> Inr (ip, upd_ino ip (\<lambda>i. i\<lparr>i_ref := i_ref i + 1\<rparr>) s)
      | None \<Rightarrow>
          (case find (\<lambda>i. i_ref (slot i) = 0) [0..<NINODE] of
             None \<Rightarrow> Inl (Panic ''iget: no inodes'')
           | Some ip \<Rightarrow>
               Inr (ip, upd_ino ip (\<lambda>i. i\<lparr>i_dev := dev, i_inum := inum, i_ref := 1, i_valid := False\<rparr>) s)))"

definition idup :: "nat \<Rightarrow> ('e icst_scheme, nat) K" where
  "idup ip = thenK (setI ip (\<lambda>i. i\<lparr>i_ref := i_ref i + 1\<rparr>)) (ret ip)"

definition lock_ino :: "nat \<Rightarrow> ('e icst_scheme, unit) K" where
  "lock_ino ip s =
     (case acquiresleep ''inode'' (fs_pid s) (i_lock (icache s ! ip)) of
        Inl e \<Rightarrow> Inl e
      | Inr lk \<Rightarrow> Inr ((), upd_ino ip (\<lambda>i. i\<lparr>i_lock := lk\<rparr>) s))"

definition load_dinode :: "dinode \<Rightarrow> inode \<Rightarrow> inode" where
  "load_dinode d i = i\<lparr>i_type := d_type d, i_major := d_major d, i_minor := d_minor d,
     i_nlink := d_nlink d, i_size := d_size d, i_addrs := d_addrs d\<rparr>"

definition ilock :: "nat option \<Rightarrow> ('e icst_scheme, unit) K" where
  "ilock p =
     (case p of None \<Rightarrow> panic ''ilock'' | Some ip \<Rightarrow>
      bindK (getI ip i_ref) (\<lambda>r.
      if r < 1 then panic ''ilock''
      else
        thenK (lock_ino ip)
        (bindK (getI ip i_valid) (\<lambda>v.
        whenK (\<not> v)
          (bindK (getK (\<lambda>s. (i_dev (icache s ! ip), i_inum (icache s ! ip), fs_sb s))) (\<lambda>(dev, inum, sb).
          bindK (fs_bread dev (IBLOCK inum sb)) (\<lambda>bp.
          bindK (bdata bp) (\<lambda>d.
          thenK (setI ip (load_dinode (get_dinode d (inum mod IPB))))
          (thenK (brelse_spec bp)
          (thenK (setI ip (\<lambda>i. i\<lparr>i_valid := True\<rparr>))
          (bindK (getI ip i_type) (\<lambda>ty.
          if ty = 0 then panic ''ilock: no type'' else ret ()))))))))))))"

definition iunlock :: "nat option \<Rightarrow> ('e icst_scheme, unit) K" where
  "iunlock p =
     (case p of None \<Rightarrow> panic ''iunlock'' | Some ip \<Rightarrow>
      bindK (getK (\<lambda>s. holdingsleep (fs_pid s) (i_lock (icache s ! ip)) \<and> \<not> i_ref (icache s ! ip) < 1)) (\<lambda>ok.
      if ok then setI ip (\<lambda>i. i\<lparr>i_lock := releasesleep (i_lock i)\<rparr>)
      else panic ''iunlock''))"

definition dinode_of :: "inode \<Rightarrow> dinode" where
  "dinode_of i = \<lparr>d_type = i_type i, d_major = i_major i, d_minor = i_minor i, d_nlink = i_nlink i,
     d_size = i_size i, d_addrs = i_addrs i\<rparr>"

definition iupdate :: "nat \<Rightarrow> ('e icst_scheme, unit) K" where
  "iupdate ip =
     bindK (getK (\<lambda>s. (icache s ! ip, fs_sb s))) (\<lambda>(i, sb).
     bindK (fs_bread (i_dev i) (IBLOCK (i_inum i) sb)) (\<lambda>bp.
     bindK (bdata bp) (\<lambda>d.
     thenK (set_bdata bp (put_dinode d (i_inum i mod IPB) (dinode_of i)))
     (thenK (log_write_spec bp)
     (brelse_spec bp)))))"

definition ialloc_one :: "nat \<Rightarrow> int \<Rightarrow> nat \<Rightarrow> ('e icst_scheme, nat option) K" where
  "ialloc_one dev ty inum =
     bindK (getK fs_sb) (\<lambda>sb.
     bindK (fs_bread dev (IBLOCK inum sb)) (\<lambda>bp.
     bindK (bdata bp) (\<lambda>d.
     if d_type (get_dinode d (inum mod IPB)) = 0 then
       thenK (set_bdata bp (put_dinode d (inum mod IPB) (zero_dinode\<lparr>d_type := ty\<rparr>)))
       (thenK (log_write_spec bp)
       (thenK (brelse_spec bp)
       (bindK (iget dev inum) (\<lambda>ip. ret (Some ip)))))
     else thenK (brelse_spec bp) (ret None))))"

definition ialloc :: "nat \<Rightarrow> int \<Rightarrow> ('e icst_scheme, nat) K" where
  "ialloc dev ty =
     bindK (getK fs_sb) (\<lambda>sb.
     bindK (forK [1..<sb_ninodes sb] (ialloc_one dev ty)) (\<lambda>r.
     case r of Some ip \<Rightarrow> ret ip | None \<Rightarrow> panic ''ialloc: no inodes''))"

section \<open>Truncation and release\<close>

definition trunc_direct :: "nat \<Rightarrow> nat \<Rightarrow> ('e icst_scheme, unit option) K" where
  "trunc_direct ip i =
     bindK (getI ip (\<lambda>n. (i_dev n, i_addrs n ! i))) (\<lambda>(dev, a).
     thenK (whenK (a \<noteq> 0)
       (thenK (bfree dev a) (setI ip (\<lambda>n. n\<lparr>i_addrs := (i_addrs n)[i := 0]\<rparr>))))
     (ret None))"

definition trunc_entry :: "nat \<Rightarrow> nat \<Rightarrow> nat \<Rightarrow> ('e icst_scheme, unit option) K" where
  "trunc_entry dev bp j =
     bindK (bdata bp) (\<lambda>d.
     thenK (whenK (get_u32 d j \<noteq> 0) (bfree dev (get_u32 d j)))
     (ret None))"

definition itrunc :: "nat \<Rightarrow> ('e icst_scheme, unit) K" where
  "itrunc ip =
     bindK (forK [0..<NDIRECT] (trunc_direct ip)) (\<lambda>_.
     bindK (getI ip (\<lambda>n. (i_dev n, i_addrs n ! NDIRECT))) (\<lambda>(dev, a).
     thenK (whenK (a \<noteq> 0)
       (bindK (fs_bread dev a) (\<lambda>bp.
        bindK (forK [0..<NINDIRECT] (trunc_entry dev bp)) (\<lambda>_.
        thenK (brelse_spec bp)
        (thenK (bfree dev a)
        (setI ip (\<lambda>n. n\<lparr>i_addrs := (i_addrs n)[NDIRECT := 0]\<rparr>)))))))
     (thenK (setI ip (\<lambda>n. n\<lparr>i_size := 0\<rparr>))
     (iupdate ip))))"

definition iput :: "nat \<Rightarrow> ('e icst_scheme, unit) K" where
  "iput ip =
     thenK (lock_ino ip)
     (bindK (getI ip (\<lambda>n. i_valid n \<and> i_nlink n = 0)) (\<lambda>dead.
     thenK (whenK dead
       (bindK (getI ip i_ref) (\<lambda>r.
        whenK (r = 1)
          (thenK (itrunc ip)
          (thenK (setI ip (\<lambda>n. n\<lparr>i_type := 0\<rparr>))
          (thenK (iupdate ip)
          (setI ip (\<lambda>n. n\<lparr>i_valid := False\<rparr>))))))))
     (thenK (setI ip (\<lambda>n. n\<lparr>i_lock := releasesleep (i_lock n)\<rparr>))
     (setI ip (\<lambda>n. n\<lparr>i_ref := i_ref n - 1\<rparr>)))))"

definition iunlockput :: "nat option \<Rightarrow> ('e icst_scheme, unit) K" where
  "iunlockput p =
     thenK (iunlock p)
     (case p of None \<Rightarrow> stopK (Fault ''null inode'') | Some ip \<Rightarrow> iput ip)"

section \<open>The console device\<close>

text \<open>The reading loop: whether the process was killed while there was nothing to read, and the
  characters stored at \<^verbatim>\<open>dst\<close>.\<close>

fun cons_fetch :: "nat \<Rightarrow> bool \<Rightarrow> ('e icst_scheme, bool \<times> nat list) K" where
  "cons_fetch 0 first s = Inr ((False, []), s)"
| "cons_fetch (Suc n) first s =
     (if in_r s = in_w s then
        if fs_killed s then Inr ((True, []), s) else Inl (Sleeps ''input'')
      else
        let c = in_at s (in_r s); s1 = s\<lparr>in_r := in_r s + 1\<rparr> in
        if c = ctrl_D then Inr ((False, []), if first then s1 else s)
        else if c = newline then Inr ((False, [c]), s1)
        else case cons_fetch n False s1 of
               Inl e \<Rightarrow> Inl e
             | Inr ((killed, cs), s2) \<Rightarrow> Inr ((killed, c # cs), s2))"

definition consoleread :: "nat \<Rightarrow> int \<Rightarrow> ('e icst_scheme, int \<times> nat list) K" where
  "consoleread ip n =
     thenK (iunlock (Some ip))
     (bindK (cons_fetch (nat n) True) (\<lambda>(killed, cs).
     thenK (ilock (Some ip))
     (ret (if killed then -1 else int (length cs), cs))))"

definition consolewrite :: "nat \<Rightarrow> nat list \<Rightarrow> int \<Rightarrow> ('e icst_scheme, int) K" where
  "consolewrite ip buf n =
     thenK (iunlock (Some ip))
     (thenK (consputs (map (\<lambda>c. c mod 256) (take (nat n) buf)))
     (thenK (ilock (Some ip))
     (ret n)))"

definition consoleinit :: "('e icst_scheme, unit) K" where
  "consoleinit = modK (\<lambda>s. s\<lparr>devsw := (devsw s)[1 := \<lparr>dev_read = Some Consoleread,
     dev_write = Some Consolewrite\<rparr>]\<rparr>)"

section \<open>Single operations\<close>

lemma icache_upd_ino [simp]: "icache (upd_ino ip f s) = (icache s)[ip := f (icache s ! ip)]"
  by (simp add: upd_ino_def)

lemma upd_ino_fields [simp]:
  "blk (upd_ino ip f s) = blk s" "held (upd_ino ip f s) = held s" "dsize (upd_ino ip f s) = dsize s"
  "ls_lh (upd_ino ip f s) = ls_lh s" "fs_sb (upd_ino ip f s) = fs_sb s" "ptable (upd_ino ip f s) = ptable s"
  "dirty (upd_ino ip f s) = dirty s" "ls_size (upd_ino ip f s) = ls_size s"
  "ls_outstanding (upd_ino ip f s) = ls_outstanding s" "devsw (upd_ino ip f s) = devsw s"
  "curproc (upd_ino ip f s) = curproc s" "ticks (upd_ino ip f s) = ticks s"
  by (simp_all add: upd_ino_def)

lemma hold_ifields [simp]: "icache (hold b s) = icache s" "ptable (hold b s) = ptable s" "curproc (hold b s) = curproc s"
  by (simp_all add: hold_def)

lemma lput_ifields [simp]:
  "icache (lput b d s) = icache s" "ptable (lput b d s) = ptable s" "curproc (lput b d s) = curproc s" "devsw (lput b d s) = devsw s"
  by (simp_all add: lput_def)

lemma room_upd_ino [simp]: "room l h (upd_ino ip f s) = room l h s"
  by (simp add: room_def)

lemma upd_ino_hold: "upd_ino ip f (hold b s) = hold b (upd_ino ip f s)"
  by (simp add: upd_ino_def hold_def)

lemma upd_ino_lput: "upd_ino ip f (lput b d s) = lput b d (upd_ino ip f s)"
  by (simp add: upd_ino_def lput_def)

lemma upd_ino_twice:
  "ip < length (icache s) \<Longrightarrow> upd_ino ip f (upd_ino ip g s) = upd_ino ip (f \<circ> g) s"
  by (simp add: upd_ino_def)

lemma upd_ino_cong:
  "f (icache s ! ip) = g (icache s ! ip) \<Longrightarrow> upd_ino ip f s = upd_ino ip g s"
  by (simp add: upd_ino_def)

lemma upd_ino_id: "f (icache s ! ip) = icache s ! ip \<Longrightarrow> upd_ino ip f s = s"
  by (simp add: upd_ino_def)

definition disk_dinode :: "superblock \<Rightarrow> (nat \<Rightarrow> block) \<Rightarrow> nat \<Rightarrow> dinode" where
  "disk_dinode sb v inum = get_dinode (v (IBLOCK inum sb)) (inum mod IPB)"

text \<open>The block of inode \<open>inum\<close> can be read.\<close>

definition ino_readable :: "nat \<Rightarrow> 'e fsst_scheme \<Rightarrow> bool" where
  "ino_readable inum s \<longleftrightarrow> IBLOCK inum (fs_sb s) \<notin> held s \<and> IBLOCK inum (fs_sb s) < dsize s"

definition taken :: "int \<Rightarrow> inode \<Rightarrow> inode" where
  "taken pid i = i\<lparr>i_lock := \<lparr>sl_locked = True, sl_pid = pid\<rparr>\<rparr>"

lemma lock_ino_free:
  "\<not> sl_locked (i_lock (icache s ! ip)) \<Longrightarrow> lock_ino ip s = Inr ((), upd_ino ip (taken (fs_pid s)) s)"
  by (simp add: lock_ino_def acquiresleep_def) (rule upd_ino_cong, simp add: taken_def)

lemma ilock_cached:
  assumes "ip < length (icache s)" "1 \<le> i_ref (icache s ! ip)" "\<not> sl_locked (i_lock (icache s ! ip))"
    "i_valid (icache s ! ip)"
  shows "ilock (Some ip) s = Inr ((), upd_ino ip (taken (fs_pid s)) s)"
  using assms by (simp add: ilock_def kdefs getI_def lock_ino_free) (simp add: taken_def)

lemma ilock_load:
  assumes ip: "ip < length (icache s)" "1 \<le> i_ref (icache s ! ip)" "\<not> sl_locked (i_lock (icache s ! ip))"
    and inv: "\<not> i_valid (icache s ! ip)" "i_dev (icache s ! ip) = ROOTDEV"
    and r: "room l (Suc h) s" "ino_readable (i_inum (icache s ! ip)) s"
    and d: "d = disk_dinode (fs_sb s) (blk s) (i_inum (icache s ! ip))"
  shows "ilock (Some ip) s =
    (if d_type d = 0 then Inl (Panic ''ilock: no type'')
     else Inr ((), upd_ino ip (\<lambda>i. (load_dinode d (taken (fs_pid s) i))\<lparr>i_valid := True\<rparr>) s))"
proof -
  let ?i = "icache s ! ip" and ?s = "upd_ino ip (taken (fs_pid s)) s"
  let ?b = "IBLOCK (i_inum ?i) (fs_sb s)"
  have "bread_spec ?b ?s = Inr (?b, hold ?b ?s)"
    using r by (intro bread_hold[of l h]) (auto simp: ino_readable_def)
  moreover have "?b \<notin> held s" using r(2) by (simp add: ino_readable_def)
  ultimately show ?thesis
    using ip inv
    by (simp add: ilock_def kdefs getI_def lock_ino_free fs_bread_def bdata_def setI_def upd_ino_hold
        brelse_hold d disk_dinode_def taken_def load_dinode_def upd_ino_twice o_def)
qed

lemma iunlock_ok:
  assumes "ip < length (icache s)" "holdingsleep (fs_pid s) (i_lock (icache s ! ip))" "1 \<le> i_ref (icache s ! ip)"
  shows "iunlock (Some ip) s = Inr ((), upd_ino ip (\<lambda>i. i\<lparr>i_lock := initsleeplock\<rparr>) s)"
  using assms by (simp add: iunlock_def kdefs setI_def initsleeplock_def releasesleep_def)

definition flushed :: "nat \<Rightarrow> 'e icst_scheme \<Rightarrow> 'e icst_scheme" where
  "flushed ip s = (let i = icache s ! ip; b = IBLOCK (i_inum i) (fs_sb s)
     in lput b (put_dinode (blk s b) (i_inum i mod IPB) (dinode_of i)) s)"

lemma iupdate_ok:
  assumes "room (Suc l) (Suc h) s" "i_dev (icache s ! ip) = ROOTDEV" "ino_readable (i_inum (icache s ! ip)) s"
  shows "iupdate ip s = Inr ((), flushed ip s)"
  using change_ok[OF assms(1), of "IBLOCK (i_inum (icache s ! ip)) (fs_sb s)"
      "\<lambda>d. put_dinode d (i_inum (icache s ! ip) mod IPB) (dinode_of (icache s ! ip))"] assms(2,3)
  by (simp add: iupdate_def kdefs change_def flushed_def Let_def ino_readable_def)

lemma disk_put_dinode:
  assumes "length (v (IBLOCK k sb)) = BSIZE" "dinode_ok d"
  shows "disk_dinode sb (v(IBLOCK k sb := put_dinode (v (IBLOCK k sb)) (k mod IPB) d)) j =
    (if j = k then d else disk_dinode sb v j)"
proof -
  have len: "length (d_addrs d) = 13" using assms(2) by (simp add: dinode_ok_def)
  have k: "k mod IPB < IPB" "j mod IPB < IPB" by simp_all
  show ?thesis
  proof (cases "IBLOCK j sb = IBLOCK k sb")
    case True
    then have "j div IPB = k div IPB" by (simp add: IBLOCK_def)
    then have eq: "j mod IPB = k mod IPB \<longleftrightarrow> j = k" by (metis div_mod_decomp)
    show ?thesis
    proof (cases "j = k")
      case True
      with assms k show ?thesis by (simp add: disk_dinode_def)
    next
      case False
      with eq have "j mod IPB \<noteq> k mod IPB" by blast
      with get_put_dinode_other[OF assms(1) k this len] False True show ?thesis
        by (simp add: disk_dinode_def)
    qed
  next
    case False
    then have "j \<noteq> k" by auto
    with False show ?thesis by (simp add: disk_dinode_def)
  qed
qed

lemma disk_flushed:
  assumes "length (blk s (IBLOCK (i_inum (icache s ! ip)) (fs_sb s))) = BSIZE"
    "dinode_ok (dinode_of (icache s ! ip))"
  shows "disk_dinode (fs_sb s) (blk (flushed ip s)) j =
    (if j = i_inum (icache s ! ip) then dinode_of (icache s ! ip) else disk_dinode (fs_sb s) (blk s) j)"
  using disk_put_dinode[of "blk s" "i_inum (icache s ! ip)" "fs_sb s", OF assms]
  by (simp add: flushed_def Let_def)

lemma load_dinode_of [simp]: "load_dinode (dinode_of i) i = i"
  by (simp add: load_dinode_def dinode_of_def)

lemma dinode_of_load [simp]: "dinode_of (load_dinode d i) = d"
  by (simp add: load_dinode_def dinode_of_def)

section \<open>Reference counts\<close>

definition icache_ok :: "'e icst_scheme \<Rightarrow> bool" where
  "icache_ok s \<longleftrightarrow> length (icache s) = NINODE \<and> (\<forall>i < NINODE. 0 \<le> i_ref (icache s ! i)) \<and>
     (\<forall>i < NINODE. \<forall>j < NINODE. 0 < i_ref (icache s ! i) \<and> 0 < i_ref (icache s ! j) \<and>
        i_dev (icache s ! i) = i_dev (icache s ! j) \<and> i_inum (icache s ! i) = i_inum (icache s ! j)
        \<longrightarrow> i = j)"

lemma icache_ok_upd:
  assumes ok: "icache_ok s"
    and f: "i_dev (f (icache s ! ip)) = i_dev (icache s ! ip)" "i_inum (f (icache s ! ip)) = i_inum (icache s ! ip)"
      "0 \<le> i_ref (f (icache s ! ip))" "0 < i_ref (f (icache s ! ip)) \<Longrightarrow> 0 < i_ref (icache s ! ip)"
  shows "icache_ok (upd_ino ip f s)"
proof (cases "ip < NINODE")
  case True
  show ?thesis unfolding icache_ok_def
  proof (intro conjI allI impI)
    fix i j assume ij: "i < NINODE" "j < NINODE" and h: "0 < i_ref (icache (upd_ino ip f s) ! i) \<and>
      0 < i_ref (icache (upd_ino ip f s) ! j) \<and>
      i_dev (icache (upd_ino ip f s) ! i) = i_dev (icache (upd_ino ip f s) ! j) \<and>
      i_inum (icache (upd_ino ip f s) ! i) = i_inum (icache (upd_ino ip f s) ! j)"
    have u: "0 < i_ref (icache s ! i) \<and> 0 < i_ref (icache s ! j) \<and> i_dev (icache s ! i) = i_dev (icache s ! j) \<and>
        i_inum (icache s ! i) = i_inum (icache s ! j) \<Longrightarrow> i = j"
      using ok ij unfolding icache_ok_def by blast
    show "i = j"
      using h f True ok by (intro u, cases "i = ip"; cases "j = ip") (auto simp: icache_ok_def)
  qed (use ok f True in \<open>auto simp: icache_ok_def nth_list_update\<close>)
next
  case False
  with ok show ?thesis by (simp add: upd_ino_def icache_ok_def)
qed

lemma iget_cases:
  assumes ok: "icache_ok s" and r: "iget dev inum s = Inr (ip, t)"
  shows "ip < NINODE" "icache_ok t" "i_ref (icache t ! ip) = i_ref (icache s ! ip) + 1"
    "i_dev (icache t ! ip) = dev" "i_inum (icache t ! ip) = inum"
    "\<exists>f. t = upd_ino ip f s"
proof -
  let ?c = "icache s"
  let ?P = "\<lambda>i. i_ref (?c ! i) > 0 \<and> i_dev (?c ! i) = dev \<and> i_inum (?c ! i) = inum"
  have "ip < NINODE \<and> icache_ok t \<and> i_ref (icache t ! ip) = i_ref (?c ! ip) + 1 \<and>
    i_dev (icache t ! ip) = dev \<and> i_inum (icache t ! ip) = inum \<and> (\<exists>f. t = upd_ino ip f s)"
  proof (cases "find ?P [0..<NINODE]")
    case (Some k)
    from find_Some_upt[OF Some] have k: "k < NINODE" "?P k" by auto
    have t: "k = ip" "t = upd_ino k (\<lambda>i. i\<lparr>i_ref := i_ref i + 1\<rparr>) s"
      using r Some by (auto simp: iget_def)
    have "icache_ok t" unfolding t(2) by (rule icache_ok_upd[OF ok]) (use k in simp_all)
    moreover have "length (icache s) = NINODE" using ok by (simp add: icache_ok_def)
    ultimately show ?thesis using k unfolding t(2) t(1)[symmetric] by auto
  next
    case None
    with r obtain "find (\<lambda>i. i_ref (?c ! i) = 0) [0..<NINODE] = Some ip"
      and t: "t = upd_ino ip (\<lambda>i. i\<lparr>i_dev := dev, i_inum := inum, i_ref := 1, i_valid := False\<rparr>) s"
      by (auto simp: iget_def split: option.splits)
    from find_Some_upt[OF this(1)] have ip: "ip < NINODE" "i_ref (?c ! ip) = 0" by auto
    have none: "\<not> ?P i" if "i < NINODE" for i using None that by (auto simp: find_None_iff)
    have "icache_ok t"
      unfolding icache_ok_def
    proof (intro conjI allI impI)
      fix i j assume "i < NINODE" "j < NINODE" "0 < i_ref (icache t ! i) \<and> 0 < i_ref (icache t ! j) \<and>
        i_dev (icache t ! i) = i_dev (icache t ! j) \<and> i_inum (icache t ! i) = i_inum (icache t ! j)"
      then show "i = j"
        using none[of i] none[of j] ok ip t
        by (cases "i = ip"; cases "j = ip") (auto simp: icache_ok_def)
    qed (use ok ip t in \<open>auto simp: icache_ok_def nth_list_update\<close>)
    moreover have "length (icache s) = NINODE" using ok by (simp add: icache_ok_def)
    ultimately show ?thesis using ip unfolding t by auto
  qed
  then show "ip < NINODE" "icache_ok t" "i_ref (icache t ! ip) = i_ref (icache s ! ip) + 1"
    "i_dev (icache t ! ip) = dev" "i_inum (icache t ! ip) = inum"
    "\<exists>f. t = upd_ino ip f s"
    by auto
qed

end
