(* ===== verification/Bmap.thy ===== *)
theory Bmap
  imports Inode
begin

text \<open>
  The block map of a file (\<^verbatim>\<open>bmap\<close> of \<^verbatim>\<open>fs.c\<close>): 11 direct blocks, one indirect block, one double
  indirect block. The theory gives the tree of addresses of an inode as a function of
  positions, shows what one allocation does to it, and that \<^verbatim>\<open>bmap\<close> returns the address at the
  position of the block, allocating what is missing and changing nothing else.
\<close>

section \<open>Code\<close>

definition slot_addr :: "nat \<Rightarrow> nat \<Rightarrow> ('e icst_scheme, nat) K" where
  "slot_addr ip k =
     bindK (getI ip (\<lambda>n. (i_dev n, i_addrs n ! k))) (\<lambda>(dev, addr).
     if addr = 0 then
       bindK (balloc dev) (\<lambda>b.
       thenK (setI ip (\<lambda>n. n\<lparr>i_addrs := (i_addrs n)[k := b]\<rparr>))
       (ret b))
     else ret addr)"

definition entry_addr :: "nat \<Rightarrow> nat \<Rightarrow> nat \<Rightarrow> ('e fsst_scheme, nat) K" where
  "entry_addr dev tbl k =
     bindK (fs_bread dev tbl) (\<lambda>bp.
     bindK (bdata bp) (\<lambda>a.
     if get_u32 a k = 0 then
       bindK (balloc dev) (\<lambda>b.
       bindK (bdata bp) (\<lambda>a.
       thenK (set_bdata bp (put_u32 a k b))
       (thenK (log_write_spec bp)
       (thenK (brelse_spec bp)
       (ret b)))))
     else thenK (brelse_spec bp) (ret (get_u32 a k))))"

definition bmap :: "nat \<Rightarrow> nat \<Rightarrow> ('e icst_scheme, nat) K" where
  "bmap ip bn =
     (if bn < NDIRECT then slot_addr ip bn
      else
        let bn = bn - NDIRECT in
        if bn < NINDIRECT then
          bindK (slot_addr ip NDIRECT) (\<lambda>addr.
          bindK (getI ip i_dev) (\<lambda>dev.
          entry_addr dev addr bn))
        else
          let bn = bn - NINDIRECT in
          if bn < D_INDIRECT then
            bindK (slot_addr ip (NDIRECT + 1)) (\<lambda>addr.
            bindK (getI ip i_dev) (\<lambda>dev.
            bindK (entry_addr dev addr (bn div D_INDIRECT_INSTANCE)) (\<lambda>addr.
            entry_addr dev addr (bn mod D_INDIRECT_INSTANCE))))
          else panic ''bmap: out of range'')"

section \<open>A well-formed file system\<close>

text \<open>The layout \<^verbatim>\<open>mkfs\<close> gives: boot block, super block, log, inodes, bit map, data.\<close>

definition dstart :: "superblock \<Rightarrow> nat" where
  "dstart sb = sb_bmapstart sb + sb_size sb div BPB + 1"

definition layout_ok :: "superblock \<Rightarrow> nat \<Rightarrow> bool" where
  "layout_ok sb n \<longleftrightarrow> 2 \<le> sb_logstart sb \<and> sb_logstart sb + sb_nlog sb \<le> sb_inodestart sb \<and>
     sb_inodestart sb + sb_ninodes sb div IPB + 1 \<le> sb_bmapstart sb \<and>
     dstart sb \<le> sb_size sb \<and> sb_size sb \<le> n \<and> fits32 (sb_size sb)"

definition fs_ok :: "'e fsst_scheme \<Rightarrow> bool" where
  "fs_ok s \<longleftrightarrow> layout_ok (fs_sb s) (dsize s) \<and> (\<forall>b. length (blk s b) = BSIZE) \<and>
     (\<forall>b < dstart (fs_sb s). used (fs_sb s) (blk s) b)"

definition data_block :: "'e fsst_scheme \<Rightarrow> nat \<Rightarrow> bool" where
  "data_block s b \<longleftrightarrow> dstart (fs_sb s) \<le> b \<and> b < sb_size (fs_sb s) \<and> used (fs_sb s) (blk s) b"

text \<open>Ready for an operation that logs \<open>l\<close> blocks and locks \<open>h\<close> buffers.\<close>

abbreviation disk_full :: stop where "disk_full \<equiv> Panic ''balloc: out of blocks''"

text \<open>The number of free blocks. With \<open>disk_full\<close> in \<open>E\<close> an operation may find the disk full; otherwise
  there are at least as many free blocks as it may log blocks, and it does not.\<close>

definition nfree :: "superblock \<Rightarrow> (nat \<Rightarrow> block) \<Rightarrow> nat" where
  "nfree sb v = card {b. b < sb_size sb \<and> \<not> used sb v b}"

definition fs_ready :: "stop set \<Rightarrow> nat \<Rightarrow> nat \<Rightarrow> 'e fsst_scheme \<Rightarrow> bool" where
  "fs_ready E l h s \<longleftrightarrow> room l h s \<and> fs_ok s \<and> (\<forall>b \<in> held s. data_block s b) \<and>
     (disk_full \<in> E \<or> l \<le> nfree (fs_sb s) (blk s))"

lemma bitmap_range: "x \<in> bitmap sb \<Longrightarrow> sb_bmapstart sb \<le> x \<and> x < dstart sb"
  by (auto simp: bitmap_def BBLOCK_def dstart_def div_le_mono less_imp_le_nat)

lemma bitmap_out [simp]:
  "dstart sb \<le> x \<Longrightarrow> x \<notin> bitmap sb" "x < sb_bmapstart sb \<Longrightarrow> x \<notin> bitmap sb"
  using bitmap_range[of x sb] by auto

lemma layout_fits: "layout_ok sb n \<Longrightarrow> sb_fits sb n"
  using bitmap_range bitmap_in by (fastforce simp: layout_ok_def sb_fits_def)

lemma fs_okD:
  assumes "fs_ok s"
  shows "map_wf (fs_sb s) (blk s)" "\<forall>x \<in> bitmap (fs_sb s). used (fs_sb s) (blk s) x"
    "sb_fits (fs_sb s) (dsize s)" "sb_size (fs_sb s) \<le> dsize s" "length (blk s b) = BSIZE"
    "dstart (fs_sb s) \<le> sb_size (fs_sb s)" "0 < dstart (fs_sb s)"
  using assms bitmap_range layout_fits
  by (auto simp: fs_ok_def map_wf_def layout_ok_def dstart_def)

lemma fs_ready_alloc: "fs_ready E l h s \<Longrightarrow> alloc_ready l h s"
  using bitmap_range fs_okD(3) by (fastforce simp: fs_ready_def alloc_ready_def data_block_def)

lemma data_block_range:
  assumes "fs_ok s" "data_block s b"
  shows "b \<noteq> 0" "b < dsize s" "b \<notin> bitmap (fs_sb s)" "fits32 b"
  using assms fs_okD(4,6,7)[OF assms(1)]
  by (auto simp: data_block_def fs_ok_def layout_ok_def fits32_def)

lemma alloced_fields [simp]:
  "fs_sb (alloced sb b s) = fs_sb s" "held (alloced sb b s') = held s'" "dsize (alloced sb b s') = dsize s'"
  "icache (alloced sb b s'') = icache s''" "ptable (alloced sb b s'') = ptable s''" "curproc (alloced sb b s'') = curproc s''"
  "devsw (alloced sb b s'') = devsw s''"
  by (simp_all add: alloced_def mark_def)

lemma alloced_fs_ok:
  assumes ok: "fs_ok s" and b: "b < sb_size (fs_sb s)" "\<not> used (fs_sb s) (blk s) b"
  shows "fs_ok (alloced (fs_sb s) b s)" "dstart (fs_sb s) \<le> b"
    "data_block (alloced (fs_sb s) b s) x \<longleftrightarrow> data_block s x \<or> x = b"
    "blk (alloced (fs_sb s) b s) b = zero_block"
    "y \<ge> dstart (fs_sb s) \<Longrightarrow> y \<noteq> b \<Longrightarrow> blk (alloced (fs_sb s) b s) y = blk s y"
    "y < sb_bmapstart (fs_sb s) \<Longrightarrow> blk (alloced (fs_sb s) b s) y = blk s y"
proof -
  let ?t = "alloced (fs_sb s) b s"
  note d = fs_okD[OF ok] and al = alloced_ok[OF fs_okD(1,2)[OF ok] b]
  show ge: "dstart (fs_sb s) \<le> b" using ok b(2) by (auto simp: fs_ok_def not_le[symmetric])
  show eq: "y \<ge> dstart (fs_sb s) \<Longrightarrow> y \<noteq> b \<Longrightarrow> blk ?t y = blk s y" for y
    using al(4)[of y] by simp
  show "y < sb_bmapstart (fs_sb s) \<Longrightarrow> blk ?t y = blk s y" for y
    using al(4)[of y] ge by (auto simp: dstart_def)
  show "blk ?t b = zero_block" by (rule al(2))
  show "data_block ?t x \<longleftrightarrow> data_block s x \<or> x = b"
    using al(3)[of x] ge b(1) by (auto simp: data_block_def)
  have "length (blk ?t y) = BSIZE" for y
    using d(5) by (simp add: alloced_def mark_def)
  moreover have "used (fs_sb s) (blk ?t) y" if "y < dstart (fs_sb s)" for y
    using al(3)[of y] that d(6) ok by (auto simp: fs_ok_def)
  ultimately show "fs_ok ?t" using ok by (simp add: fs_ok_def)
qed

lemma nfree_cong: "(\<And>b. b < sb_size sb \<Longrightarrow> used sb v b = used sb w b) \<Longrightarrow> nfree sb v = nfree sb w"
  by (auto simp: nfree_def intro!: arg_cong[where f = card])

lemma nfree_put [simp]: "a \<notin> bitmap sb \<Longrightarrow> nfree sb (v(a := d)) = nfree sb v"
  by (rule nfree_cong) (simp add: used_lput_other)

lemma nfree_zero: "(\<And>b. b < sb_size sb \<Longrightarrow> used sb v b) \<Longrightarrow> nfree sb v = 0"
  by (auto simp: nfree_def)

lemma nfree_alloced:
  assumes "fs_ok s" "b < sb_size (fs_sb s)" "\<not> used (fs_sb s) (blk s) b"
  shows "nfree (fs_sb s) (blk s) = Suc (nfree (fs_sb s) (blk (alloced (fs_sb s) b s)))"
proof -
  let ?F = "\<lambda>v. {x. x < sb_size (fs_sb s) \<and> \<not> used (fs_sb s) v x}"
  have "?F (blk s) = insert b (?F (blk (alloced (fs_sb s) b s)))" "b \<notin> ?F (blk (alloced (fs_sb s) b s))"
    using assms alloced_ok(3)[OF fs_okD(1,2)[OF assms(1)] assms(2,3)] by auto
  then show ?thesis by (simp add: nfree_def)
qed

lemma balloc_fs:
  assumes r: "fs_ready E (Suc (Suc l)) (Suc h) s"
  shows "ends E (balloc ROOTDEV) s (\<lambda>b t. t = alloced (fs_sb s) b s \<and>
    b < sb_size (fs_sb s) \<and> \<not> used (fs_sb s) (blk s) b \<and> fs_ready E l (Suc h) t)"
proof (cases "find (\<lambda>b. \<not> used (fs_sb s) (blk s) b) [0..<sb_size (fs_sb s)]")
  case None
  then have "nfree (fs_sb s) (blk s) = 0" by (intro nfree_zero) (auto simp: find_None_iff)
  then have "disk_full \<in> E" using r by (auto simp: fs_ready_def)
  with None show ?thesis by (simp add: ends_def balloc_ok[OF fs_ready_alloc[OF r]])
next
  case (Some b)
  from find_Some_upt[OF Some] have b: "b < sb_size (fs_sb s)" "\<not> used (fs_sb s) (blk s) b" by auto
  have ok: "fs_ok s" using r by (simp add: fs_ready_def)
  have "room l (Suc h) (alloced (fs_sb s) b s)"
    using r by (auto simp: fs_ready_def alloced_def mark_def intro!: room_lput)
  then have "fs_ready E l (Suc h) (alloced (fs_sb s) b s)"
    using alloced_fs_ok(1,3)[OF ok b] nfree_alloced[OF ok b] r by (auto simp: fs_ready_def)
  with Some b show ?thesis by (simp add: ends_def balloc_ok[OF fs_ready_alloc[OF r]])
qed

section \<open>The tree of a file\<close>

datatype pos = Slot nat | Ind nat | Dbl nat | Dbl2 nat nat

fun parent :: "pos \<Rightarrow> (pos \<times> nat) option" where
  "parent (Slot k) = None"
| "parent (Ind j) = Some (Slot 11, j)"
| "parent (Dbl j) = Some (Slot 12, j)"
| "parent (Dbl2 j k) = Some (Dbl j, k)"

fun pos_ok :: "pos \<Rightarrow> bool" where
  "pos_ok (Slot k) \<longleftrightarrow> k < 13"
| "pos_ok (Ind j) \<longleftrightarrow> j < NINDIRECT"
| "pos_ok (Dbl j) \<longleftrightarrow> j < D_INDIRECT_INSTANCE"
| "pos_ok (Dbl2 j k) \<longleftrightarrow> j < D_INDIRECT_INSTANCE \<and> k < D_INDIRECT_INSTANCE"

fun is_table :: "pos \<Rightarrow> bool" where
  "is_table (Slot k) \<longleftrightarrow> k = 11 \<or> k = 12"
| "is_table (Dbl j) \<longleftrightarrow> True"
| "is_table _ \<longleftrightarrow> False"

definition entry :: "(nat \<Rightarrow> block) \<Rightarrow> nat \<Rightarrow> nat \<Rightarrow> nat" where
  "entry v t k = (if t = 0 then 0 else get_u32 (v t) k)"

fun addr_at :: "(nat \<Rightarrow> block) \<Rightarrow> nat list \<Rightarrow> pos \<Rightarrow> nat" where
  "addr_at v as (Slot k) = as ! k"
| "addr_at v as (Ind j) = entry v (as ! 11) j"
| "addr_at v as (Dbl j) = entry v (as ! 12) j"
| "addr_at v as (Dbl2 j k) = entry v (entry v (as ! 12) j) k"

definition leaf :: "nat \<Rightarrow> pos" where
  "leaf bn = (if bn < NDIRECT then Slot bn
     else if bn - NDIRECT < NINDIRECT then Ind (bn - NDIRECT)
     else Dbl2 ((bn - NDIRECT - NINDIRECT) div D_INDIRECT_INSTANCE)
               ((bn - NDIRECT - NINDIRECT) mod D_INDIRECT_INSTANCE))"

text \<open>No two positions of the tree share a block, and all blocks are allocated data blocks.\<close>

definition tree_ok :: "'e fsst_scheme \<Rightarrow> nat list \<Rightarrow> bool" where
  "tree_ok s as \<longleftrightarrow> length as = 13 \<and>
     (\<forall>p. pos_ok p \<and> addr_at (blk s) as p \<noteq> 0 \<longrightarrow> data_block s (addr_at (blk s) as p)) \<and>
     (\<forall>p q. pos_ok p \<and> pos_ok q \<and> addr_at (blk s) as p \<noteq> 0 \<and>
        addr_at (blk s) as p = addr_at (blk s) as q \<longrightarrow> p = q)"

lemma pos_ok_leaf: "bn < MAXFILE \<Longrightarrow> pos_ok (leaf bn)"
  by (auto simp: leaf_def less_mult_imp_div_less)

lemma leaf_not_table: "\<not> is_table (leaf bn)"
  by (auto simp: leaf_def)

lemma leaf_inj: "leaf a = leaf b \<Longrightarrow> a = b"
proof -
  assume eq: "leaf a = leaf b"
  consider (d) "a < NDIRECT" | (i) "\<not> a < NDIRECT" "a - NDIRECT < NINDIRECT"
    | (dd) "\<not> a < NDIRECT" "\<not> a - NDIRECT < NINDIRECT" by blast
  then show "a = b"
  proof cases
    case d
    with eq show ?thesis by (auto simp: leaf_def split: if_splits)
  next
    case i
    with eq show ?thesis by (auto simp: leaf_def split: if_splits)
  next
    case dd
    with eq have b: "\<not> b < NDIRECT" "\<not> b - NDIRECT < NINDIRECT"
      and "(a - NDIRECT - NINDIRECT) div 128 = (b - NDIRECT - NINDIRECT) div 128"
        "(a - NDIRECT - NINDIRECT) mod 128 = (b - NDIRECT - NINDIRECT) mod 128"
      by (auto simp: leaf_def split: if_splits)
    then have "a - NDIRECT - NINDIRECT = b - NDIRECT - NINDIRECT" by (metis div_mod_decomp)
    with dd b show ?thesis by simp
  qed
qed

lemma parent_table: "parent p = Some (q, k) \<Longrightarrow> pos_ok p \<Longrightarrow> is_table q \<and> pos_ok q \<and> k < 128"
  by (cases p) auto

lemma parent_inj: "parent p = Some x \<Longrightarrow> parent p' = Some x \<Longrightarrow> p = p'"
  by (cases p; cases p') auto

lemma addr_at_parent: "parent p = Some (q, k) \<Longrightarrow> addr_at v as p = entry v (addr_at v as q) k"
  by (cases p) auto

text \<open>Storing a fresh, zeroed block \<open>b\<close> at the empty position \<open>p\<close>.\<close>

lemma graft:
  assumes slots: "\<And>k. k < 13 \<Longrightarrow> as' ! k = (if p = Slot k then b else as ! k)"
    and zero: "v' b = zero_block" and b: "b \<noteq> 0"
    and tables: "\<And>q k. is_table q \<Longrightarrow> pos_ok q \<Longrightarrow> k < 128 \<Longrightarrow> addr_at v as q \<noteq> 0 \<Longrightarrow>
      get_u32 (v' (addr_at v as q)) k = (if parent p = Some (q, k) then b else get_u32 (v (addr_at v as q)) k)"
    and empty: "addr_at v as p = 0" and par: "\<And>q k. parent p = Some (q, k) \<Longrightarrow> addr_at v as q \<noteq> 0"
    and x: "pos_ok x"
  shows "addr_at v' as' x = (if x = p then b else addr_at v as x)"
proof -
  have step: "addr_at v' as' x = (if x = p then b else addr_at v as x)"
    if pa: "parent x = Some (q, k)" and ok: "pos_ok x"
      and IH: "addr_at v' as' q = (if q = p then b else addr_at v as q)" for x q k
  proof -
    from parent_table[OF pa ok] have q: "is_table q" "pos_ok q" "k < 128" by auto
    have eq: "addr_at v' as' x = entry v' (addr_at v' as' q) k" "addr_at v as x = entry v (addr_at v as q) k"
      using addr_at_parent[OF pa] by simp_all
    have xp: "x = p \<longleftrightarrow> parent p = Some (q, k)" using pa parent_inj by metis
    consider "q = p" | "q \<noteq> p" "addr_at v as q = 0" | "q \<noteq> p" "addr_at v as q \<noteq> 0" by blast
    then show ?thesis
    proof cases
      case 1
      then have "x \<noteq> p" using pa by (cases p) auto
      with 1 IH eq q(3) zero b empty show ?thesis by (simp add: entry_def)
    next
      case 2
      with IH eq xp par show ?thesis by (auto simp: entry_def)
    next
      case 3
      with IH eq xp tables[OF q] show ?thesis by (auto simp: entry_def)
    qed
  qed
  show ?thesis
  proof (cases x)
    case (Slot k)
    with slots[of k] x show ?thesis by auto
  next
    case (Ind j)
    with x slots[of 11] show ?thesis by (intro step[of x "Slot 11" j]) auto
  next
    case (Dbl j)
    with x slots[of 12] show ?thesis by (intro step[of x "Slot 12" j]) auto
  next
    case (Dbl2 j k)
    have "addr_at v' as' (Dbl j) = (if Dbl j = p then b else addr_at v as (Dbl j))"
      using x Dbl2 slots[of 12] by (intro step[of "Dbl j" "Slot 12" j]) auto
    with x Dbl2 show ?thesis by (intro step[of x "Dbl j" k]) auto
  qed
qed

section \<open>Growing a file\<close>

definition tree :: "nat \<Rightarrow> 'e icst_scheme \<Rightarrow> pos \<Rightarrow> nat" where
  "tree ip s p = addr_at (blk s) (i_addrs (icache s ! ip)) p"

definition itree_ok :: "nat \<Rightarrow> 'e icst_scheme \<Rightarrow> bool" where
  "itree_ok ip s \<longleftrightarrow> ip < length (icache s) \<and> i_dev (icache s ! ip) = ROOTDEV \<and>
     tree_ok s (i_addrs (icache s ! ip))"

lemma itree_okD:
  assumes "itree_ok ip s"
  shows "ip < length (icache s)" "i_dev (icache s ! ip) = ROOTDEV" "length (i_addrs (icache s ! ip)) = 13"
    "pos_ok p \<Longrightarrow> tree ip s p \<noteq> 0 \<Longrightarrow> data_block s (tree ip s p)"
    "pos_ok p \<Longrightarrow> pos_ok q \<Longrightarrow> tree ip s p \<noteq> 0 \<Longrightarrow> tree ip s p = tree ip s q \<Longrightarrow> p = q"
  using assms by (auto simp: itree_ok_def tree_ok_def tree_def)

text \<open>The effect of allocations for inode \<open>ip\<close>: its tree gains blocks that were free and, at the
  leaves, read as zeros; no other data block, inode or log block changes.\<close>

definition bmapped :: "nat \<Rightarrow> 'e icst_scheme \<Rightarrow> 'e icst_scheme \<Rightarrow> bool" where
  "bmapped ip s t \<longleftrightarrow>
     (\<exists>v d l as. t = upd_ino ip (\<lambda>n. n\<lparr>i_addrs := as\<rparr>) (s\<lparr>blk := v, dirty := d, ls_lh := l\<rparr>)) \<and>
     fs_ok t \<and> itree_ok ip t \<and>
     (\<forall>p. pos_ok p \<and> tree ip s p \<noteq> 0 \<longrightarrow> tree ip t p = tree ip s p) \<and>
     (\<forall>p. pos_ok p \<and> tree ip s p = 0 \<and> tree ip t p \<noteq> 0 \<longrightarrow>
        \<not> data_block s (tree ip t p) \<and> (\<not> is_table p \<longrightarrow> blk t (tree ip t p) = zero_block)) \<and>
     (\<forall>x. data_block s x \<and> (\<forall>p. pos_ok p \<and> is_table p \<longrightarrow> tree ip s p \<noteq> x) \<longrightarrow> blk t x = blk s x) \<and>
     (\<forall>x. data_block s x \<longrightarrow> data_block t x) \<and>
     (\<forall>x. data_block t x \<and> \<not> data_block s x \<longrightarrow> (\<exists>p. pos_ok p \<and> tree ip t p = x)) \<and>
     (\<forall>x < sb_bmapstart (fs_sb s). blk t x = blk s x)"

lemma bmapped_shape:
  assumes "bmapped ip s t"
  shows "\<exists>v d l as. t = upd_ino ip (\<lambda>n. n\<lparr>i_addrs := as\<rparr>) (s\<lparr>blk := v, dirty := d, ls_lh := l\<rparr>)"
    "fs_ok t" "itree_ok ip t"
  using assms by (simp_all add: bmapped_def)

lemma bmappedI:
  assumes "\<exists>v d l as. t = upd_ino ip (\<lambda>n. n\<lparr>i_addrs := as\<rparr>) (s\<lparr>blk := v, dirty := d, ls_lh := l\<rparr>)"
    "fs_ok t" "itree_ok ip t"
    "\<And>p. pos_ok p \<Longrightarrow> tree ip s p \<noteq> 0 \<Longrightarrow> tree ip t p = tree ip s p"
    "\<And>p. pos_ok p \<Longrightarrow> tree ip s p = 0 \<Longrightarrow> tree ip t p \<noteq> 0 \<Longrightarrow>
       \<not> data_block s (tree ip t p) \<and> (\<not> is_table p \<longrightarrow> blk t (tree ip t p) = zero_block)"
    "\<And>x. data_block s x \<Longrightarrow> (\<And>p. pos_ok p \<Longrightarrow> is_table p \<Longrightarrow> tree ip s p \<noteq> x) \<Longrightarrow> blk t x = blk s x"
    "\<And>x. data_block s x \<Longrightarrow> data_block t x"
    "\<And>x. data_block t x \<Longrightarrow> \<not> data_block s x \<Longrightarrow> \<exists>p. pos_ok p \<and> tree ip t p = x"
    "\<And>x. x < sb_bmapstart (fs_sb s) \<Longrightarrow> blk t x = blk s x"
  shows "bmapped ip s t"
  unfolding bmapped_def by (intro conjI allI impI; (rule assms(1))?; use assms(2-) in blast)

lemma bmapped_keep: "bmapped ip s t \<Longrightarrow> pos_ok p \<Longrightarrow> tree ip s p \<noteq> 0 \<Longrightarrow> tree ip t p = tree ip s p"
  by (simp add: bmapped_def)

lemma bmapped_new:
  assumes "bmapped ip s t" "pos_ok p" "tree ip s p = 0" "tree ip t p \<noteq> 0"
  shows "\<not> data_block s (tree ip t p)" "\<not> is_table p \<Longrightarrow> blk t (tree ip t p) = zero_block"
  using assms by (auto simp: bmapped_def)

lemma bmapped_blk:
  assumes "bmapped ip s t" "data_block s x" "\<And>p. pos_ok p \<Longrightarrow> is_table p \<Longrightarrow> tree ip s p \<noteq> x"
  shows "blk t x = blk s x"
  using assms by (simp add: bmapped_def)

lemma bmapped_data: "bmapped ip s t \<Longrightarrow> data_block s x \<Longrightarrow> data_block t x"
  by (simp add: bmapped_def)

lemma bmapped_only:
  "bmapped ip s t \<Longrightarrow> data_block t x \<Longrightarrow> data_block s x \<or> (\<exists>p. pos_ok p \<and> tree ip t p = x)"
  by (auto simp: bmapped_def)

lemma bmapped_low: "bmapped ip s t \<Longrightarrow> x < sb_bmapstart (fs_sb s) \<Longrightarrow> blk t x = blk s x"
  by (simp add: bmapped_def)

lemma bmapped_fields:
  assumes "bmapped ip s t"
  shows "fs_sb t = fs_sb s" "held t = held s" "dsize t = dsize s" "ptable t = ptable s"
    "devsw t = devsw s" "length (icache t) = length (icache s)"
    "\<exists>as. icache t = (icache s)[ip := (icache s ! ip)\<lparr>i_addrs := as\<rparr>]"
    "curproc t = curproc s"
  using bmapped_shape(1)[OF assms] by (auto simp: upd_ino_def)

lemma bmapped_refl: "fs_ok s \<Longrightarrow> itree_ok ip s \<Longrightarrow> bmapped ip s s"
proof -
  assume ok: "fs_ok s" "itree_ok ip s"
  have "s = upd_ino ip (\<lambda>n. n\<lparr>i_addrs := i_addrs (icache s ! ip)\<rparr>)
    (s\<lparr>blk := blk s, dirty := dirty s, ls_lh := ls_lh s\<rparr>)" by (simp add: upd_ino_def)
  then have "\<exists>v d l as. s = upd_ino ip (\<lambda>n. n\<lparr>i_addrs := as\<rparr>) (s\<lparr>blk := v, dirty := d, ls_lh := l\<rparr>)"
    by blast
  with ok show ?thesis unfolding bmapped_def by auto
qed

lemma bmapped_shape_trans:
  assumes "t = upd_ino ip (\<lambda>n. n\<lparr>i_addrs := as\<rparr>) (s\<lparr>blk := v, dirty := d, ls_lh := l\<rparr>)"
    "u = upd_ino ip (\<lambda>n. n\<lparr>i_addrs := as'\<rparr>) (t\<lparr>blk := v', dirty := d', ls_lh := l'\<rparr>)"
    "ip < length (icache s)"
  shows "u = upd_ino ip (\<lambda>n. n\<lparr>i_addrs := as'\<rparr>) (s\<lparr>blk := v', dirty := d', ls_lh := l'\<rparr>)"
  using assms by (simp add: upd_ino_def)

lemma bmapped_trans:
  assumes st: "bmapped ip s t" and tu: "bmapped ip t u" and ip: "ip < length (icache s)"
  shows "bmapped ip s u"
proof -
  note sd = itree_okD[OF bmapped_shape(3)[OF st]]
  have shape: "\<exists>v d l as. u = upd_ino ip (\<lambda>n. n\<lparr>i_addrs := as\<rparr>) (s\<lparr>blk := v, dirty := d, ls_lh := l\<rparr>)"
    using bmapped_shape(1)[OF st] bmapped_shape(1)[OF tu] bmapped_shape_trans[OF _ _ ip] by metis
  have keep: "tree ip u p = tree ip s p" if "pos_ok p" "tree ip s p \<noteq> 0" for p
    using bmapped_keep[OF st that] bmapped_keep[OF tu that(1)] that by simp
  have new: "\<not> data_block s (tree ip u p) \<and> (\<not> is_table p \<longrightarrow> blk u (tree ip u p) = zero_block)"
    if p: "pos_ok p" "tree ip s p = 0" "tree ip u p \<noteq> 0" for p
  proof (cases "tree ip t p = 0")
    case True
    from bmapped_new[OF tu p(1) True p(3)] show ?thesis using bmapped_data[OF st] by blast
  next
    case False
    have eq: "tree ip u p = tree ip t p" by (rule bmapped_keep[OF tu p(1) False])
    have "blk u (tree ip t p) = blk t (tree ip t p)" if "\<not> is_table p"
      using that p(1) sd(5)[OF p(1) _ False] by (intro bmapped_blk[OF tu sd(4)[OF p(1) False]]) metis
    with bmapped_new[OF st p(1,2) False] eq show ?thesis by simp
  qed
  have other: "blk u x = blk s x"
    if x: "data_block s x" "\<And>p. pos_ok p \<Longrightarrow> is_table p \<Longrightarrow> tree ip s p \<noteq> x" for x
  proof -
    have "tree ip t p \<noteq> x" if "pos_ok p" "is_table p" for p
    proof (cases "tree ip s p = 0")
      case True
      then show ?thesis
        using bmapped_new(1)[OF st that(1) True] x(1) data_block_range(1)[OF bmapped_shape(2)[OF st] bmapped_data[OF st x(1)]]
        by metis
    qed (use x(2)[OF that] bmapped_keep[OF st that(1)] in simp)
    from bmapped_blk[OF tu bmapped_data[OF st x(1)] this] show ?thesis
      using bmapped_blk[OF st x] by simp
  qed
  have only: "\<exists>p. pos_ok p \<and> tree ip u p = x" if x: "data_block u x" "\<not> data_block s x" for x
  proof (cases "data_block t x")
    case True
    with bmapped_only[OF st] x(2) obtain p where p: "pos_ok p" "tree ip t p = x" by blast
    moreover have "x \<noteq> 0" using data_block_range(1)[OF bmapped_shape(2)[OF st] True] .
    ultimately show ?thesis using bmapped_keep[OF tu p(1)] by auto
  qed (use bmapped_only[OF tu x(1)] in blast)
  have low: "blk u x = blk s x" if "x < sb_bmapstart (fs_sb s)" for x
    using bmapped_low[OF st that] bmapped_low[OF tu] bmapped_fields(1)[OF st] that by simp
  show ?thesis
    by (rule bmappedI[OF shape bmapped_shape(2,3)[OF tu] keep new other bmapped_data[OF tu bmapped_data[OF st]] only low])
qed

lemma bmapped_graft:
  assumes ok: "fs_ok s" "itree_ok ip s" and t: "fs_ok t" "length (i_addrs (icache t ! ip)) = 13"
    and shape: "t = upd_ino ip (\<lambda>n. n\<lparr>i_addrs := as\<rparr>) (s\<lparr>blk := v, dirty := d, ls_lh := l\<rparr>)"
    and data: "\<And>x. data_block t x \<longleftrightarrow> data_block s x \<or> x = b" and b: "\<not> data_block s b" "data_block t b"
    and p: "pos_ok p" "tree ip s p = 0" and par: "\<And>q k. parent p = Some (q, k) \<Longrightarrow> tree ip s q \<noteq> 0"
    and slots: "\<And>k. k < 13 \<Longrightarrow> i_addrs (icache t ! ip) ! k = (if p = Slot k then b else i_addrs (icache s ! ip) ! k)"
    and zero: "blk t b = zero_block"
    and tables: "\<And>q k. is_table q \<Longrightarrow> pos_ok q \<Longrightarrow> k < 128 \<Longrightarrow> tree ip s q \<noteq> 0 \<Longrightarrow>
      get_u32 (blk t (tree ip s q)) k = (if parent p = Some (q, k) then b else get_u32 (blk s (tree ip s q)) k)"
    and other: "\<And>x. data_block s x \<Longrightarrow> (\<And>p. pos_ok p \<Longrightarrow> is_table p \<Longrightarrow> tree ip s p \<noteq> x) \<Longrightarrow> blk t x = blk s x"
    and low: "\<And>x. x < sb_bmapstart (fs_sb s) \<Longrightarrow> blk t x = blk s x"
  shows "bmapped ip s t" "tree ip t p = b"
proof -
  note sd = itree_okD[OF ok(2)]
  have b0: "b \<noteq> 0" using data_block_range(1)[OF t(1) b(2)] .
  have at: "tree ip t x = (if x = p then b else tree ip s x)" if "pos_ok x" for x
    unfolding tree_def using slots zero b0 tables p par that
    by (intro graft) (auto simp: tree_def)
  have fresh: "tree ip s q \<noteq> b" if "pos_ok q" for q
    using sd(4)[OF that] b(1) b0 by metis
  have idx: "ip < length (icache t)" "i_dev (icache t ! ip) = ROOTDEV"
    using sd(1,2) by (simp_all add: shape)
  have "tree_ok t (i_addrs (icache t ! ip))"
    unfolding tree_ok_def
  proof (intro conjI allI impI)
    fix x assume "pos_ok x \<and> addr_at (blk t) (i_addrs (icache t ! ip)) x \<noteq> 0"
    then show "data_block t (addr_at (blk t) (i_addrs (icache t ! ip)) x)"
      using at[of x] sd(4)[of x] data by (auto simp: tree_def split: if_splits)
  next
    fix x y assume "pos_ok x \<and> pos_ok y \<and> addr_at (blk t) (i_addrs (icache t ! ip)) x \<noteq> 0 \<and>
      addr_at (blk t) (i_addrs (icache t ! ip)) x = addr_at (blk t) (i_addrs (icache t ! ip)) y"
    then show "x = y"
      using at[of x] at[of y] fresh[of x] fresh[of y] sd(5)[of x y] by (auto simp: tree_def split: if_splits)
  qed (rule t(2))
  with idx have it: "itree_ok ip t" by (simp add: itree_ok_def)
  show "tree ip t p = b" using at[OF p(1)] by simp
  have "\<exists>v d l as. t = upd_ino ip (\<lambda>n. n\<lparr>i_addrs := as\<rparr>) (s\<lparr>blk := v, dirty := d, ls_lh := l\<rparr>)"
    using shape by blast
  then show "bmapped ip s t"
  proof (rule bmappedI[OF _ t(1) it])
    fix x assume x: "data_block t x" "\<not> data_block s x"
    then show "\<exists>p. pos_ok p \<and> tree ip t p = x" using data[of x] at[OF p(1)] p(1) by auto
  next
    fix q assume q: "pos_ok q" "tree ip s q = 0" "tree ip t q \<noteq> 0"
    then have "tree ip t q = b" using at[of q] by (auto split: if_splits)
    then show "\<not> data_block s (tree ip t q) \<and> (\<not> is_table q \<longrightarrow> blk t (tree ip t q) = zero_block)"
      using b zero by simp
  next
    fix q assume "pos_ok q" "tree ip s q \<noteq> 0"
    then show "tree ip t q = tree ip s q" using at[of q] p(2) by auto
  qed (use data other low in auto)
qed

section \<open>bmap\<close>

text \<open>Room for \<open>l\<close> blocks beyond \<open>a\<close>, which is logged already or can be, and one to spare.\<close>

definition fs_budget :: "stop set \<Rightarrow> nat \<Rightarrow> nat \<Rightarrow> nat \<Rightarrow> 'e fsst_scheme \<Rightarrow> bool" where
  "fs_budget E a l h s \<longleftrightarrow> fs_ready E (if a \<in> set (ls_lh s) then Suc l else Suc (Suc l)) h s"

lemma fs_upd_ino [simp]:
  "fs_ok (upd_ino ip f s) = fs_ok s" "data_block (upd_ino ip f s) b = data_block s b"
  "fs_ready E l h (upd_ino ip f s) = fs_ready E l h s"
  by (simp_all add: fs_ok_def data_block_def fs_ready_def)

lemma fs_hold [simp]: "fs_ok (hold b s) = fs_ok s" "data_block (hold b s) x = data_block s x"
  by (simp_all add: fs_ok_def data_block_def)

lemma fs_ready_mono: "fs_ready E l h s \<Longrightarrow> l' \<le> l \<Longrightarrow> h' \<le> h \<Longrightarrow> fs_ready E l' h' s"
  using room_mono by (auto simp: fs_ready_def)

lemma fs_ready_budget: "fs_ready E (l + 2) h s \<Longrightarrow> fs_budget E a l h s"
  by (auto simp: fs_budget_def elim: fs_ready_mono)

lemma alloced_shape: "\<exists>v d l. alloced sb b s = s\<lparr>blk := v, dirty := d, ls_lh := l\<rparr>"
  by (auto simp: alloced_def mark_def lput_def)

lemma alloced_logged: "b \<in> set (ls_lh (alloced sb b s))" "set (ls_lh s) \<subseteq> set (ls_lh (alloced sb b s))"
  by (auto simp: alloced_def mark_def)

lemma alloced_hold: "alloced sb b (hold c s) = hold c (alloced sb b s)"
  by (simp add: alloced_def mark_def lput_hold)

lemma slot_addr_ok:
  assumes r: "fs_ready E (l + 3) (Suc h) s" and it: "itree_ok ip s" and k: "k < 13"
  shows "ends E (slot_addr ip k) s (\<lambda>a t. bmapped ip s t \<and> a = tree ip t (Slot k) \<and> a \<noteq> 0 \<and>
    fs_budget E a l (Suc h) t)"
proof (cases "i_addrs (icache s ! ip) ! k = 0")
  case False
  have "fs_ok s" using r by (simp add: fs_ready_def)
  with False show ?thesis
    using bmapped_refl[OF _ it] fs_ready_budget[of E l "Suc h" s] fs_ready_mono[OF r, of "l + 2" "Suc h"]
    by (simp add: slot_addr_def getI_def wp tree_def)
next
  case True
  note d = itree_okD[OF it]
  have ok: "fs_ok s" using r by (simp add: fs_ready_def)
  have post: "bmapped ip s t \<and> tree ip t (Slot k) = b \<and> b \<noteq> 0 \<and> fs_budget E b l (Suc h) t"
    if b: "b < sb_size (fs_sb s)" "\<not> used (fs_sb s) (blk s) b" and fr: "fs_ready E (Suc l) (Suc h) (alloced (fs_sb s) b s)"
      and t: "t = upd_ino ip (\<lambda>n. n\<lparr>i_addrs := (i_addrs n)[k := b]\<rparr>) (alloced (fs_sb s) b s)" for b t
  proof -
    note al = alloced_fs_ok[OF ok b]
    obtain v dd ll where sh: "alloced (fs_sb s) b s = s\<lparr>blk := v, dirty := dd, ls_lh := ll\<rparr>"
      using alloced_shape by blast
    have db: "data_block t x \<longleftrightarrow> data_block s x \<or> x = b" for x using al(3) by (simp add: t)
    have shape: "t = upd_ino ip (\<lambda>n. n\<lparr>i_addrs := (i_addrs (icache s ! ip))[k := b]\<rparr>)
        (s\<lparr>blk := v, dirty := dd, ls_lh := ll\<rparr>)"
      unfolding t sh by (rule upd_ino_cong) simp
    have nb: "\<not> data_block s b" using b by (simp add: data_block_def)
    have eq: "blk t x = blk s x" if "data_block s x" for x
      using that nb al(5)[of x] by (auto simp: t data_block_def)
    have "bmapped ip s t" "tree ip t (Slot k) = b"
      by (rule bmapped_graft[OF ok it _ _ shape db nb, of "Slot k"];
          use k True d al b eq in \<open>auto simp: t tree_def db[unfolded t]\<close>)+
    moreover have "b \<noteq> 0" using data_block_range(1)[of t b] al(1) db by (simp add: t)
    moreover have "fs_budget E b l (Suc h) t"
      using fr alloced_logged(1)[of b "fs_sb s" s] by (simp add: fs_budget_def t)
    ultimately show ?thesis by blast
  qed
  have "ends E (balloc ROOTDEV) s (\<lambda>b t. t = alloced (fs_sb s) b s \<and>
      b < sb_size (fs_sb s) \<and> \<not> used (fs_sb s) (blk s) b \<and> fs_ready E (Suc l) (Suc h) t)"
    using r by (intro balloc_fs) (simp add: numeral_3_eq_3)
  then show ?thesis
    unfolding slot_addr_def getI_def setI_def wp
    using True d by (auto simp: wp elim!: ends_mono intro: post dest: post)
qed

text \<open>A table block that a position's entry is stored in.\<close>

lemma entry_stored:
  assumes ok: "fs_ok s" and it: "itree_ok ip s" and p: "parent p = Some (q, k)" "pos_ok p" "tree ip s p = 0"
    and tbl: "tree ip s q \<noteq> 0" and b: "b < sb_size (fs_sb s)" "\<not> used (fs_sb s) (blk s) b"
    and t: "t = lput (tree ip s q) (put_u32 (blk s (tree ip s q)) k b) (alloced (fs_sb s) b s)"
  shows "bmapped ip s t" "tree ip t p = b" "fs_ok t"
proof -
  let ?tbl = "tree ip s q"
  note d = itree_okD[OF it] and al = alloced_fs_ok[OF ok b] and pq = parent_table[OF p(1,2)]
  have dt: "data_block s ?tbl" using d(4) pq tbl by blast
  have nb: "\<not> data_block s b" using b by (simp add: data_block_def)
  then have ne: "?tbl \<noteq> b" using dt by auto
  have len: "length (blk s ?tbl) = BSIZE" using fs_okD(5)[OF ok] by simp
  have ge: "dstart (fs_sb s) \<le> ?tbl" using dt by (simp add: data_block_def)
  obtain v dd ll where "alloced (fs_sb s) b s = s\<lparr>blk := v, dirty := dd, ls_lh := ll\<rparr>"
    using alloced_shape by blast
  then have "\<exists>v d l. t = s\<lparr>blk := v, dirty := d, ls_lh := l\<rparr>" by (auto simp: t lput_def)
  then obtain v' d' l' where "t = s\<lparr>blk := v', dirty := d', ls_lh := l'\<rparr>" by blast
  then have shape: "t = upd_ino ip (\<lambda>n. n\<lparr>i_addrs := i_addrs (icache s ! ip)\<rparr>)
      (s\<lparr>blk := v', dirty := d', ls_lh := l'\<rparr>)" by (simp add: upd_ino_def)
  have used: "used (fs_sb s) (blk t) x = used (fs_sb s) (blk (alloced (fs_sb s) b s)) x" if "x < sb_size (fs_sb s)" for x
    using used_lput_other[OF bitmap_out(1)[OF ge] that] by (simp add: t)
  have db: "data_block t x \<longleftrightarrow> data_block s x \<or> x = b" for x
    using al(3)[of x] used[of x] by (auto simp: data_block_def t)
  have lens: "length (blk t x) = BSIZE" for x
    using fs_okD(5)[OF al(1)] len pq by (simp add: t)
  show okt: "fs_ok t"
    using al(1) lens used fs_okD(6)[OF ok] by (auto simp: fs_ok_def t)
  have eq: "blk t x = blk s x" if "data_block s x" "x \<noteq> ?tbl" for x
    using that nb al(5)[of x] by (auto simp: t data_block_def)
  have fb: "fits32 b" using data_block_range(4)[OF al(1)] al(3) by blast
  have tables: "get_u32 (blk t (tree ip s q')) k' =
      (if parent p = Some (q', k') then b else get_u32 (blk s (tree ip s q')) k')"
    if "is_table q'" "pos_ok q'" "k' < 128" "tree ip s q' \<noteq> 0" for q' k'
  proof (cases "q' = q")
    case True
    with p(1) that(3) pq len fb show ?thesis by (simp add: t)
  next
    case False
    then have "tree ip s q' \<noteq> ?tbl" using d(5)[of q' q] that pq by blast
    with eq[of "tree ip s q'"] d(4)[OF that(2,4)] False p(1) show ?thesis by auto
  qed
  have low: "blk t x = blk s x" if "x < sb_bmapstart (fs_sb s)" for x
    using that al(6)[OF that] ge by (simp add: t dstart_def)
  have len13: "length (i_addrs (icache t ! ip)) = 13" using d(3) by (simp add: t)
  have dbb: "data_block t b" using db by simp
  have par: "tree ip s q' \<noteq> 0" if "parent p = Some (q', k')" for q' k' using that p(1) tbl by simp
  have slots: "i_addrs (icache t ! ip) ! j = (if p = Slot j then b else i_addrs (icache s ! ip) ! j)" for j
    using p(1) by (auto simp: t)
  have zero: "blk t b = zero_block" using ne al(4) by (simp add: t)
  have other: "blk t x = blk s x"
    if "data_block s x" "\<And>p. pos_ok p \<Longrightarrow> is_table p \<Longrightarrow> tree ip s p \<noteq> x" for x
    using eq[OF that(1)] that(2)[of q] pq by blast
  show "bmapped ip s t"
    by (rule bmapped_graft(1)[OF ok it okt len13 shape db nb dbb p(2,3) par slots zero tables other low])
  show "tree ip t p = b"
    by (rule bmapped_graft(2)[OF ok it okt len13 shape db nb dbb p(2,3) par slots zero tables other low])
qed

lemma entry_addr_ok:
  assumes r: "fs_budget E (tree ip s q) (l + 2) (Suc (Suc h)) s" and it: "itree_ok ip s" and free: "held s = {}"
    and p: "parent p = Some (q, k)" "pos_ok p" and tbl: "tree ip s q \<noteq> 0"
  shows "ends E (entry_addr ROOTDEV (tree ip s q) k) s (\<lambda>a t. bmapped ip s t \<and> a = tree ip t p \<and> a \<noteq> 0 \<and>
    fs_budget E a l (Suc (Suc h)) t)"
proof -
  let ?t = "tree ip s q" and ?sb = "fs_sb s"
  let ?n = "if ?t \<in> set (ls_lh s) then l + 3 else l + 4"
  have r': "fs_ready E ?n (Suc (Suc h)) s"
    using r by (simp add: fs_budget_def eval_nat_numeral split: if_splits)
  then have ok: "fs_ok s" and room: "room ?n (Suc (Suc h)) s" by (simp_all add: fs_ready_def)
  note d = itree_okD[OF it] and pq = parent_table[OF p]
  have dt: "data_block s ?t" using d(4) pq tbl by blast
  have rd: "bread_spec ?t s = Inr (?t, hold ?t s)"
    using room free data_block_range(2)[OF ok dt] by (intro bread_hold[of ?n "Suc h"]) auto
  have e: "tree ip s p = get_u32 (blk s ?t) k"
    using addr_at_parent[OF p(1), of "blk s" "i_addrs (icache s ! ip)"] tbl by (simp add: tree_def entry_def)
  show ?thesis
  proof (cases "get_u32 (blk s ?t) k = 0")
    case False
    then show ?thesis
      using rd free e bmapped_refl[OF ok it] fs_ready_budget[of E l _ s] fs_ready_mono[OF r', of "l + 2"]
      by (auto simp: entry_addr_def fs_bread_def wp bdata_def ends_eq brelse_hold)
  next
    case True
    have post: "ends E (thenK (set_bdata ?t (put_u32 (blk u ?t) k b))
        (thenK (log_write_spec ?t) (thenK (brelse_spec ?t) (ret b)))) u
        (\<lambda>a t. bmapped ip s t \<and> a = tree ip t p \<and> a \<noteq> 0 \<and> fs_budget E a l (Suc (Suc h)) t)"
      if b: "b < sb_size ?sb" "\<not> used ?sb (blk s) b" and u: "u = hold ?t (alloced ?sb b s)" for b u
    proof -
      note al = alloced_fs_ok[OF ok b]
      have "b \<noteq> ?t" using dt b by (auto simp: data_block_def)
      then have blk: "blk u ?t = blk s ?t" using al(5)[of ?t] dt by (simp add: u data_block_def)
      define t where "t = lput ?t (put_u32 (blk s ?t) k b) (alloced ?sb b s)"
      note st = entry_stored[OF ok it p(1,2) _ tbl b t_def]
      have bn: "b \<noteq> 0" using data_block_range(1)[OF al(1)] al(3) by blast
      have n: "?n = Suc (Suc (?n - 2))" by simp
      have room1: "room (?n - 2) (Suc (Suc h)) (alloced ?sb b s)"
        unfolding alloced_def mark_def by (intro room_lput) (use room n in auto)
      have room2: "room (Suc l) (Suc h) (hold ?t (alloced ?sb b s))"
        using room1 by (intro room_hold room_mono[OF room1]) auto
      have "room (Suc l) (Suc (Suc h)) t"
      proof (cases "?t \<in> set (ls_lh s)")
        case True
        then have "?t \<in> set (ls_lh (alloced ?sb b s))" using alloced_logged(2) by blast
        with room1 True show ?thesis by (simp add: t_def room_lput_again)
      next
        case False
        with room1 show ?thesis unfolding t_def by (intro room_lput) (simp add: eval_nat_numeral)
      qed
      moreover have "b \<in> set (ls_lh t)" using alloced_logged(1)[of b ?sb s] by (simp add: t_def)
      moreover have "held t = {}" using free by (simp add: t_def)
      moreover have "disk_full \<in> E \<or> Suc l \<le> nfree (fs_sb t) (blk t)"
        using r' nfree_alloced[OF ok b] data_block_range(3)[OF ok dt]
        by (auto simp: t_def fs_ready_def split: if_splits)
      ultimately have bud: "fs_budget E b l (Suc (Suc h)) t"
        using st(3) True e by (simp add: fs_budget_def fs_ready_def)
      have "log_write_spec ?t (set_data ?t (put_u32 (blk s ?t) k b) u) = Inr ((), hold ?t t)"
        using log_write_lput[OF room2] by (simp add: u t_def lput_hold)
      then show ?thesis
        using st(1,2) bud bn True e free
        by (simp add: wp set_bdata_def blk ends_eq brelse_hold t_def)
    qed
    have "fs_ready E (Suc (Suc (?n - 2))) (Suc h) (hold ?t s)"
      using r' dt free room_hold[of ?n "Suc h" s ?t] by (auto simp: fs_ready_def Suc_diff_le eval_nat_numeral)
    from balloc_fs[OF this] have "ends E (balloc ROOTDEV) (hold ?t s) (\<lambda>b t.
        t = hold ?t (alloced ?sb b s) \<and> b < sb_size ?sb \<and> \<not> used ?sb (blk s) b)"
      by (rule ends_mono) (auto simp: alloced_hold)
    then have "ends E (balloc ROOTDEV) (hold ?t s) (\<lambda>b u.
        ends E (thenK (set_bdata ?t (put_u32 (blk u ?t) k b))
        (thenK (log_write_spec ?t) (thenK (brelse_spec ?t) (ret b)))) u
        (\<lambda>a t. bmapped ip s t \<and> a = tree ip t p \<and> a \<noteq> 0 \<and> fs_budget E a l (Suc (Suc h)) t))"
      by (rule ends_mono) (elim conjE, rule post)
    then show ?thesis
      using rd True by (simp add: entry_addr_def fs_bread_def wp bdata_def ends_eq)
  qed
qed

lemma bmap_ok:
  assumes r: "fs_ready E (l + 7) (Suc (Suc h)) s" and it: "itree_ok ip s" and free: "held s = {}"
    and bn: "bn < MAXFILE"
  shows "ends E (bmap ip bn) s (\<lambda>a t. bmapped ip s t \<and> a = tree ip t (leaf bn) \<and> a \<noteq> 0 \<and>
    fs_budget E a l (Suc (Suc h)) t)"
proof -
  let ?Q = "\<lambda>p n a t. bmapped ip s t \<and> a = tree ip t p \<and> a \<noteq> 0 \<and> fs_budget E a n (Suc (Suc h)) t"
  have slot: "ends E (slot_addr ip k) s (?Q (Slot k) n)" if "k < 13" "n \<le> l + 4" for k n
    using that by (intro slot_addr_ok[OF fs_ready_mono[OF r] it]) auto
  have dev: "i_dev (icache t ! ip) = ROOTDEV" if "bmapped ip s t" for t
    using itree_okD(2)[OF bmapped_shape(3)[OF that]] .
  have entry: "ends E (entry_addr ROOTDEV a k) t (?Q p n)"
    if a: "?Q q (n + 2) a t" and p: "parent p = Some (q, k)" "pos_ok p" for a t p q k n
  proof -
    have st: "bmapped ip s t" and a': "a = tree ip t q" "a \<noteq> 0" "fs_budget E (tree ip t q) (n + 2) (Suc (Suc h)) t"
      using a by auto
    have "held t = {}" using bmapped_fields(2)[OF st] free by simp
    from entry_addr_ok[OF a'(3) bmapped_shape(3)[OF st] this p] a'(1,2)
    show ?thesis using bmapped_trans[OF st _ itree_okD(1)[OF it]] by (auto elim!: ends_mono)
  qed
  consider (d) "bn < NDIRECT" | (i) "\<not> bn < NDIRECT" "bn - NDIRECT < NINDIRECT"
    | (dd) "\<not> bn < NDIRECT" "\<not> bn - NDIRECT < NINDIRECT" by blast
  then show ?thesis
  proof cases
    case d
    with slot[of bn l] show ?thesis by (simp add: bmap_def leaf_def)
  next
    case i
    have "ends E (slot_addr ip NDIRECT) s (\<lambda>a t. ends E
        (bindK (getI ip i_dev) (\<lambda>dev. entry_addr dev a (bn - NDIRECT))) t (?Q (Ind (bn - NDIRECT)) l))"
      by (rule ends_mono[OF slot[of NDIRECT "l + 2"]])
        (use i dev entry[where q = "Slot 11" and n = l and p = "Ind (bn - NDIRECT)"] in \<open>auto simp: getI_def wp\<close>)
    with i show ?thesis by (simp add: bmap_def leaf_def ends_bindK)
  next
    case dd
    let ?b = "bn - NDIRECT - NINDIRECT"
    have lt: "?b div 128 < 128" "?b mod 128 < 128" "?b < D_INDIRECT" using bn by auto
    have 2: "ends E (entry_addr ROOTDEV a (?b mod 128)) t (?Q (Dbl2 (?b div 128) (?b mod 128)) l)"
      if "?Q (Dbl (?b div 128)) (l + 2) a t" for a t
      by (rule entry[OF that]) (use lt in auto)
    have 1: "ends E (entry_addr ROOTDEV a (?b div 128)) t (\<lambda>a t.
        ends E (entry_addr ROOTDEV a (?b mod 128)) t (?Q (Dbl2 (?b div 128) (?b mod 128)) l))"
      if "?Q (Slot 12) (l + 2 + 2) a t" for a t
    proof (rule ends_mono[OF _ 2])
      show "ends E (entry_addr ROOTDEV a (?b div 128)) t (?Q (Dbl (?b div 128)) (l + 2))"
        by (rule entry[where q = "Slot 12", OF that]) (use lt in auto)
    qed
    have "ends E (slot_addr ip 12) s (\<lambda>a t. ends E (bindK (getI ip i_dev) (\<lambda>dev.
        bindK (entry_addr dev a (?b div 128)) (\<lambda>a. entry_addr dev a (?b mod 128)))) t
        (?Q (Dbl2 (?b div 128) (?b mod 128)) l))"
      by (rule ends_mono[OF slot[of 12 "l + 2 + 2"]]) (use dev 1 in \<open>auto simp: getI_def wp\<close>)
    with dd lt show ?thesis by (simp add: bmap_def leaf_def ends_bindK Let_def)
  qed
qed

text \<open>Looking up a block that is there changes nothing, and needs no transaction.\<close>

lemma entry_lookup:
  assumes r: "room l (Suc h) s" and ok: "fs_ok s" and it: "itree_ok ip s" and free: "held s = {}"
    and p: "parent p = Some (q, k)" "pos_ok p" "tree ip s p \<noteq> 0"
  shows "entry_addr ROOTDEV (tree ip s q) k s = Inr (tree ip s p, s)" "tree ip s q \<noteq> 0"
proof -
  have e: "tree ip s p = entry (blk s) (tree ip s q) k"
    using addr_at_parent[OF p(1)] by (simp add: tree_def)
  then show nz: "tree ip s q \<noteq> 0" using p(3) by (auto simp: entry_def split: if_splits)
  have "data_block s (tree ip s q)" using itree_okD(4)[OF it _ nz] parent_table[OF p(1,2)] by blast
  with bread_hold[OF r] free data_block_range(2)[OF ok] p(3) e nz
  show "entry_addr ROOTDEV (tree ip s q) k s = Inr (tree ip s p, s)"
    by (simp add: entry_addr_def fs_bread_def kdefs bdata_def brelse_hold entry_def)
qed

lemma bmap_lookup:
  assumes r: "room l (Suc h) s" and ok: "fs_ok s" and it: "itree_ok ip s" and free: "held s = {}"
    and bn: "bn < MAXFILE" "tree ip s (leaf bn) \<noteq> 0"
  shows "bmap ip bn s = Inr (tree ip s (leaf bn), s)"
proof -
  have slot: "slot_addr ip k s = Inr (tree ip s (Slot k), s)" if "tree ip s (Slot k) \<noteq> 0" for k
    using that by (simp add: slot_addr_def getI_def kdefs tree_def)
  note entry = entry_lookup[OF r ok it free] and dev = itree_okD(2)[OF it] and lf = pos_ok_leaf[OF bn(1)]
  consider (d) "bn < NDIRECT" | (i) "\<not> bn < NDIRECT" "bn - NDIRECT < NINDIRECT"
    | (dd) "\<not> bn < NDIRECT" "\<not> bn - NDIRECT < NINDIRECT" by blast
  then show ?thesis
  proof cases
    case d
    with slot bn show ?thesis by (simp add: bmap_def leaf_def)
  next
    case i
    then have p: "leaf bn = Ind (bn - NDIRECT)" by (simp add: leaf_def)
    with lf bn entry[of "leaf bn" "Slot 11" "bn - NDIRECT"] slot[of 11] i dev show ?thesis
      by (simp add: bmap_def kdefs getI_def)
  next
    case dd
    let ?b = "bn - NDIRECT - NINDIRECT"
    from dd have p: "leaf bn = Dbl2 (?b div 128) (?b mod 128)" by (simp add: leaf_def)
    have lt: "?b < D_INDIRECT" "?b div 128 < 128" using bn by auto
    have e2: "entry_addr ROOTDEV (tree ip s (Dbl (?b div 128))) (?b mod 128) s = Inr (tree ip s (leaf bn), s)"
      "tree ip s (Dbl (?b div 128)) \<noteq> 0"
      using entry[of "leaf bn" "Dbl (?b div 128)" "?b mod 128"] lf bn p by auto
    have e1: "entry_addr ROOTDEV (tree ip s (Slot 12)) (?b div 128) s = Inr (tree ip s (Dbl (?b div 128)), s)"
      "tree ip s (Slot 12) \<noteq> 0"
      using entry[of "Dbl (?b div 128)" "Slot 12" "?b div 128"] e2(2) lt by auto
    show ?thesis
      using dd lt e1 e2 slot[of 12] dev by (simp add: bmap_def kdefs getI_def Let_def)
  qed
qed

end
