(* ===== verification/Rdwr.thy ===== *)
theory Rdwr
  imports Bmap
begin

text \<open>
  Reading and writing an inode's content (\<^verbatim>\<open>stati\<close>, \<^verbatim>\<open>readi\<close>, \<^verbatim>\<open>writei\<close> of \<^verbatim>\<open>fs.c\<close>), with the branches
  for devices and for extent files. \<^verbatim>\<open>uint\<close> values are natural numbers below \<open>2 ^ 32\<close>, the
  wrap-around of \<^verbatim>\<open>off + n\<close> is written out. A read returns, with the result, the bytes stored at
  \<^verbatim>\<open>dst\<close>. For plain files the theory shows that a write is read back, changes no other byte of
  the file and no byte of any other file.
\<close>

section \<open>Code\<close>

record stat =
  st_type :: int
  st_dev :: nat
  st_ino :: nat
  st_nlink :: int
  st_size :: nat
  st_addrs :: "nat list"
  st_numExtents :: nat
  st_extentz :: "extent list"

definition stati :: "nat \<Rightarrow> stat \<Rightarrow> ('e icst_scheme, stat) K" where
  "stati ip st =
     bindK (getI ip (\<lambda>n. n)) (\<lambda>n.
     let st1 = st\<lparr>st_dev := i_dev n, st_ino := i_inum n, st_type := i_type n, st_nlink := i_nlink n,
           st_size := i_size n\<rparr>
     in if i_type n = T_EXTENT \<or> i_type n = 5 then
          if i_numExtents n \<le> NDIRECT then
            ret (st1\<lparr>st_numExtents := i_numExtents n,
              st_extentz := take (i_numExtents n) (i_extentz n) @ drop (i_numExtents n) (st_extentz st1)\<rparr>)
          else stopK (Fault ''extentz'')
        else if i_type n = T_FILE then
          ret (st1\<lparr>st_addrs := take NDIRECT (i_addrs n) @ drop NDIRECT (st_addrs st1)\<rparr>)
        else ret st1)"

definition u32 :: "nat \<Rightarrow> nat" where
  "u32 n = n mod 4294967296"

definition s32 :: "nat \<Rightarrow> int" where
  "s32 n = (if u32 n < 2147483648 then int (u32 n) else int (u32 n) - 4294967296)"

function read_blocks :: "nat \<Rightarrow> nat \<Rightarrow> nat \<Rightarrow> ('e icst_scheme, u8 list) K" where
  "read_blocks ip off n =
     (if n = 0 then ret []
      else
        bindK (bmap ip (off div BSIZE)) (\<lambda>a.
        bindK (getI ip i_dev) (\<lambda>dev.
        bindK (fs_bread dev a) (\<lambda>bp.
        bindK (bdata bp) (\<lambda>d.
        let m = min n (BSIZE - off mod BSIZE) in
        thenK (brelse_spec bp)
        (bindK (read_blocks ip (off + m) (n - m)) (\<lambda>rest.
        ret (slice (off mod BSIZE) m d @ rest))))))))"
  by pat_completeness auto

termination read_blocks
  by (relation "measure (\<lambda>(ip, off, n). n)") auto

declare read_blocks.simps [simp del]

text \<open>One round of the extent loop: the block at \<^verbatim>\<open>lOffset\<close>, up to its first zero byte.
  (\<^verbatim>\<open>strlen\<close> runs past the end of a block that has none; the result is then cut to 512.)\<close>

definition read_extent_block :: "nat \<Rightarrow> ('e icst_scheme, (int \<times> u8 list) option) K" where
  "read_extent_block ip =
     bindK (getI ip (\<lambda>n. (i_dev n, i_lOffset n))) (\<lambda>(dev, lo).
     bindK (bmap ip (nat (lo mod 4294967296))) (\<lambda>a.
     bindK (fs_bread dev a) (\<lambda>bp.
     bindK (bdata bp) (\<lambda>d.
     let str = takeWhile (\<lambda>c. c \<noteq> 0) d; bpSize = min (length str) 512 in
     thenK (setI ip (\<lambda>n. n\<lparr>i_lOffset := i_lOffset n + 1\<rparr>))
     (thenK (brelse_spec bp)
     (ret (Some (int bpSize, take bpSize d))))))))"

definition read_extent :: "nat \<Rightarrow> nat \<Rightarrow> ('e icst_scheme, (int \<times> u8 list) option) K" where
  "read_extent ip i =
     bindK (getI ip (\<lambda>n. i_extentz n)) (\<lambda>es.
     if length es \<le> i then stopK (Fault ''extentz'')
     else if 0 < e_length (es ! i) then read_extent_block ip
     else ret None)"

definition readi :: "nat \<Rightarrow> nat \<Rightarrow> nat \<Rightarrow> ('e icst_scheme, int \<times> u8 list) K" where
  "readi ip off n =
     bindK (getK (\<lambda>s. (icache s ! ip, devsw s))) (\<lambda>(i, sw).
     if i_type i = T_DEV then
       if i_major i < 0 \<or> int NDEV \<le> i_major i then ret (-1, [])
       else (case dev_read (sw ! nat (i_major i)) of
               Some Consoleread \<Rightarrow>
                 bindK (consoleread ip (s32 n)) (\<lambda>(r, cs). ret (r, map of_nat cs))
             | Some Consolewrite \<Rightarrow> stopK (Fault ''devsw'')
             | None \<Rightarrow> ret (-1, []))
     else if i_type i = T_EXTENT then
       if i_lOffset i \<ge> i_sisterblocks i then ret (0, [])
       else
         bindK (forK [nat (i_eOffset i)..<i_numExtents i] (read_extent ip)) (\<lambda>r.
         case r of Some x \<Rightarrow> ret x | None \<Rightarrow> ret (s32 n, []))
     else if off > i_size i \<or> u32 (off + n) < off then ret (-1, [])
     else
       let n = (if u32 (off + n) > i_size i then i_size i - off else n) in
       bindK (read_blocks ip off n) (\<lambda>bs. ret (s32 n, bs)))"

text \<open>The body of the writing loop, for the \<open>m\<close> bytes that go to the block at \<open>off\<close>.\<close>

definition write_chunk :: "nat \<Rightarrow> u8 list \<Rightarrow> nat \<Rightarrow> nat \<Rightarrow> ('e icst_scheme, unit) K" where
  "write_chunk ip src off m =
     bindK (bmap ip (off div BSIZE)) (\<lambda>a.
     bindK (getI ip i_dev) (\<lambda>dev.
     bindK (fs_bread dev a) (\<lambda>bp.
     bindK (bdata bp) (\<lambda>d.
     thenK (set_bdata bp (splice (off mod BSIZE) (take m src) d))
     (thenK (log_write_spec bp)
     (brelse_spec bp))))))"

function write_blocks :: "nat \<Rightarrow> u8 list \<Rightarrow> nat \<Rightarrow> nat \<Rightarrow> ('e icst_scheme, unit) K" where
  "write_blocks ip src off n =
     (if n = 0 then ret ()
      else
        let m = min n (BSIZE - off mod BSIZE) in
        thenK (write_chunk ip src off m)
        (write_blocks ip (drop m src) (off + m) (n - m)))"
  by pat_completeness auto

termination write_blocks
  by (relation "measure (\<lambda>(ip, src, off, n). n)") auto

declare write_blocks.simps [simp del]

text \<open>The extent loop: every round takes the next block of the file. The result is the address
  of the first block and the number of blocks.\<close>

function write_extent :: "nat \<Rightarrow> u8 list \<Rightarrow> nat \<Rightarrow> nat \<Rightarrow> extent \<Rightarrow> ('e icst_scheme, extent) K" where
  "write_extent ip src off n e =
     (if n = 0 then ret e
      else
        bindK (getI ip (\<lambda>i. (i_dev i, i_sisterblocks i))) (\<lambda>(dev, sis).
        bindK (bmap ip (nat (sis mod 4294967296))) (\<lambda>a.
        bindK (fs_bread dev a) (\<lambda>bp.
        thenK (setI ip (\<lambda>i. i\<lparr>i_sisterblocks := i_sisterblocks i + 1\<rparr>))
        (bindK (bdata bp) (\<lambda>d.
        let m = min n (BSIZE - off mod BSIZE) in
        thenK (set_bdata bp (splice (off mod BSIZE) (take m src) d))
        (thenK (log_write_spec bp)
        (thenK (brelse_spec bp)
        (write_extent ip (drop m src) (off + m) (n - m)
          \<lparr>e_length = e_length e + 1, e_start = (if e_length e = 0 then a else e_start e)\<rparr>)))))))))"
  by pat_completeness auto

termination write_extent
  by (relation "measure (\<lambda>(ip, src, off, n, e). n)") auto

declare write_extent.simps [simp del]

definition writei :: "nat \<Rightarrow> u8 list \<Rightarrow> nat \<Rightarrow> nat \<Rightarrow> ('e icst_scheme, int) K" where
  "writei ip src off n =
     bindK (getK (\<lambda>s. (icache s ! ip, devsw s))) (\<lambda>(i, sw).
     if i_type i = T_DEV then
       if i_major i < 0 \<or> int NDEV \<le> i_major i then
         thenK (cprintf (text_of ''Here'' @ [newline, newline] @ text_of '' :('' @ [newline, newline] @ text_of '')'') [])
         (ret (-1))
       else (case dev_write (sw ! nat (i_major i)) of
               Some Consolewrite \<Rightarrow> consolewrite ip (map unat src) (s32 n)
             | Some Consoleread \<Rightarrow> stopK (Fault ''devsw'')
             | None \<Rightarrow>
                 thenK (cprintf (text_of ''Here'' @ [newline, newline] @ text_of '' :('' @ [newline, newline] @ text_of '')'') [])
                 (ret (-1)))
     else if off > i_size i \<or> u32 (off + n) < off then ret (-1)
     else if u32 (off + n) > MAXFILE * BSIZE then ret (-1)
     else if i_type i = T_EXTENT then
       if i_numExtents i > NDIRECT then
         thenK (cprintf (text_of ''You have too many extents. Your extent file is too big and we cannot continue to write. Exiting...'' @ [newline]) [])
         (stopK (Exits ''writei''))
       else
         thenK (setI ip (\<lambda>i. i\<lparr>i_numExtents := i_numExtents i + 1\<rparr>))
         (bindK (write_extent ip src off n \<lparr>e_length = 0, e_start = 0\<rparr>) (\<lambda>e.
         thenK (whenK (n > 0)
           (bindK (getI ip i_numExtents) (\<lambda>k.
            if NDIRECT \<le> k - 1 then stopK (Fault ''extentz'')
            else
              thenK (setI ip (\<lambda>i. i\<lparr>i_extentz := (i_extentz i)[k - 1 := e], i_size := u32 (i_size i + n),
                i_eOffset := 0, i_lOffset := 0\<rparr>))
              (iupdate ip))))
         (ret (s32 n))))
     else
       thenK (write_blocks ip src off n)
       (bindK (getI ip i_size) (\<lambda>sz.
       thenK (whenK (n > 0 \<and> u32 (off + n) > sz)
         (thenK (setI ip (\<lambda>i. i\<lparr>i_size := u32 (off + n)\<rparr>))
         (iupdate ip)))
       (ret (s32 n)))))"

section \<open>The content of a file\<close>

definition file_byte :: "nat \<Rightarrow> 'e icst_scheme \<Rightarrow> nat \<Rightarrow> u8" where
  "file_byte ip s i =
     (let a = tree ip s (leaf (i div BSIZE)) in if a = 0 then 0 else blk s a ! (i mod BSIZE))"

definition file_bytes :: "nat \<Rightarrow> 'e icst_scheme \<Rightarrow> nat \<Rightarrow> nat \<Rightarrow> u8 list" where
  "file_bytes ip s off n = map (file_byte ip s) [off..<off + n]"

definition owned :: "nat \<Rightarrow> 'e icst_scheme \<Rightarrow> nat set" where
  "owned ip s = {a. a \<noteq> 0 \<and> (\<exists>p. pos_ok p \<and> tree ip s p = a)}"

lemma ownedI: "pos_ok p \<Longrightarrow> tree ip s p \<noteq> 0 \<Longrightarrow> tree ip s p \<in> owned ip s"
  by (auto simp: owned_def)

text \<open>\<open>changed ip s t\<close>: between \<open>s\<close> and \<open>t\<close> only the file of \<open>ip\<close> changed: it may have grown, and
  the data in its blocks may be new.\<close>

definition changed :: "nat \<Rightarrow> 'e icst_scheme \<Rightarrow> 'e icst_scheme \<Rightarrow> bool" where
  "changed ip s t \<longleftrightarrow>
     (\<exists>v d l as. t = upd_ino ip (\<lambda>n. n\<lparr>i_addrs := as\<rparr>) (s\<lparr>blk := v, dirty := d, ls_lh := l\<rparr>)) \<and>
     fs_ok t \<and> itree_ok ip t \<and>
     (\<forall>p. pos_ok p \<and> tree ip s p \<noteq> 0 \<longrightarrow> tree ip t p = tree ip s p) \<and>
     (\<forall>x \<in> owned ip t - owned ip s. \<not> data_block s x) \<and>
     (\<forall>x. data_block s x \<and> x \<notin> owned ip s \<longrightarrow> blk t x = blk s x) \<and>
     (\<forall>x. data_block s x \<longrightarrow> data_block t x) \<and>
     (\<forall>x. data_block t x \<and> \<not> data_block s x \<longrightarrow> x \<in> owned ip t) \<and>
     (\<forall>x < sb_bmapstart (fs_sb s). blk t x = blk s x)"

lemma changedD:
  assumes "changed ip s t"
  shows "\<exists>v d l as. t = upd_ino ip (\<lambda>n. n\<lparr>i_addrs := as\<rparr>) (s\<lparr>blk := v, dirty := d, ls_lh := l\<rparr>)"
    "fs_ok t" "itree_ok ip t"
    "pos_ok p \<Longrightarrow> tree ip s p \<noteq> 0 \<Longrightarrow> tree ip t p = tree ip s p"
    "x \<in> owned ip t \<Longrightarrow> x \<notin> owned ip s \<Longrightarrow> \<not> data_block s x"
    "data_block s x \<Longrightarrow> x \<notin> owned ip s \<Longrightarrow> blk t x = blk s x"
    "data_block s x \<Longrightarrow> data_block t x"
    "data_block t x \<Longrightarrow> data_block s x \<or> x \<in> owned ip t"
    "x < sb_bmapstart (fs_sb s) \<Longrightarrow> blk t x = blk s x"
  using assms unfolding changed_def by blast+

lemma changedI:
  assumes "\<exists>v d l as. t = upd_ino ip (\<lambda>n. n\<lparr>i_addrs := as\<rparr>) (s\<lparr>blk := v, dirty := d, ls_lh := l\<rparr>)"
    "fs_ok t" "itree_ok ip t"
    "\<And>p. pos_ok p \<Longrightarrow> tree ip s p \<noteq> 0 \<Longrightarrow> tree ip t p = tree ip s p"
    "\<And>x. x \<in> owned ip t \<Longrightarrow> x \<notin> owned ip s \<Longrightarrow> \<not> data_block s x"
    "\<And>x. data_block s x \<Longrightarrow> x \<notin> owned ip s \<Longrightarrow> blk t x = blk s x"
    "\<And>x. data_block s x \<Longrightarrow> data_block t x"
    "\<And>x. data_block t x \<Longrightarrow> \<not> data_block s x \<Longrightarrow> x \<in> owned ip t"
    "\<And>x. x < sb_bmapstart (fs_sb s) \<Longrightarrow> blk t x = blk s x"
  shows "changed ip s t"
  unfolding changed_def by (intro conjI allI impI ballI; (rule assms(1))?; use assms(2-) in blast)

lemma changed_fields:
  assumes "changed ip s t"
  shows "fs_sb t = fs_sb s" "held t = held s" "dsize t = dsize s" "ptable t = ptable s"
    "devsw t = devsw s" "length (icache t) = length (icache s)"
    "\<exists>as. icache t = (icache s)[ip := (icache s ! ip)\<lparr>i_addrs := as\<rparr>]"
    "curproc t = curproc s"
  using changedD(1)[OF assms] by (auto simp: upd_ino_def)

lemma owned_mono: "changed ip s t \<Longrightarrow> owned ip s \<subseteq> owned ip t"
  using changedD(4) by (fastforce simp: owned_def)

lemma changed_trans:
  assumes st: "changed ip s t" and tu: "changed ip t u" and ip: "ip < length (icache s)"
  shows "changed ip s u"
proof (rule changedI)
  show "\<exists>v d l as. u = upd_ino ip (\<lambda>n. n\<lparr>i_addrs := as\<rparr>) (s\<lparr>blk := v, dirty := d, ls_lh := l\<rparr>)"
    using changedD(1)[OF st] changedD(1)[OF tu] bmapped_shape_trans[OF _ _ ip] by metis
  show "fs_ok u" "itree_ok ip u" using changedD(2,3)[OF tu] .
  show "tree ip u p = tree ip s p" if "pos_ok p" "tree ip s p \<noteq> 0" for p
    using changedD(4)[OF st that] changedD(4)[OF tu that(1)] that by simp
  show "\<not> data_block s x" if "x \<in> owned ip u" "x \<notin> owned ip s" for x
    using changedD(5,7)[OF st] changedD(5)[OF tu] that by blast
  show "blk u x = blk s x" if x: "data_block s x" "x \<notin> owned ip s" for x
    using changedD(5)[OF st] changedD(6)[OF st x] changedD(6)[OF tu changedD(7)[OF st x(1)]] x by metis
  show "data_block u x" if "data_block s x" for x
    using changedD(7)[OF tu changedD(7)[OF st that]] .
  show "x \<in> owned ip u" if "data_block u x" "\<not> data_block s x" for x
    using changedD(8)[OF tu that(1)] changedD(8)[OF st] that(2) owned_mono[OF tu] by blast
  show "blk u x = blk s x" if "x < sb_bmapstart (fs_sb s)" for x
    using changedD(9)[OF st that] changedD(9)[OF tu] changed_fields(1)[OF st] that by simp
qed

lemma bmapped_changed:
  assumes "bmapped ip s t"
  shows "changed ip s t"
proof (rule changedI[OF bmapped_shape[OF assms] bmapped_keep[OF assms]])
  show "\<not> data_block s x" if a: "x \<in> owned ip t" "x \<notin> owned ip s" for x
  proof -
    obtain p where p: "pos_ok p" "tree ip t p = x" "x \<noteq> 0" using a(1) by (auto simp: owned_def)
    have "tree ip s p = 0"
    proof (rule ccontr)
      assume "tree ip s p \<noteq> 0"
      with bmapped_keep[OF assms p(1) this] p a(2) ownedI[OF p(1)] show False by metis
    qed
    with bmapped_new(1)[OF assms p(1)] p show ?thesis by auto
  qed
  show "blk t x = blk s x" if "data_block s x" "x \<notin> owned ip s" for x
  proof (rule bmapped_blk[OF assms that(1)])
    fix p assume "pos_ok p"
    show "tree ip s p \<noteq> x"
      using that data_block_range(1)[OF bmapped_shape(2)[OF assms] bmapped_data[OF assms that(1)]]
        ownedI[OF \<open>pos_ok p\<close>, of ip s] by auto
  qed
  show "x \<in> owned ip t" if "data_block t x" "\<not> data_block s x" for x
    using bmapped_only[OF assms that(1)] that data_block_range(1)[OF bmapped_shape(2)[OF assms] that(1)]
    by (auto simp: owned_def)
qed (use bmapped_data[OF assms] bmapped_low[OF assms] in auto)

lemma changed_refl: "fs_ok s \<Longrightarrow> itree_ok ip s \<Longrightarrow> changed ip s s"
  using bmapped_changed[OF bmapped_refl] .

lemma max_block: "i < MAXFILE * BSIZE \<Longrightarrow> i div BSIZE < MAXFILE"
  by (simp add: less_mult_imp_div_less)

lemma bmapped_byte:
  assumes "bmapped ip s t" "itree_ok ip s" "i < MAXFILE * BSIZE"
  shows "file_byte ip t i = file_byte ip s i"
proof -
  let ?p = "leaf (i div BSIZE)"
  have p: "pos_ok ?p" "\<not> is_table ?p"
    using pos_ok_leaf[OF max_block[OF assms(3)]] leaf_not_table by auto
  show ?thesis
  proof (cases "tree ip s ?p = 0")
    case True
    then show ?thesis
      using bmapped_new(2)[OF assms(1) p(1) True _ p(2)]
      by (auto simp: file_byte_def Let_def zero_block_def)
  next
    case False
    have "blk t (tree ip s ?p) = blk s (tree ip s ?p)"
      using itree_okD(4)[OF assms(2) p(1) False] itree_okD(5)[OF assms(2) p(1) _ False] p(2)
      by (intro bmapped_blk[OF assms(1)]) metis+
    with bmapped_keep[OF assms(1) p(1) False] show ?thesis by (simp add: file_byte_def Let_def)
  qed
qed

text \<open>Storing data in a leaf block.\<close>

lemma leaf_written:
  assumes ok: "fs_ok s" and it: "itree_ok ip s" and bn: "bn < MAXFILE" "tree ip s (leaf bn) \<noteq> 0"
    and d: "length d = BSIZE" and t: "t = lput (tree ip s (leaf bn)) d s"
  shows "changed ip s t" "fs_ok t" "itree_ok ip t"
    "i < MAXFILE * BSIZE \<Longrightarrow> file_byte ip t i = (if i div BSIZE = bn then d ! (i mod BSIZE) else file_byte ip s i)"
proof -
  let ?a = "tree ip s (leaf bn)"
  have p: "pos_ok (leaf bn)" "\<not> is_table (leaf bn)" using pos_ok_leaf[OF bn(1)] leaf_not_table by auto
  note td = itree_okD[OF it]
  have da: "data_block s ?a" using td(4)[OF p(1) bn(2)] .
  then have ge: "dstart (fs_sb s) \<le> ?a" by (simp add: data_block_def)
  have used: "used (fs_sb s) (blk t) x = used (fs_sb s) (blk s) x" if "x < sb_size (fs_sb s)" for x
    using used_lput_other[OF bitmap_out(1)[OF ge] that] by (simp add: t)
  have db: "data_block t x = data_block s x" for x
    using used[of x] by (auto simp: data_block_def t)
  show okt: "fs_ok t"
    using ok used fs_okD(5,6)[OF ok] d by (auto simp: fs_ok_def t)
  have tab: "get_u32 (blk t (tree ip s q)) k = get_u32 (blk s (tree ip s q)) k"
    if "is_table q" "pos_ok q" "tree ip s q \<noteq> 0" for q k
  proof -
    have "tree ip s q \<noteq> ?a" using td(5)[OF that(2) p(1) that(3)] that(1) p(2) by auto
    then show ?thesis by (simp add: t)
  qed
  have same: "tree ip t q = tree ip s q" if "pos_ok q" for q
  proof -
    have as: "i_addrs (icache t ! ip) = i_addrs (icache s ! ip)" by (simp add: t)
    have 1: "entry (blk t) (tree ip s q') k = entry (blk s) (tree ip s q') k" if "is_table q'" "pos_ok q'" for q' k
      using tab[OF that] by (simp add: entry_def)
    show ?thesis
    proof (cases q)
      case (Slot k) with as show ?thesis by (simp add: tree_def)
    next
      case (Ind j) with as 1[of "Slot 11" j] show ?thesis by (simp add: tree_def)
    next
      case (Dbl j) with as 1[of "Slot 12" j] show ?thesis by (simp add: tree_def)
    next
      case (Dbl2 j k)
      with as 1[of "Slot 12" j] 1[of "Dbl j" k] that show ?thesis by (simp add: tree_def)
    qed
  qed
  show it': "itree_ok ip t"
    using it same db unfolding itree_ok_def tree_ok_def tree_def[symmetric]
    by (auto simp: t tree_def[symmetric])
  show "changed ip s t"
  proof (rule changedI[OF _ okt it'])
    show "\<exists>v d l as. t = upd_ino ip (\<lambda>n. n\<lparr>i_addrs := as\<rparr>) (s\<lparr>blk := v, dirty := d, ls_lh := l\<rparr>)"
      using bmapped_shape(1)[OF bmapped_refl[OF ok it]] unfolding t lput_def upd_ino_def
      by (intro exI[of _ "(blk s)(?a := d)"] exI[of _ "insert ?a (dirty s)"]
          exI[of _ "log_absorb (ls_lh s) ?a"] exI[of _ "i_addrs (icache s ! ip)"]) simp
    show "blk t x = blk s x" if "data_block s x" "x \<notin> owned ip s" for x
      using that ownedI[OF p(1) bn(2)] by (auto simp: t)
    show "blk t x = blk s x" if "x < sb_bmapstart (fs_sb s)" for x
      using that ge by (auto simp: t dstart_def)
  qed (use same db in \<open>auto simp: owned_def\<close>)
  show "file_byte ip t i = (if i div BSIZE = bn then d ! (i mod BSIZE) else file_byte ip s i)"
    if i: "i < MAXFILE * BSIZE"
  proof -
    have q: "pos_ok (leaf (i div BSIZE))" using pos_ok_leaf[OF max_block[OF i]] .
    have "tree ip s (leaf (i div BSIZE)) = ?a \<longleftrightarrow> i div BSIZE = bn"
      using td(5)[OF p(1) q bn(2)] leaf_inj by metis
    with bn(2) same[OF q] show ?thesis by (auto simp: file_byte_def Let_def t)
  qed
qed

section \<open>Reading\<close>

lemma length_file_bytes [simp]: "length (file_bytes ip s off n) = n"
  by (simp add: file_bytes_def)

lemma nth_file_bytes [simp]: "i < n \<Longrightarrow> file_bytes ip s off n ! i = file_byte ip s (off + i)"
  by (simp add: file_bytes_def)

lemma file_bytes_split: "m \<le> n \<Longrightarrow> file_bytes ip s off n = file_bytes ip s off m @ file_bytes ip s (off + m) (n - m)"
  unfolding file_bytes_def map_append[symmetric]
  using upt_add_eq_append[of off "off + m" "n - m"] by simp

lemma in_block:
  assumes "k < BSIZE - off mod BSIZE"
  shows "(off + k) div BSIZE = off div BSIZE" "(off + k) mod BSIZE = off mod BSIZE + k"
proof -
  define q r where "q = off div BSIZE" and "r = off mod BSIZE"
  then have o: "off = BSIZE * q + r" "r + k < BSIZE" using assms by auto
  then have e: "off + k = r + k + BSIZE * q" by simp
  show "(off + k) div BSIZE = off div BSIZE" "(off + k) mod BSIZE = off mod BSIZE + k"
    unfolding q_def[symmetric] r_def[symmetric] e using o(2)
    by (simp_all only: div_mult_self2 mod_mult_self2) simp_all
qed

lemma same_block:
  assumes "off \<le> i" "i < off + m" "m \<le> BSIZE - off mod BSIZE"
  shows "i div BSIZE = off div BSIZE"
proof -
  have "i - off < m" using assms(1,2) by linarith
  then have "i - off < BSIZE - off mod BSIZE" using assms(3) by linarith
  from in_block(1)[OF this] assms(1) show ?thesis by simp
qed

lemma slice_file_bytes:
  assumes "m \<le> BSIZE - off mod BSIZE" "tree ip s (leaf (off div BSIZE)) \<noteq> 0"
    "length (blk s (tree ip s (leaf (off div BSIZE)))) = BSIZE"
  shows "slice (off mod BSIZE) m (blk s (tree ip s (leaf (off div BSIZE)))) = file_bytes ip s off m"
proof (rule nth_equalityI)
  have le: "off mod BSIZE + m \<le> BSIZE" using assms(1) mod_less_divisor[of BSIZE off] by linarith
  with assms show len: "length (slice (off mod BSIZE) m (blk s (tree ip s (leaf (off div BSIZE))))) =
    length (file_bytes ip s off m)" by simp
  fix k assume "k < length (slice (off mod BSIZE) m (blk s (tree ip s (leaf (off div BSIZE)))))"
  then have k: "k < m" using len by simp
  then have "k < BSIZE - off mod BSIZE" using assms(1) by simp
  from in_block[OF this] k le assms(2,3)
  show "slice (off mod BSIZE) m (blk s (tree ip s (leaf (off div BSIZE)))) ! k = file_bytes ip s off m ! k"
    by (simp add: nth_slice file_byte_def Let_def)
qed

text \<open>A file without holes up to \<open>n\<close>.\<close>

definition no_hole :: "nat \<Rightarrow> 'e icst_scheme \<Rightarrow> nat \<Rightarrow> nat \<Rightarrow> bool" where
  "no_hole ip s off n \<longleftrightarrow> (\<forall>i. off \<le> i \<and> i < off + n \<longrightarrow> tree ip s (leaf (i div BSIZE)) \<noteq> 0)"

lemma no_hole_rest: "no_hole ip s off n \<Longrightarrow> m \<le> n \<Longrightarrow> no_hole ip s (off + m) (n - m)"
  by (auto simp: no_hole_def)

lemma read_blocks_ok:
  assumes r: "room l (Suc h) s" and ok: "fs_ok s" and it: "itree_ok ip s" and free: "held s = {}"
  shows "off + n \<le> MAXFILE * BSIZE \<Longrightarrow> no_hole ip s off n \<Longrightarrow>
    read_blocks ip off n s = Inr (file_bytes ip s off n, s)"
proof (induction n arbitrary: off rule: less_induct)
  case (less n)
  show ?case
  proof (cases "n = 0")
    case True
    show ?thesis unfolding True by (simp add: read_blocks.simps[of ip off 0] file_bytes_def kdefs)
  next
    case False
    let ?a = "tree ip s (leaf (off div BSIZE))" and ?m = "min n (BSIZE - off mod BSIZE)"
    have a: "?a \<noteq> 0" using less.prems(2) False by (simp add: no_hole_def)
    have bn: "off div BSIZE < MAXFILE" using less.prems(1) False by (intro max_block) simp
    have da: "data_block s ?a" using itree_okD(4)[OF it pos_ok_leaf[OF bn] a] .
    have m: "0 < ?m" "?m \<le> n" "?m \<le> BSIZE - off mod BSIZE" using False by auto
    have "read_blocks ip (off + ?m) (n - ?m) s = Inr (file_bytes ip s (off + ?m) (n - ?m), s)"
      using less.prems m by (intro less.IH no_hole_rest) auto
    moreover have "bmap ip (off div BSIZE) s = Inr (?a, s)" by (rule bmap_lookup[OF r ok it free bn a])
    moreover have "bread_spec ?a s = Inr (?a, hold ?a s)"
      using free data_block_range(2)[OF ok da] by (intro bread_hold[OF r]) auto
    moreover have "slice (off mod BSIZE) ?m (blk s ?a) = file_bytes ip s off ?m"
      by (rule slice_file_bytes[OF m(3) a fs_okD(5)[OF ok]])
    ultimately show ?thesis
      using False itree_okD(2)[OF it] free file_bytes_split[OF m(2), of ip s off]
      by (simp add: read_blocks.simps[of ip off n] kdefs getI_def fs_bread_def bdata_def brelse_hold Let_def)
  qed
qed

section \<open>Writing\<close>

definition nblocks :: "nat \<Rightarrow> nat \<Rightarrow> nat" where
  "nblocks off n = (if n = 0 then 0 else (off + n - 1) div BSIZE - off div BSIZE + 1)"

lemma nblocks_step:
  assumes "0 < n" "m = min n (BSIZE - off mod BSIZE)"
  shows "nblocks off n = Suc (nblocks (off + m) (n - m))"
proof (cases "n \<le> BSIZE - off mod BSIZE")
  case True
  then have "n - 1 < BSIZE - off mod BSIZE" using assms(1) by simp
  from in_block(1)[OF this] have "(off + n - 1) div BSIZE = off div BSIZE" using assms(1) by simp
  with True assms show ?thesis by (simp add: nblocks_def)
next
  case False
  define q r where "q = off div BSIZE" and "r = off mod BSIZE"
  then have o: "off = BSIZE * q + r" "r < BSIZE" by auto
  from False assms have m: "m = BSIZE - r" "m < n" by (auto simp: r_def)
  have "off + m = BSIZE * Suc q" using o m by simp
  then have d: "(off + m) div BSIZE = Suc q" by simp
  have "BSIZE * Suc q \<le> off + n - 1" using \<open>off + m = _\<close> m(2) by simp
  then have "Suc q \<le> (off + n - 1) div BSIZE"
    by (metis div_le_mono nonzero_mult_div_cancel_left zero_neq_numeral)
  with d m(2) show ?thesis using assms(1) by (simp add: nblocks_def q_def[symmetric])
qed

lemma splice_byte:
  assumes "length d = BSIZE" "m \<le> BSIZE - off mod BSIZE" "m \<le> length src" "i div BSIZE = off div BSIZE"
  shows "splice (off mod BSIZE) (take m src) d ! (i mod BSIZE) =
    (if off \<le> i \<and> i < off + m then src ! (i - off) else d ! (i mod BSIZE))"
proof -
  define q r j where "q = off div BSIZE" and "r = off mod BSIZE" and "j = i mod BSIZE"
  then have o: "off = BSIZE * q + r" "i = BSIZE * q + j" "j < BSIZE" "r < BSIZE"
    using assms(4) mult_div_mod_eq[of BSIZE i] by simp_all
  have le: "r + m \<le> BSIZE" using assms(2) o(4) unfolding r_def[symmetric] by linarith
  have "splice r (take m src) d ! j = (if r \<le> j \<and> j < r + m then src ! (j - r) else d ! j)"
    using o le assms(1,3) by (auto simp: nth_splice)
  then show ?thesis unfolding r_def[symmetric] j_def[symmetric] using o by auto
qed

lemma budget_lput:
  assumes "fs_budget E a l h s" "fs_ok (lput a d s)" "held s = {}" "a \<notin> bitmap (fs_sb s)"
  shows "fs_ready E (Suc l) h (lput a d s)"
proof (cases "a \<in> set (ls_lh s)")
  case True
  with assms show ?thesis by (auto simp: fs_budget_def fs_ready_def intro: room_lput_again)
next
  case False
  with assms show ?thesis by (auto simp: fs_budget_def fs_ready_def intro: room_lput)
qed

text \<open>One round of the writing loop, after \<^verbatim>\<open>bmap\<close>.\<close>

lemma write_round:
  assumes b: "fs_budget E a l (Suc (Suc h)) s" and it: "itree_ok ip s" and free: "held s = {}"
    and bn: "bn < MAXFILE" "a = tree ip s (leaf bn)" "a \<noteq> 0" and d: "length d = BSIZE"
  shows "bread_spec a s = Inr (a, hold a s)"
    "log_write_spec a (set_data a d (hold a s)) = Inr ((), hold a (lput a d s))"
    "brelse_spec a (hold a (lput a d s)) = Inr ((), lput a d s)"
    "fs_ready E (Suc l) (Suc (Suc h)) (lput a d s)" "held (lput a d s) = {}"
    "changed ip s (lput a d s)" "itree_ok ip (lput a d s)"
    "i < MAXFILE * BSIZE \<Longrightarrow> file_byte ip (lput a d s) i = (if i div BSIZE = bn then d ! (i mod BSIZE) else file_byte ip s i)"
proof -
  have ok: "fs_ok s" and r: "room (Suc l) (Suc (Suc h)) s"
    using b by (auto simp: fs_budget_def fs_ready_def elim: room_mono split: if_splits)
  note w = leaf_written[OF ok it bn(1) bn(3)[unfolded bn(2)] d refl, folded bn(2)]
  have da: "data_block s a" using itree_okD(4)[OF it pos_ok_leaf[OF bn(1)]] bn by simp
  show "bread_spec a s = Inr (a, hold a s)"
    using free data_block_range(2)[OF ok da] by (intro bread_hold[OF r]) auto
  show "log_write_spec a (set_data a d (hold a s)) = Inr ((), hold a (lput a d s))"
    using log_write_lput[OF room_hold[OF r, of a], of a d] by (simp add: lput_hold)
  show "brelse_spec a (hold a (lput a d s)) = Inr ((), lput a d s)"
    using free by (simp add: brelse_hold)
  show "fs_ready E (Suc l) (Suc (Suc h)) (lput a d s)" by (rule budget_lput[OF b w(2) free data_block_range(3)[OF ok da]])
  show "held (lput a d s) = {}" using free by simp
  show "changed ip s (lput a d s)" "itree_ok ip (lput a d s)" using w(1,3) .
  show "i < MAXFILE * BSIZE \<Longrightarrow> file_byte ip (lput a d s) i =
    (if i div BSIZE = bn then d ! (i mod BSIZE) else file_byte ip s i)" using w(4) .
qed

lemma changed_tree: "changed ip s t \<Longrightarrow> pos_ok p \<Longrightarrow> tree ip s p \<noteq> 0 \<Longrightarrow> tree ip t p \<noteq> 0"
  using changedD(4) by metis

lemma write_chunk_ok:
  assumes r: "fs_ready E (l + 7) (Suc (Suc h)) s" and it: "itree_ok ip s" and free: "held s = {}"
    and bn: "off div BSIZE < MAXFILE" and m: "m \<le> BSIZE - off mod BSIZE" "m \<le> length src"
  shows "ends E (write_chunk ip src off m) s (\<lambda>_ u. changed ip s u \<and> fs_ready E (Suc l) (Suc (Suc h)) u \<and>
    tree ip u (leaf (off div BSIZE)) \<noteq> 0 \<and> (\<forall>i < MAXFILE * BSIZE. file_byte ip u i =
      (if off \<le> i \<and> i < off + m then src ! (i - off) else file_byte ip s i)))" (is "ends _ _ _ (\<lambda>_. ?Q)")
proof -
  let ?bn = "off div BSIZE"
  have post: "ends E (bindK (getI ip i_dev) (\<lambda>dev.
      bindK (fs_bread dev a) (\<lambda>bp. bindK (bdata bp) (\<lambda>d. thenK (set_bdata bp (splice (off mod BSIZE) (take m src) d))
      (thenK (log_write_spec bp) (brelse_spec bp)))))) t (\<lambda>_. ?Q)"
    if st: "bmapped ip s t" and a: "a = tree ip t (leaf ?bn)" "a \<noteq> 0" and bud: "fs_budget E a l (Suc (Suc h)) t" for a t
  proof -
    define d u where "d = splice (off mod BSIZE) (take m src) (blk t a)" and "u = lput a d t"
    have ht: "held t = {}" using bmapped_fields(2)[OF st] free by simp
    have lb: "length (blk t a) = BSIZE" using fs_okD(5)[OF bmapped_shape(2)[OF st]] .
    have ld: "length d = BSIZE" using m lb mod_less_divisor[of BSIZE off] by (simp add: d_def)
    note w = write_round[OF bud bmapped_shape(3)[OF st] ht bn a ld, folded u_def]
    have byte: "file_byte ip u i = (if off \<le> i \<and> i < off + m then src ! (i - off) else file_byte ip s i)"
      if i: "i < MAXFILE * BSIZE" for i
    proof (cases "i div BSIZE = ?bn")
      case True
      have "file_byte ip t i = blk t a ! (i mod BSIZE)" using a True by (simp add: file_byte_def Let_def)
      with splice_byte[OF lb m True] w(8)[OF i] True bmapped_byte[OF st it i]
      show ?thesis by (simp add: d_def)
    next
      case False
      then have "\<not> (off \<le> i \<and> i < off + m)" using same_block m(1) by blast
      with False w(8)[OF i] bmapped_byte[OF st it i] show ?thesis by auto
    qed
    have "?Q u"
      using changed_trans[OF bmapped_changed[OF st] w(6) itree_okD(1)[OF it]] w(4) byte a
        changedD(4)[OF w(6) pos_ok_leaf[OF bn]] by simp
    then show ?thesis
      using itree_okD(2)[OF bmapped_shape(3)[OF st]] w(1,2,3)
      by (simp add: wp getI_def fs_bread_def ends_eq bdata_def set_bdata_def d_def)
  qed
  have "ends E (bmap ip ?bn) s (\<lambda>a t. ends E (bindK (getI ip i_dev) (\<lambda>dev.
      bindK (fs_bread dev a) (\<lambda>bp. bindK (bdata bp) (\<lambda>d. thenK (set_bdata bp (splice (off mod BSIZE) (take m src) d))
      (thenK (log_write_spec bp) (brelse_spec bp)))))) t (\<lambda>_. ?Q))"
    by (rule ends_mono[OF bmap_ok[OF r it free bn]]) (elim conjE, rule post)
  then show ?thesis by (simp only: write_chunk_def ends_bindK)
qed

definition wrote :: "nat \<Rightarrow> u8 list \<Rightarrow> nat \<Rightarrow> nat \<Rightarrow> 'e icst_scheme \<Rightarrow> 'e icst_scheme \<Rightarrow> bool" where
  "wrote ip src off n s t \<longleftrightarrow> changed ip s t \<and> no_hole ip t off n \<and> (\<forall>i < MAXFILE * BSIZE. file_byte ip t i =
     (if off \<le> i \<and> i < off + n then src ! (i - off) else file_byte ip s i))"

lemma wrote_append:
  assumes s: "changed ip s t" "tree ip t (leaf (off div BSIZE)) \<noteq> 0" "\<forall>i < MAXFILE * BSIZE. file_byte ip t i =
      (if off \<le> i \<and> i < off + m then src ! (i - off) else file_byte ip s i)"
    and t: "wrote ip (drop m src) (off + m) (n - m) t u"
    and m: "m \<le> n" "m \<le> BSIZE - off mod BSIZE" "n \<le> length src" and ip: "ip < length (icache s)"
    and bn: "off div BSIZE < MAXFILE"
  shows "wrote ip src off n s u"
  unfolding wrote_def
proof (intro conjI allI impI)
  have tu: "changed ip t u" using t by (simp add: wrote_def)
  show "changed ip s u" by (rule changed_trans[OF s(1) tu ip])
  show "no_hole ip u off n" unfolding no_hole_def
  proof (intro allI impI)
    fix i assume i: "off \<le> i \<and> i < off + n"
    show "tree ip u (leaf (i div BSIZE)) \<noteq> 0"
    proof (cases "off + m \<le> i")
      case True
      with t i m(1) show ?thesis by (simp add: wrote_def no_hole_def)
    next
      case False
      then have "i div BSIZE = off div BSIZE" using same_block[of off i m] i m(2) by simp
      with changed_tree[OF tu pos_ok_leaf[OF bn] s(2)] show ?thesis by simp
    qed
  qed
  fix i assume i: "i < MAXFILE * BSIZE"
  then show "file_byte ip u i = (if off \<le> i \<and> i < off + n then src ! (i - off) else file_byte ip s i)"
    using t s(3)[rule_format, OF i] m by (auto simp: wrote_def add.commute)
qed

lemma write_blocks_ok:
  "fs_ready E (6 * nblocks off n + Suc l) (Suc (Suc h)) s \<Longrightarrow> itree_ok ip s \<Longrightarrow> held s = {} \<Longrightarrow>
   off + n \<le> MAXFILE * BSIZE \<Longrightarrow> n \<le> length src \<Longrightarrow>
   ends E (write_blocks ip src off n) s (\<lambda>_ t. wrote ip src off n s t \<and>
     fs_ready E (Suc l) (Suc (Suc h)) t)"
proof (induction n arbitrary: off src s rule: less_induct)
  case (less n)
  note it = less.prems(2) and free = less.prems(3) and bound = less.prems(4) and len = less.prems(5)
  have ok: "fs_ok s" using less.prems(1) by (simp add: fs_ready_def)
  show ?case
  proof (cases "n = 0")
    case True
    show ?thesis
      using less.prems(1) changed_refl[OF ok it] unfolding True
      by (auto simp: write_blocks.simps[of ip src off 0] nblocks_def no_hole_def wrote_def)
  next
    case False
    define m where "m = min n (BSIZE - off mod BSIZE)"
    define l' where "l' = 6 * nblocks (off + m) (n - m) + l"
    have bn: "off div BSIZE < MAXFILE" using bound False by (intro max_block) simp
    have m: "0 < m" "m \<le> n" "m \<le> BSIZE - off mod BSIZE" using False by (auto simp: m_def)
    have nb: "nblocks off n = Suc (nblocks (off + m) (n - m))"
      using False by (intro nblocks_step) (auto simp: m_def)
    have r: "fs_ready E (l' + 7) (Suc (Suc h)) s"
      using less.prems(1) nb by (simp add: l'_def algebra_simps)
    have rest: "ends E (write_blocks ip (drop m src) (off + m) (n - m)) t (\<lambda>_ u.
        wrote ip src off n s u \<and> fs_ready E (Suc l) (Suc (Suc h)) u)"
      if t: "changed ip s t" "tree ip t (leaf (off div BSIZE)) \<noteq> 0" "\<forall>i < MAXFILE * BSIZE. file_byte ip t i =
          (if off \<le> i \<and> i < off + m then src ! (i - off) else file_byte ip s i)"
        and rt: "fs_ready E (Suc l') (Suc (Suc h)) t" for t
    proof -
      have "ends E (write_blocks ip (drop m src) (off + m) (n - m)) t (\<lambda>_ u.
        wrote ip (drop m src) (off + m) (n - m) t u \<and> fs_ready E (Suc l) (Suc (Suc h)) u)"
        using rt m bound len changed_fields(2)[OF t(1)] free
        by (intro less.IH changedD(3)[OF t(1)]) (auto simp: l'_def)
      then show ?thesis
        using wrote_append[OF t _ m(2,3) len itree_okD(1)[OF it] bn] by (auto elim!: ends_mono)
    qed
    have "m \<le> length src" using m len by simp
    from write_chunk_ok[OF r it free bn m(3) this]
    have "ends E (write_chunk ip src off m) s (\<lambda>_ t. ends E
        (write_blocks ip (drop m src) (off + m) (n - m)) t (\<lambda>_ u.
        wrote ip src off n s u \<and> fs_ready E (Suc l) (Suc (Suc h)) u))"
      by (rule ends_mono) (elim conjE, rule rest)
    then show ?thesis
      using False by (simp add: write_blocks.simps[of ip src off n] ends_thenK m_def[symmetric] Let_def)
  qed
qed

section \<open>Inode blocks and the tree\<close>

lemma tree_upd_ino:
  assumes "i_addrs (f (icache s ! ip)) = i_addrs (icache s ! ip)"
  shows "tree jp (upd_ino ip f s) p = tree jp s p"
proof -
  have "i_addrs ((icache s)[ip := f (icache s ! ip)] ! jp) = i_addrs (icache s ! jp)"
    using assms by (auto simp: nth_update_if)
  then show ?thesis by (simp add: tree_def)
qed

lemma file_byte_upd_ino:
  "i_addrs (f (icache s ! ip)) = i_addrs (icache s ! ip) \<Longrightarrow> file_byte jp (upd_ino ip f s) i = file_byte jp s i"
  by (simp add: file_byte_def tree_upd_ino Let_def)

lemma itree_ok_upd_ino:
  assumes "i_addrs (f (icache s ! ip)) = i_addrs (icache s ! ip)" "i_dev (f (icache s ! ip)) = i_dev (icache s ! ip)"
  shows "itree_ok jp (upd_ino ip f s) = itree_ok jp s"
  using assms by (auto simp: itree_ok_def tree_ok_def nth_update_if)

text \<open>A change to a block below the bit map (an inode block) does not show in any file.\<close>

lemma low_put:
  assumes ok: "fs_ok s" and b: "b < sb_bmapstart (fs_sb s)" and d: "length d = BSIZE" and t: "t = lput b d s"
  shows "fs_ok t" "data_block t x = data_block s x" "itree_ok ip s \<Longrightarrow> itree_ok ip t"
    "itree_ok ip s \<Longrightarrow> pos_ok p \<Longrightarrow> tree ip t p = tree ip s p"
    "itree_ok ip s \<Longrightarrow> i < MAXFILE * BSIZE \<Longrightarrow> file_byte ip t i = file_byte ip s i"
proof -
  have used: "used (fs_sb s) (blk t) x = used (fs_sb s) (blk s) x" if "x < sb_size (fs_sb s)" for x
    using used_lput_other[OF bitmap_out(2)[OF b] that] by (simp add: t)
  show okt: "fs_ok t" using ok used fs_okD(5,6)[OF ok] d by (auto simp: fs_ok_def t)
  show db: "data_block t x = data_block s x" for x using used[of x] by (auto simp: data_block_def t)
  have same: "blk t a = blk s a" if "data_block s a" for a
    using that b by (auto simp: data_block_def dstart_def t)
  have e: "entry (blk t) a k = entry (blk s) a k" if "a = 0 \<or> data_block s a" for a k
    using that same by (auto simp: entry_def)
  show tr: "tree ip t p = tree ip s p" if it: "itree_ok ip s" and p: "pos_ok p" for ip p
  proof -
    note td = itree_okD(4)[OF it, unfolded tree_def]
    have as: "i_addrs (icache t ! ip) = i_addrs (icache s ! ip)" by (simp add: t)
    have 1: "entry (blk t) (addr_at (blk s) (i_addrs (icache s ! ip)) q) k =
        entry (blk s) (addr_at (blk s) (i_addrs (icache s ! ip)) q) k" if "pos_ok q" for q k
      using td[OF that] by (intro e) auto
    show ?thesis
    proof (cases p)
      case (Slot k) with as show ?thesis by (simp add: tree_def)
    next
      case (Ind j) with as 1[of "Slot 11" j] show ?thesis by (simp add: tree_def)
    next
      case (Dbl j) with as 1[of "Slot 12" j] show ?thesis by (simp add: tree_def)
    next
      case (Dbl2 j k)
      with as 1[of "Slot 12" j] 1[of "Dbl j" k] p show ?thesis by (simp add: tree_def)
    qed
  qed
  show "itree_ok ip t" if it: "itree_ok ip s" for ip
    using it tr[OF it] db unfolding itree_ok_def tree_ok_def tree_def[symmetric]
    by (auto simp: t tree_def[symmetric])
  show "file_byte ip t i = file_byte ip s i" if it: "itree_ok ip s" and i: "i < MAXFILE * BSIZE"
  proof -
    have p: "pos_ok (leaf (i div BSIZE))" using pos_ok_leaf[OF max_block[OF i]] .
    show ?thesis
      using tr[OF it p] same[OF itree_okD(4)[OF it p]] by (auto simp: file_byte_def Let_def)
  qed
qed

lemma iblock_low: "fs_ok s \<Longrightarrow> inum < sb_ninodes (fs_sb s) \<Longrightarrow> IBLOCK inum (fs_sb s) < sb_bmapstart (fs_sb s)"
  using div_le_mono[of inum "sb_ninodes (fs_sb s)" IPB] by (simp add: fs_ok_def layout_ok_def IBLOCK_def)

lemma bmapstart_disk: "fs_ok s \<Longrightarrow> sb_bmapstart (fs_sb s) \<le> dsize s"
  by (simp add: fs_ok_def layout_ok_def dstart_def)

lemma ino_readable_fs:
  "fs_ok s \<Longrightarrow> held s = {} \<Longrightarrow> inum < sb_ninodes (fs_sb s) \<Longrightarrow> ino_readable inum s"
  using iblock_low[of s inum] bmapstart_disk[of s] by (simp add: ino_readable_def)

lemma flushed_ok:
  assumes ok: "fs_ok s" "itree_ok ip s" and ino: "i_inum (icache s ! ip) < sb_ninodes (fs_sb s)"
  shows "fs_ok (flushed ip s)" "data_block (flushed ip s) x = data_block s x"
    "itree_ok jp s \<Longrightarrow> itree_ok jp (flushed ip s)"
    "itree_ok jp s \<Longrightarrow> pos_ok p \<Longrightarrow> tree jp (flushed ip s) p = tree jp s p"
    "itree_ok jp s \<Longrightarrow> i < MAXFILE * BSIZE \<Longrightarrow> file_byte jp (flushed ip s) i = file_byte jp s i"
proof -
  have len: "length (put_dinode (blk s (IBLOCK (i_inum (icache s ! ip)) (fs_sb s))) (i_inum (icache s ! ip) mod IPB)
      (dinode_of (icache s ! ip))) = BSIZE"
    using fs_okD(5)[OF ok(1)] itree_okD(3)[OF ok(2)] by (simp add: dinode_of_def)
  note lp = low_put[OF ok(1) iblock_low[OF ok(1) ino] len]
  have f: "flushed ip s = lput (IBLOCK (i_inum (icache s ! ip)) (fs_sb s))
      (put_dinode (blk s (IBLOCK (i_inum (icache s ! ip)) (fs_sb s))) (i_inum (icache s ! ip) mod IPB)
      (dinode_of (icache s ! ip))) s" by (simp add: flushed_def Let_def)
  show "fs_ok (flushed ip s)" "data_block (flushed ip s) x = data_block s x"
    "itree_ok jp s \<Longrightarrow> itree_ok jp (flushed ip s)"
    "itree_ok jp s \<Longrightarrow> pos_ok p \<Longrightarrow> tree jp (flushed ip s) p = tree jp s p"
    "itree_ok jp s \<Longrightarrow> i < MAXFILE * BSIZE \<Longrightarrow> file_byte jp (flushed ip s) i = file_byte jp s i"
    using lp[OF f] by blast+
qed

lemma flushed_fields [simp]:
  "icache (flushed ip s) = icache s" "fs_sb (flushed ip s) = fs_sb s" "held (flushed ip s) = held s"
  "dsize (flushed ip s) = dsize s" "ptable (flushed ip s) = ptable s" "curproc (flushed ip s) = curproc s" "devsw (flushed ip s) = devsw s"
  by (simp_all add: flushed_def Let_def)

section \<open>readi and writei on plain files\<close>

definition plain :: "inode \<Rightarrow> bool" where
  "plain i \<longleftrightarrow> i_type i \<noteq> T_DEV \<and> i_type i \<noteq> T_EXTENT"

lemma u32_small: "n < 4294967296 \<Longrightarrow> u32 n = n"
  by (simp add: u32_def)

lemma s32_small: "n < 2147483648 \<Longrightarrow> s32 n = int n"
  by (simp add: s32_def u32_def)

lemma readi_plain:
  assumes r: "room l (Suc h) s" and ok: "fs_ok s" and it: "itree_ok ip s" and free: "held s = {}"
    and ty: "plain (icache s ! ip)" and sz: "i_size (icache s ! ip) \<le> MAXFILE * BSIZE"
    and off: "off \<le> i_size (icache s ! ip)" "off + n < 4294967296"
    and m: "m = min n (i_size (icache s ! ip) - off)" and dense: "no_hole ip s off m"
  shows "readi ip off n s = Inr ((int m, file_bytes ip s off m), s)"
proof -
  have rd: "read_blocks ip off m s = Inr (file_bytes ip s off m, s)"
    using sz off m by (intro read_blocks_ok[OF r ok it free _ dense]) auto
  have mm: "(if i_size (icache s ! ip) < off + n then i_size (icache s ! ip) - off else n) = m"
    using off m by auto
  have "m < 2147483648" using sz m by simp
  then show ?thesis
    using ty off rd mm
    by (simp add: readi_def kdefs plain_def u32_small s32_small Let_def)
qed

lemma writei_plain:
  assumes r: "fs_ready E (6 * nblocks off n + 1) (Suc (Suc h)) s" and it: "itree_ok ip s" and free: "held s = {}"
    and ty: "plain (icache s ! ip)" and ino: "i_inum (icache s ! ip) < sb_ninodes (fs_sb s)"
    and off: "off \<le> i_size (icache s ! ip)" "off + n \<le> MAXFILE * BSIZE" "n \<le> length src"
  shows "ends E (writei ip src off n) s (\<lambda>r t. r = int n \<and> (\<exists>u. wrote ip src off n s u \<and>
    t = (if n > 0 \<and> off + n > i_size (icache s ! ip)
         then flushed ip (upd_ino ip (\<lambda>i. i\<lparr>i_size := off + n\<rparr>) u) else u) \<and> fs_ready E 0 (Suc (Suc h)) t))"
proof -
  let ?sz = "i_size (icache s ! ip)"
  have small: "off + n < 4294967296" "n < 2147483648" using off by auto
  have post: "ends E (bindK (getI ip i_size) (\<lambda>sz. thenK (whenK (n > 0 \<and> u32 (off + n) > sz)
      (thenK (setI ip (\<lambda>i. i\<lparr>i_size := u32 (off + n)\<rparr>)) (iupdate ip))) (ret (s32 n)))) u
      (\<lambda>r t. r = int n \<and> (\<exists>u. wrote ip src off n s u \<and> t = (if n > 0 \<and> off + n > ?sz
         then flushed ip (upd_ino ip (\<lambda>i. i\<lparr>i_size := off + n\<rparr>) u) else u) \<and> fs_ready E 0 (Suc (Suc h)) t))"
    if w: "wrote ip src off n s u" and ru: "fs_ready E (Suc 0) (Suc (Suc h)) u" for u
  proof -
    have ch: "changed ip s u" using w by (simp add: wrote_def)
    obtain as where ic: "icache u = (icache s)[ip := (icache s ! ip)\<lparr>i_addrs := as\<rparr>]"
      using changed_fields(7)[OF ch] by blast
    have ip: "ip < length (icache s)" using itree_okD(1)[OF it] .
    have sz: "i_size (icache u ! ip) = ?sz" "i_inum (icache u ! ip) = i_inum (icache s ! ip)"
      using ic ip by simp_all
    show ?thesis
    proof (cases "n > 0 \<and> off + n > ?sz")
      case False
      then show ?thesis
        using w ru sz small fs_ready_mono[OF ru, of 0]
        by (auto simp: wp getI_def u32_small s32_small)
    next
      case True
      let ?v = "upd_ino ip (\<lambda>i. i\<lparr>i_size := off + n\<rparr>) u"
      have rv: "room (Suc 0) (Suc (Suc h)) ?v" "fs_ok ?v" using ru by (simp_all add: fs_ready_def)
      have itv: "itree_ok ip ?v" using changedD(3)[OF ch] by (simp add: itree_ok_upd_ino)
      have hv: "held ?v = {}" using changed_fields(2)[OF ch] free by simp
      have inv: "i_inum (icache ?v ! ip) < sb_ninodes (fs_sb ?v)"
        using ino sz changed_fields(1)[OF ch] itree_okD(1)[OF itv] by simp
      have "iupdate ip ?v = Inr ((), flushed ip ?v)"
        by (rule iupdate_ok[OF rv(1) itree_okD(2)[OF itv] ino_readable_fs[OF rv(2) hv inv]])
      moreover have "fs_ready E 0 (Suc (Suc h)) (flushed ip ?v)"
        using flushed_ok(1)[OF rv(2) itv inv] rv(1) hv
        by (auto simp: fs_ready_def flushed_def Let_def intro: room_lput)
      ultimately show ?thesis
        using True w sz small by (auto simp: wp getI_def setI_def u32_small s32_small ends_eq)
    qed
  qed
  have "ends E (write_blocks ip src off n) s (\<lambda>_ t. wrote ip src off n s t \<and> fs_ready E (Suc 0) (Suc (Suc h)) t)"
    using r off by (intro write_blocks_ok[OF _ it free]) auto
  then have "ends E (write_blocks ip src off n) s (\<lambda>_ u. ends E
      (bindK (getI ip i_size) (\<lambda>sz. thenK (whenK (n > 0 \<and> u32 (off + n) > sz)
      (thenK (setI ip (\<lambda>i. i\<lparr>i_size := u32 (off + n)\<rparr>)) (iupdate ip))) (ret (s32 n)))) u
      (\<lambda>r t. r = int n \<and> (\<exists>u. wrote ip src off n s u \<and> t = (if n > 0 \<and> off + n > ?sz
         then flushed ip (upd_ino ip (\<lambda>i. i\<lparr>i_size := off + n\<rparr>) u) else u) \<and> fs_ready E 0 (Suc (Suc h)) t)))"
    by (rule ends_mono) (elim conjE, rule post)
  then show ?thesis
    using ty off small by (simp add: writei_def ends_bindK ends_thenK plain_def u32_small)
qed

section \<open>The whole effect of a write\<close>

text \<open>A tree depends only on its own blocks.\<close>

lemma tree_cong:
  assumes as: "i_addrs (icache t ! jp) = i_addrs (icache s ! jp)" and eq: "\<And>a. a \<in> owned jp s \<Longrightarrow> blk t a = blk s a"
    and p: "pos_ok p"
  shows "tree jp t p = tree jp s p"
proof -
  have 1: "entry (blk t) (addr_at (blk s) (i_addrs (icache s ! jp)) q) k =
      entry (blk s) (addr_at (blk s) (i_addrs (icache s ! jp)) q) k" if "pos_ok q" for q k
    using eq[OF ownedI[OF that]] by (auto simp: entry_def tree_def)
  show ?thesis
  proof (cases p)
    case (Slot k) with as show ?thesis by (simp add: tree_def)
  next
    case (Ind j) with as 1[of "Slot 11" j] show ?thesis by (simp add: tree_def)
  next
    case (Dbl j) with as 1[of "Slot 12" j] show ?thesis by (simp add: tree_def)
  next
    case (Dbl2 j k)
    with as 1[of "Slot 12" j] 1[of "Dbl j" k] p show ?thesis by (simp add: tree_def)
  qed
qed

lemma file_byte_cong:
  assumes "i_addrs (icache t ! jp) = i_addrs (icache s ! jp)" "\<And>a. a \<in> owned jp s \<Longrightarrow> blk t a = blk s a"
    "i < MAXFILE * BSIZE"
  shows "file_byte jp t i = file_byte jp s i"
  using tree_cong[OF assms(1,2) pos_ok_leaf[OF max_block[OF assms(3)]]]
    assms(2)[OF ownedI[OF pos_ok_leaf[OF max_block[OF assms(3)]]]]
  by (simp add: file_byte_def Let_def)

definition same_file :: "nat \<Rightarrow> 'e icst_scheme \<Rightarrow> 'e icst_scheme \<Rightarrow> bool" where
  "same_file jp s t \<longleftrightarrow> icache t ! jp = icache s ! jp \<and> itree_ok jp t \<and> (\<forall>p. pos_ok p \<longrightarrow> tree jp t p = tree jp s p) \<and>
     (\<forall>i < MAXFILE * BSIZE. file_byte jp t i = file_byte jp s i)"

text \<open>A file that shares no block with \<open>ip\<close>'s does not notice a change to it.\<close>

lemma changed_isolated:
  assumes ch: "changed ip s t" and jp: "jp \<noteq> ip" "itree_ok jp s" and dis: "owned ip s \<inter> owned jp s = {}"
  shows "same_file jp s t"
proof -
  obtain as where ic: "icache t = (icache s)[ip := (icache s ! ip)\<lparr>i_addrs := as\<rparr>]"
    using changed_fields(7)[OF ch] by blast
  have same: "icache t ! jp = icache s ! jp" using ic jp(1) by simp
  have eq: "blk t a = blk s a" if a: "a \<in> owned jp s" for a
  proof -
    obtain p where "pos_ok p" "tree jp s p = a" "a \<noteq> 0" using a by (auto simp: owned_def)
    then have "data_block s a" using itree_okD(4)[OF jp(2)] by auto
    moreover have "a \<notin> owned ip s" using a dis by blast
    ultimately show ?thesis by (rule changedD(6)[OF ch])
  qed
  have tr: "tree jp t p = tree jp s p" if "pos_ok p" for p
    by (rule tree_cong[OF _ eq that]) (simp add: same)
  have "tree_ok t (i_addrs (icache t ! jp))"
    unfolding tree_ok_def tree_def[symmetric]
    using itree_okD(3,4,5)[OF jp(2)] tr changedD(7)[OF ch] same by auto
  then have "itree_ok jp t"
    using itree_okD(1,2)[OF jp(2)] same changed_fields(6)[OF ch] by (simp add: itree_ok_def)
  with tr same show ?thesis
    using file_byte_cong[where t = t and jp = jp and s = s, OF _ eq] by (simp add: same_file_def)
qed

lemma same_file_trans: "same_file jp s t \<Longrightarrow> same_file jp t u \<Longrightarrow> same_file jp s u"
  by (simp add: same_file_def)

lemma same_file_upd: "jp \<noteq> ip \<Longrightarrow> itree_ok jp s \<Longrightarrow> same_file jp s (upd_ino ip f s)"
  by (auto simp: same_file_def itree_ok_def tree_ok_def tree_def file_byte_def Let_def)

lemma same_file_flushed:
  assumes "fs_ok s" "itree_ok ip s" "i_inum (icache s ! ip) < sb_ninodes (fs_sb s)" "itree_ok jp s"
  shows "same_file jp s (flushed ip s)"
  using flushed_ok(3,4,5)[OF assms] by (simp add: same_file_def)

definition write_effect :: "nat \<Rightarrow> u8 list \<Rightarrow> nat \<Rightarrow> nat \<Rightarrow> 'e icst_scheme \<Rightarrow> 'e icst_scheme \<Rightarrow> bool" where
  "write_effect ip src off n s t \<longleftrightarrow> itree_ok ip t \<and> held t = {} \<and> fs_sb t = fs_sb s \<and> no_hole ip t off n \<and>
     (\<forall>p. pos_ok p \<and> tree ip s p \<noteq> 0 \<longrightarrow> tree ip t p = tree ip s p) \<and>
     (\<forall>i < MAXFILE * BSIZE. file_byte ip t i =
        (if off \<le> i \<and> i < off + n then src ! (i - off) else file_byte ip s i)) \<and>
     (\<exists>as. icache t = (icache s)[ip := (icache s ! ip)\<lparr>i_addrs := as, i_size := max (i_size (icache s ! ip)) (off + n)\<rparr>]) \<and>
     (\<forall>jp. jp \<noteq> ip \<and> itree_ok jp s \<and> owned ip s \<inter> owned jp s = {} \<longrightarrow> same_file jp s t)"

lemma write_effectI:
  assumes w: "wrote ip src off n s u" and it: "itree_ok ip s" and free: "held s = {}" and off: "off \<le> i_size (icache s ! ip)"
    and ino: "i_inum (icache s ! ip) < sb_ninodes (fs_sb s)" and bound: "off + n \<le> MAXFILE * BSIZE"
    and t: "t = (if n > 0 \<and> off + n > i_size (icache s ! ip)
         then flushed ip (upd_ino ip (\<lambda>i. i\<lparr>i_size := off + n\<rparr>) u) else u)"
  shows "write_effect ip src off n s t"
proof -
  let ?sz = "i_size (icache s ! ip)" and ?v = "upd_ino ip (\<lambda>i. i\<lparr>i_size := off + n\<rparr>) u"
  have ch: "changed ip s u" using w by (simp add: wrote_def)
  obtain as where ic: "icache u = (icache s)[ip := (icache s ! ip)\<lparr>i_addrs := as\<rparr>]"
    using changed_fields(7)[OF ch] by blast
  have ip: "ip < length (icache s)" using itree_okD(1)[OF it] .
  have v: "fs_ok ?v" "itree_ok ip ?v" "i_inum (icache ?v ! ip) < sb_ninodes (fs_sb ?v)"
    using changedD(2,3)[OF ch] ino ic ip changed_fields(1)[OF ch] by (simp_all add: itree_ok_upd_ino)
  note fl = flushed_ok[OF v]
  have tr: "tree ip t p = tree ip u p" if "pos_ok p" for p
    using fl(4)[OF v(2) that] by (simp add: t tree_upd_ino)
  have bytes: "file_byte ip t i = file_byte ip u i" if "i < MAXFILE * BSIZE" for i
    using fl(5)[OF v(2) that] by (simp add: t file_byte_upd_ino)
  have iso: "same_file jp s t" if jp: "jp \<noteq> ip" "itree_ok jp s" "owned ip s \<inter> owned jp s = {}" for jp
  proof -
    have 1: "same_file jp s u" by (rule changed_isolated[OF ch jp])
    then have "itree_ok jp u" by (simp add: same_file_def)
    from same_file_upd[OF jp(1) this] have 2: "same_file jp u ?v" .
    then have "itree_ok jp ?v" by (simp add: same_file_def)
    from same_file_flushed[OF v this] 1 2 show ?thesis by (auto simp: t intro: same_file_trans)
  qed
  have cache: "icache t = (icache s)[ip := (icache s ! ip)\<lparr>i_addrs := as, i_size := max ?sz (off + n)\<rparr>]"
    using ic ip off by (auto simp: t max_def)
  have "itree_ok ip t" using fl(3)[OF v(2)] changedD(3)[OF ch] by (simp add: t)
  moreover have "no_hole ip t off n"
    using w tr[OF pos_ok_leaf[OF max_block]] bound by (auto simp: wrote_def no_hole_def)
  ultimately show ?thesis
    unfolding write_effect_def
    using changed_fields(1,2)[OF ch] free tr bytes iso cache changedD(4)[OF ch] w
    by (auto simp: wrote_def t)
qed

end
