(* ===== verification/CString.thy ===== *)
theory CString
  imports Xv6_Prelude
begin

text \<open>
  The kernel's memory and string routines (\<^verbatim>\<open>string.c\<close>). Memory is a function from addresses
  to bytes; the routines that only read through their pointers take a pointer as the
  function from an offset to the byte found there. The theory shows that the two branches
  of \<^verbatim>\<open>memset\<close> agree, that \<^verbatim>\<open>memmove\<close> copies as if through a snapshot for every overlap,
  and what the bounded string routines compare, copy and terminate.
\<close>

type_synonym mem = "nat \<Rightarrow> u8"
type_synonym cptr = "nat \<Rightarrow> u8"

section \<open>Definitions\<close>

text \<open>\<^verbatim>\<open>stosb\<close> and \<^verbatim>\<open>stosl\<close> are the string stores of \<^verbatim>\<open>x86.h\<close>: a byte or a word, \<open>n\<close> times.\<close>

primrec stosb :: "mem \<Rightarrow> nat \<Rightarrow> u8 \<Rightarrow> nat \<Rightarrow> mem" where
  "stosb m a b 0 = m"
| "stosb m a b (Suc n) = stosb (m(a := b)) (a + 1) b n"

definition store32 :: "mem \<Rightarrow> nat \<Rightarrow> 32 word \<Rightarrow> mem" where
  "store32 m a w =
     m(a := ucast w, a + 1 := ucast (drop_bit 8 w),
       a + 2 := ucast (drop_bit 16 w), a + 3 := ucast (drop_bit 24 w))"

primrec stosl :: "mem \<Rightarrow> nat \<Rightarrow> 32 word \<Rightarrow> nat \<Rightarrow> mem" where
  "stosl m a w 0 = m"
| "stosl m a w (Suc n) = stosl (store32 m a w) (a + 4) w n"

definition memset :: "mem \<Rightarrow> nat \<Rightarrow> 32 word \<Rightarrow> nat \<Rightarrow> mem" where
  "memset m dst c n =
     (if dst mod 4 = 0 \<and> n mod 4 = 0 then
        let c = c AND 0xFF
        in stosl m dst (push_bit 24 c OR push_bit 16 c OR push_bit 8 c OR c) (n div 4)
      else stosb m dst (ucast c) n)"

fun memcmp :: "cptr \<Rightarrow> cptr \<Rightarrow> nat \<Rightarrow> int" where
  "memcmp s1 s2 0 = 0"
| "memcmp s1 s2 (Suc n) =
     (if s1 0 \<noteq> s2 0 then uint (s1 0) - uint (s2 0)
      else memcmp (\<lambda>i. s1 (i + 1)) (\<lambda>i. s2 (i + 1)) n)"

text \<open>The two loops of \<^verbatim>\<open>memmove\<close>: downwards from the ends, or upwards.\<close>

primrec move_down :: "mem \<Rightarrow> nat \<Rightarrow> nat \<Rightarrow> nat \<Rightarrow> mem" where
  "move_down m d s 0 = m"
| "move_down m d s (Suc n) = move_down (m(d + n := m (s + n))) d s n"

primrec move_up :: "mem \<Rightarrow> nat \<Rightarrow> nat \<Rightarrow> nat \<Rightarrow> mem" where
  "move_up m d s 0 = m"
| "move_up m d s (Suc n) = move_up (m(d := m s)) (d + 1) (s + 1) n"

definition memmove :: "mem \<Rightarrow> nat \<Rightarrow> nat \<Rightarrow> nat \<Rightarrow> mem" where
  "memmove m dst src n =
     (if src < dst \<and> src + n > dst then move_down m dst src n else move_up m dst src n)"

definition memcpy :: "mem \<Rightarrow> nat \<Rightarrow> nat \<Rightarrow> nat \<Rightarrow> mem" where
  "memcpy m dst src n = memmove m dst src n"

fun strncmp :: "cptr \<Rightarrow> cptr \<Rightarrow> nat \<Rightarrow> int" where
  "strncmp p q 0 = 0"
| "strncmp p q (Suc n) =
     (if p 0 \<noteq> 0 \<and> p 0 = q 0 then strncmp (\<lambda>i. p (i + 1)) (\<lambda>i. q (i + 1)) n
      else uint (p 0) - uint (q 0))"

primrec pad0 :: "cptr \<Rightarrow> nat \<Rightarrow> nat \<Rightarrow> cptr" where
  "pad0 s i 0 = s"
| "pad0 s i (Suc n) = pad0 (s(i := 0)) (i + 1) n"

primrec strncpy_at :: "cptr \<Rightarrow> cptr \<Rightarrow> nat \<Rightarrow> nat \<Rightarrow> cptr" where
  "strncpy_at s t i 0 = s"
| "strncpy_at s t i (Suc n) =
     (if t i \<noteq> 0 then strncpy_at (s(i := t i)) t (i + 1) n
      else pad0 (s(i := t i)) (i + 1) n)"

definition strncpy :: "cptr \<Rightarrow> cptr \<Rightarrow> int \<Rightarrow> cptr" where
  "strncpy s t n = strncpy_at s t 0 (nat n)"

primrec safestrcpy_at :: "cptr \<Rightarrow> cptr \<Rightarrow> nat \<Rightarrow> nat \<Rightarrow> cptr" where
  "safestrcpy_at s t i 0 = s(i := 0)"
| "safestrcpy_at s t i (Suc n) =
     (if t i \<noteq> 0 then safestrcpy_at (s(i := t i)) t (i + 1) n
      else (s(i := t i))(i + 1 := 0))"

definition safestrcpy :: "cptr \<Rightarrow> cptr \<Rightarrow> int \<Rightarrow> cptr" where
  "safestrcpy s t n = (if n \<le> 0 then s else safestrcpy_at s t 0 (nat (n - 1)))"

partial_function (option) strlen_at :: "cptr \<Rightarrow> nat \<Rightarrow> nat option" where
  "strlen_at s n = (if s n = 0 then Some n else strlen_at s (n + 1))"

definition strlen :: "cptr \<Rightarrow> nat option" where
  "strlen s = strlen_at s 0"

text \<open>A byte list seen through a pointer: the bytes, then zeros (its terminator).\<close>

definition cstr :: "u8 list \<Rightarrow> cptr" where
  "cstr xs i = (if i < length xs then xs ! i else 0)"

section \<open>memset, memmove and memcmp\<close>

lemma stosb_apply: "stosb m a b n x = (if a \<le> x \<and> x < a + n then b else m x)"
  by (induction n arbitrary: m a) auto

lemma splat_byte:
  fixes c :: "32 word"
  defines "d \<equiv> c AND 0xFF"
  assumes w: "w = push_bit 24 d OR push_bit 16 d OR push_bit 8 d OR d"
  shows "(ucast w :: u8) = ucast c" "(ucast (drop_bit 8 w) :: u8) = ucast c"
    "(ucast (drop_bit 16 w) :: u8) = ucast c" "(ucast (drop_bit 24 w) :: u8) = ucast c"
proof -
  have mask: "(0xFF :: 32 word) = mask 8" by (simp add: mask_eq_exp_minus_1)
  show "(ucast w :: u8) = ucast c" "(ucast (drop_bit 8 w) :: u8) = ucast c"
    "(ucast (drop_bit 16 w) :: u8) = ucast c" "(ucast (drop_bit 24 w) :: u8) = ucast c"
    unfolding w d_def mask
    by (rule bit_word_eqI, auto simp: bit_simps)+
qed

lemma stosl_apply:
  assumes "ucast w = b" "ucast (drop_bit 8 w) = b" "ucast (drop_bit 16 w) = b"
    "ucast (drop_bit 24 w) = b"
  shows "stosl m a w n x = (if a \<le> x \<and> x < a + 4 * n then b else m x)"
proof (induction n arbitrary: m a)
  case (Suc n)
  show ?case
    unfolding stosl.simps(2) Suc.IH store32_def assms by auto
qed auto

text \<open>The word-at-a-time branch stores the same bytes as the byte branch.\<close>

lemma memset_apply:
  "memset m dst c n x = (if dst \<le> x \<and> x < dst + n then ucast c else m x)"
proof (cases "dst mod 4 = 0 \<and> n mod 4 = 0")
  case True
  define w where "w = (let d = c AND 0xFF
    in push_bit 24 d OR push_bit 16 d OR push_bit 8 d OR d)"
  have "memset m dst c n x = stosl m dst w (n div 4) x"
    using True by (simp only: memset_def w_def Let_def) simp
  also have "\<dots> = (if dst \<le> x \<and> x < dst + 4 * (n div 4) then ucast c else m x)"
    by (intro stosl_apply splat_byte[where w = w]) (simp_all only: w_def Let_def)
  also have "4 * (n div 4) = n" using True by auto
  finally show ?thesis .
next
  case False
  then show ?thesis by (simp only: memset_def if_False stosb_apply)
qed

lemma move_up_apply:
  "d \<le> s \<or> s + n \<le> d \<Longrightarrow> move_up m d s n x = (if d \<le> x \<and> x < d + n then m (s + (x - d)) else m x)"
proof (induction n arbitrary: m d s x)
  case (Suc n)
  then have "d + 1 \<le> s + 1 \<or> s + 1 + n \<le> d + 1" by auto
  note IH = Suc.IH[OF this, of "m(d := m s)"]
  show ?case
  proof (cases "x = d")
    case True
    then show ?thesis by (simp add: IH[unfolded Suc_eq_plus1[symmetric]])
  next
    case False
    then show ?thesis using Suc.prems
      by (auto simp: IH[unfolded Suc_eq_plus1[symmetric]] Suc_le_eq Suc_diff_Suc)
  qed
qed auto

lemma move_down_apply:
  "s \<le> d \<Longrightarrow> move_down m d s n x = (if d \<le> x \<and> x < d + n then m (s + (x - d)) else m x)"
proof (induction n arbitrary: m x)
  case (Suc n)
  show ?case
  proof (cases "x = d + n")
    case True
    then show ?thesis by (simp add: Suc.IH[OF Suc.prems])
  next
    case False
    then show ?thesis using Suc.prems by (auto simp: Suc.IH[OF Suc.prems])
  qed
qed auto

lemma memmove_apply:
  "memmove m dst src n x = (if dst \<le> x \<and> x < dst + n then m (src + (x - dst)) else m x)"
  by (auto simp: memmove_def move_up_apply move_down_apply)

lemma all_less_Suc: "(\<forall>i < Suc n. P i) \<longleftrightarrow> P 0 \<and> (\<forall>i < n. P (Suc i))"
  using less_Suc_eq_0_disj by auto

lemma memcmp_zero_iff: "memcmp s t n = 0 \<longleftrightarrow> (\<forall>i < n. s i = t i)"
  by (induction s t n rule: memcmp.induct) (auto simp: all_less_Suc word_uint_eq_iff)

section \<open>String routines\<close>

text \<open>Two strings agree up to \<open>n\<close> characters, the terminator included.\<close>

definition same_upto :: "nat \<Rightarrow> cptr \<Rightarrow> cptr \<Rightarrow> bool" where
  "same_upto n p q \<longleftrightarrow> (\<forall>i < n. (\<forall>j < i. p j \<noteq> 0) \<longrightarrow> p i = q i)"

lemma same_upto_0 [simp]: "same_upto 0 p q"
  by (simp add: same_upto_def)

lemma same_upto_Suc:
  "same_upto (Suc n) p q \<longleftrightarrow>
   p 0 = q 0 \<and> (p 0 \<noteq> 0 \<longrightarrow> same_upto n (\<lambda>i. p (Suc i)) (\<lambda>i. q (Suc i)))"
  unfolding same_upto_def all_less_Suc by (auto simp: all_less_Suc)

lemma strncmp_zero_iff: "strncmp p q n = 0 \<longleftrightarrow> same_upto n p q"
  by (induction p q n rule: strncmp.induct) (auto simp: same_upto_Suc word_uint_eq_iff)

lemma strncmp_bound: "\<bar>strncmp p q n\<bar> < 256"
proof (induction p q n rule: strncmp.induct)
  case (2 p q n)
  have "uint (p 0) < 256" "uint (q 0) < 256" "0 \<le> uint (p 0)" "0 \<le> uint (q 0)"
    using uint_bounded[of "p 0"] uint_bounded[of "q 0"] by simp_all
  then have "\<bar>uint (p 0) - uint (q 0)\<bar> < 256" by linarith
  with 2 show ?case by auto
qed simp

lemma pad0_apply: "pad0 s i n x = (if i \<le> x \<and> x < i + n then 0 else s x)"
  by (induction n arbitrary: s i) auto

lemma strncpy_at_apply:
  "strncpy_at s t i n x =
     (if i \<le> x \<and> x < i + n
      then if \<forall>j. i \<le> j \<and> j < x \<longrightarrow> t j \<noteq> 0 then t x else 0
      else s x)"
proof (induction n arbitrary: s i)
  case (Suc n)
  show ?case
  proof (cases "t i = 0")
    case True
    then show ?thesis by (auto simp: pad0_apply le_eq_less_or_eq)
  next
    case False
    then have "(\<forall>j. i \<le> j \<and> j < x \<longrightarrow> t j \<noteq> 0) \<longleftrightarrow> (\<forall>j. Suc i \<le> j \<and> j < x \<longrightarrow> t j \<noteq> 0)"
      by (metis Suc_leD le_eq_less_or_eq Suc_leI)
    with False show ?thesis by (auto simp: Suc.IH)
  qed
qed auto

lemma strncpy_apply:
  "strncpy s t n x =
     (if int x < n then if \<forall>j < x. t j \<noteq> 0 then t x else 0 else s x)"
  by (auto simp: strncpy_def strncpy_at_apply)

lemma safestrcpy_at_result:
  "\<exists>k. i \<le> k \<and> k \<le> i + n \<and> safestrcpy_at s t i n k = 0 \<and> (k < i + n \<longrightarrow> t k = 0) \<and>
       (\<forall>j. i \<le> j \<and> j < k \<longrightarrow> safestrcpy_at s t i n j = t j \<and> t j \<noteq> 0) \<and>
       (\<forall>j. j < i \<or> i + n < j \<longrightarrow> safestrcpy_at s t i n j = s j)"
proof (induction n arbitrary: s i)
  case 0
  show ?case by (rule exI[of _ i]) auto
next
  case (Suc n)
  show ?case
  proof (cases "t i = 0")
    case True
    then show ?thesis by (intro exI[of _ i]) auto
  next
    case False
    let ?r = "safestrcpy_at (s(i := t i)) t (Suc i) n"
    from Suc.IH[of "Suc i" "s(i := t i)"] obtain k where
      k: "Suc i \<le> k" "k \<le> Suc i + n" "?r k = 0" "k < Suc i + n \<longrightarrow> t k = 0"
      and copied: "\<And>j. Suc i \<le> j \<Longrightarrow> j < k \<Longrightarrow> ?r j = t j \<and> t j \<noteq> 0"
      and rest: "\<And>j. j < Suc i \<or> Suc i + n < j \<Longrightarrow> ?r j = (s(i := t i)) j"
      by blast
    have "?r j = t j \<and> t j \<noteq> 0" if "i \<le> j" "j < k" for j
      using that copied[of j] rest[of i] False by (cases "j = i") auto
    moreover have "?r j = s j" if "j < i \<or> i + Suc n < j" for j
      using that rest[of j] by auto
    ultimately show ?thesis
      using k False by (intro exI[of _ k]) auto
  qed
qed

lemma strlen_at_least:
  "s k = 0 \<Longrightarrow> n \<le> k \<Longrightarrow> (\<forall>j. n \<le> j \<and> j < k \<longrightarrow> s j \<noteq> 0) \<Longrightarrow> strlen_at s n = Some k"
proof (induction "k - n" arbitrary: n)
  case 0
  then show ?case by (subst strlen_at.simps) auto
next
  case (Suc d)
  then have "strlen_at s (n + 1) = Some k" by (intro Suc.hyps(1)) auto
  with Suc.prems Suc.hyps(2) show ?case by (subst strlen_at.simps) auto
qed

lemma strlen_cstr: "0 \<notin> set xs \<Longrightarrow> strlen (cstr xs) = Some (length xs)"
  unfolding strlen_def by (rule strlen_at_least) (auto simp: cstr_def in_set_conv_nth)

section \<open>Properties\<close>

text \<open>(C5) \<^verbatim>\<open>memmove\<close> copies the \<open>n\<close> bytes that were at \<open>src\<close> to \<open>dst\<close> and changes no other byte,
  also when the two areas overlap in either direction.\<close>

theorem memmove_correct:
  "memmove m dst src n x = (if dst \<le> x \<and> x < dst + n then m (src + (x - dst)) else m x)"
  by (rule memmove_apply)

text \<open>(C6) \<^verbatim>\<open>memset\<close> stores the low byte of \<open>c\<close> in the \<open>n\<close> bytes from \<open>dst\<close> and nowhere else, on the
  word-wise path and on the byte-wise path.\<close>

theorem memset_correct:
  "memset m dst c n x = (if dst \<le> x \<and> x < dst + n then ucast c else m x)"
  by (rule memset_apply)

end
