(* ===== verification/Dir.thy ===== *)
theory Dir
  imports Rdwr CString
begin

text \<open>
  Directories (\<^verbatim>\<open>namecmp\<close>, \<^verbatim>\<open>dirlookup\<close>, \<^verbatim>\<open>dirlink\<close> of \<^verbatim>\<open>fs.c\<close>): a directory is a file of 16-byte entries,
  an entry with inode number 0 is free. Names are read through a pointer (\<open>cptr\<close>), as in
  \<^verbatim>\<open>string.c\<close>. The theory shows that a lookup returns the first entry with the name and that
  an entry that was linked is found, and no other lookup changes.
\<close>

section \<open>Code\<close>

definition namecmp :: "cptr \<Rightarrow> cptr \<Rightarrow> int" where
  "namecmp s t = strncmp s t DIRSIZ"

abbreviation DESIZE :: nat where "DESIZE \<equiv> 16"

text \<open>The offsets that the loops over a directory of \<open>size\<close> bytes visit.\<close>

definition dir_offsets :: "nat \<Rightarrow> nat list" where
  "dir_offsets sz = map (\<lambda>k. k * DESIZE) [0..<(sz + (DESIZE - 1)) div DESIZE]"

definition read_dirent :: "string \<Rightarrow> nat \<Rightarrow> nat \<Rightarrow> ('e icst_scheme, dirent) K" where
  "read_dirent msg dp off =
     bindK (readi dp off DESIZE) (\<lambda>(r, bs).
     if r \<noteq> int DESIZE then panic msg else ret (dec_dirent bs))"

definition lookup_at :: "nat \<Rightarrow> cptr \<Rightarrow> nat \<Rightarrow> ('e icst_scheme, (nat \<times> nat) option) K" where
  "lookup_at dp name off =
     bindK (read_dirent ''dirlookup read'' dp off) (\<lambda>de.
     if de_inum de = 0 then ret None
     else if namecmp name (cstr (de_name de)) = 0 then
       bindK (getI dp i_dev) (\<lambda>dev.
       bindK (iget dev (de_inum de)) (\<lambda>ip.
       ret (Some (ip, off))))
     else ret None)"

definition dirlookup :: "nat \<Rightarrow> cptr \<Rightarrow> ('e icst_scheme, (nat \<times> nat) option) K" where
  "dirlookup dp name =
     bindK (getI dp (\<lambda>n. (i_type n, i_size n))) (\<lambda>(ty, sz).
     if ty \<noteq> T_DIR then panic ''dirlookup not DIR''
     else forK (dir_offsets sz) (lookup_at dp name))"

definition empty_at :: "nat \<Rightarrow> nat \<Rightarrow> ('e icst_scheme, nat option) K" where
  "empty_at dp off =
     bindK (read_dirent ''dirlink read'' dp off) (\<lambda>de.
     ret (if de_inum de = 0 then Some off else None))"

definition new_dirent :: "cptr \<Rightarrow> nat \<Rightarrow> dirent" where
  "new_dirent name inum =
     \<lparr>de_inum = inum mod 65536, de_name = map (strncpy (\<lambda>_. 0) name (int DIRSIZ)) [0..<DIRSIZ]\<rparr>"

definition dirlink :: "nat \<Rightarrow> cptr \<Rightarrow> nat \<Rightarrow> ('e icst_scheme, int) K" where
  "dirlink dp name inum =
     bindK (dirlookup dp name) (\<lambda>found.
     case found of
       Some (ip, _) \<Rightarrow> thenK (iput ip) (ret (-1))
     | None \<Rightarrow>
         bindK (getI dp i_size) (\<lambda>sz.
         bindK (forK (dir_offsets sz) (empty_at dp)) (\<lambda>r.
         let off = (case r of Some off \<Rightarrow> off | None \<Rightarrow> length (dir_offsets sz) * DESIZE) in
         bindK (writei dp (enc_dirent (new_dirent name inum)) off DESIZE) (\<lambda>w.
         if w \<noteq> int DESIZE then panic ''dirlink'' else ret 0))))"

section \<open>Lookup\<close>

definition dent :: "nat \<Rightarrow> 'e icst_scheme \<Rightarrow> nat \<Rightarrow> dirent" where
  "dent dp s k = dec_dirent (file_bytes dp s (k * DESIZE) DESIZE)"

definition matches :: "cptr \<Rightarrow> dirent \<Rightarrow> bool" where
  "matches name de \<longleftrightarrow> de_inum de \<noteq> 0 \<and> same_upto DIRSIZ name (cstr (de_name de))"

text \<open>A directory whose entries can be read.\<close>

definition dir_ok :: "nat \<Rightarrow> 'e icst_scheme \<Rightarrow> bool" where
  "dir_ok dp s \<longleftrightarrow> itree_ok dp s \<and> i_type (icache s ! dp) = T_DIR \<and>
     i_size (icache s ! dp) mod DESIZE = 0 \<and> i_size (icache s ! dp) \<le> MAXFILE * BSIZE \<and>
     no_hole dp s 0 (i_size (icache s ! dp))"

definition ndents :: "nat \<Rightarrow> 'e icst_scheme \<Rightarrow> nat" where
  "ndents dp s = i_size (icache s ! dp) div DESIZE"

definition find_name :: "nat \<Rightarrow> 'e icst_scheme \<Rightarrow> cptr \<Rightarrow> nat option" where
  "find_name dp s name = find (\<lambda>k. matches name (dent dp s k)) [0..<ndents dp s]"

lemma dir_offsets_eq: "sz mod DESIZE = 0 \<Longrightarrow> dir_offsets sz = map (\<lambda>k. k * DESIZE) [0..<sz div DESIZE]"
proof -
  assume "sz mod DESIZE = 0"
  then obtain q where "sz = DESIZE * q" by auto
  then show ?thesis by (simp add: dir_offsets_def)
qed

lemma dir_size: "dir_ok dp s \<Longrightarrow> i_size (icache s ! dp) = ndents dp s * DESIZE"
  by (auto simp: dir_ok_def ndents_def)

lemma read_dirent_ok:
  assumes r: "room l (Suc h) s" "fs_ok s" "held s = {}" and d: "dir_ok dp s" and k: "k < ndents dp s"
  shows "read_dirent msg dp (k * DESIZE) s = Inr (dent dp s k, s)"
proof -
  have sz: "i_size (icache s ! dp) \<le> MAXFILE * BSIZE" "itree_ok dp s" "plain (icache s ! dp)"
    using d by (auto simp: dir_ok_def plain_def)
  have le: "k * DESIZE + DESIZE \<le> i_size (icache s ! dp)" using k dir_size[OF d] by simp
  then have "no_hole dp s (k * DESIZE) DESIZE" using d by (auto simp: dir_ok_def no_hole_def)
  then have "readi dp (k * DESIZE) DESIZE s = Inr ((int DESIZE, file_bytes dp s (k * DESIZE) DESIZE), s)"
    using le sz by (intro readi_plain[OF r(1,2) sz(2) r(3) sz(3,1)]) auto
  then show ?thesis by (simp add: read_dirent_def kdefs dent_def)
qed

lemma forK_map: "forK (map f xs) body s = forK xs (\<lambda>x. body (f x)) s"
proof (induction xs arbitrary: s)
  case (Cons x xs)
  show ?case by (auto simp: bindK_def Cons split: sum.splits option.splits prod.splits)
qed simp

text \<open>A loop whose body reads, leaves the state as it is and stops at the first hit.\<close>

lemma forK_find:
  assumes "\<And>x. x \<in> set xs \<Longrightarrow> \<not> P x \<Longrightarrow> body x s = Inr (None, s)"
    and "\<And>x. x \<in> set xs \<Longrightarrow> P x \<Longrightarrow> body x s = g x" "\<And>x r t. g x = Inr (r, t) \<Longrightarrow> r \<noteq> None"
  shows "forK xs body s = (case find P xs of None \<Rightarrow> Inr (None, s) | Some x \<Rightarrow> g x)"
  using assms
proof (induction xs)
  case (Cons x xs)
  show ?case
  proof (cases "P x")
    case True
    then have b: "body x s = g x" using Cons.prems(2) by simp
    show ?thesis
    proof (cases "g x")
      case (Inl e)
      with True b show ?thesis by (simp add: bindK_def)
    next
      case (Inr p)
      then obtain v t where "g x = Inr (Some v, t)"
        using Cons.prems(3)[of x] by (cases p) fastforce
      with True b show ?thesis by (simp add: bindK_def ret_def)
    qed
  next
    case False
    with Cons show ?thesis by (simp add: bindK_def)
  qed
qed (simp add: ret_def)

lemma namecmp_zero: "namecmp s t = 0 \<longleftrightarrow> same_upto DIRSIZ s t"
  by (simp add: namecmp_def strncmp_zero_iff)

definition found_at :: "nat \<Rightarrow> nat \<Rightarrow> 'e icst_scheme \<Rightarrow> stop + ((nat \<times> nat) option \<times> 'e icst_scheme)" where
  "found_at dp k s = (case iget ROOTDEV (de_inum (dent dp s k)) s of
     Inl e \<Rightarrow> Inl e | Inr (ip, t) \<Rightarrow> Inr (Some (ip, k * DESIZE), t))"

lemma dirlookup_ok:
  assumes r: "room l (Suc h) s" "fs_ok s" "held s = {}" and d: "dir_ok dp s"
  shows "dirlookup dp name s =
    (case find_name dp s name of None \<Rightarrow> Inr (None, s) | Some k \<Rightarrow> found_at dp k s)"
proof -
  have ty: "i_type (icache s ! dp) = T_DIR" "i_dev (icache s ! dp) = ROOTDEV"
    "i_size (icache s ! dp) mod DESIZE = 0"
    using d by (auto simp: dir_ok_def itree_ok_def)
  have body: "lookup_at dp name (k * DESIZE) s =
      (if matches name (dent dp s k) then found_at dp k s else Inr (None, s))" if "k < ndents dp s" for k
    using read_dirent_ok[OF r d that] ty
    by (auto simp: lookup_at_def kdefs matches_def namecmp_zero getI_def found_at_def split: sum.splits prod.splits)
  have "forK [0..<ndents dp s] (\<lambda>k. lookup_at dp name (k * DESIZE)) s =
      (case find (\<lambda>k. matches name (dent dp s k)) [0..<ndents dp s] of
         None \<Rightarrow> Inr (None, s) | Some k \<Rightarrow> found_at dp k s)"
    using body by (intro forK_find) (auto simp: found_at_def split: sum.splits prod.splits)
  with ty show ?thesis
    by (simp add: dirlookup_def kdefs getI_def dir_offsets_eq forK_map find_name_def ndents_def)
qed

section \<open>Linking\<close>

lemma nblocks_dirent: "nblocks (k * DESIZE) DESIZE = 1"
proof -
  define q r where "q = k div 32" and "r = k mod 32"
  then have k: "k = 32 * q + r" "r < 32" by auto
  have a: "k * DESIZE = BSIZE * q + DESIZE * r" and b: "k * DESIZE + DESIZE - 1 = BSIZE * q + (DESIZE * r + 15)"
    using k by simp_all
  have "(BSIZE * q + DESIZE * r) div BSIZE = q" "(BSIZE * q + (DESIZE * r + 15)) div BSIZE = q"
    using k(2) by simp_all
  then show ?thesis unfolding nblocks_def a b by simp
qed

lemma length_new_dirent [simp]: "length (de_name (new_dirent name inum)) = DIRSIZ"
  by (simp add: new_dirent_def)

lemma dec_new_dirent [simp]: "dec_dirent (enc_dirent (new_dirent name inum)) = new_dirent name inum"
  by (rule dec_enc_dirent) (simp_all add: new_dirent_def)

lemma matches_new: "inum mod 65536 \<noteq> 0 \<Longrightarrow> matches name (new_dirent name inum)"
  by (auto simp: matches_def new_dirent_def same_upto_def cstr_def strncpy_apply)

text \<open>The entry that \<^verbatim>\<open>dirlink\<close> takes: the first free one, or one at the end.\<close>

definition free_slot :: "nat \<Rightarrow> 'e icst_scheme \<Rightarrow> nat" where
  "free_slot dp s = (case find (\<lambda>k. de_inum (dent dp s k) = 0) [0..<ndents dp s] of
     Some k \<Rightarrow> k | None \<Rightarrow> ndents dp s)"

lemma free_slot_le: "free_slot dp s \<le> ndents dp s"
  by (auto simp: free_slot_def dest: find_Some_upt split: option.splits)

lemma free_slot_free: "free_slot dp s < ndents dp s \<Longrightarrow> de_inum (dent dp s (free_slot dp s)) = 0"
  by (auto simp: free_slot_def dest: find_Some_upt split: option.splits)

lemma empty_loop:
  assumes r: "room l (Suc h) s" "fs_ok s" "held s = {}" and d: "dir_ok dp s"
  shows "\<exists>v. forK (dir_offsets (i_size (icache s ! dp))) (empty_at dp) s = Inr (v, s) \<and>
    (case v of Some off \<Rightarrow> off | None \<Rightarrow> length (dir_offsets (i_size (icache s ! dp))) * DESIZE) = free_slot dp s * DESIZE"
proof -
  have sz: "i_size (icache s ! dp) mod DESIZE = 0" using d by (simp add: dir_ok_def)
  have "forK [0..<ndents dp s] (\<lambda>k. empty_at dp (k * DESIZE)) s =
      (case find (\<lambda>k. de_inum (dent dp s k) = 0) [0..<ndents dp s] of
         None \<Rightarrow> Inr (None, s) | Some k \<Rightarrow> Inr (Some (k * DESIZE), s))"
    by (rule forK_find) (auto simp: empty_at_def kdefs read_dirent_ok[OF r d])
  then show ?thesis
    by (auto simp: dir_offsets_eq[OF sz] forK_map ndents_def[symmetric] free_slot_def split: option.splits)
qed

lemma dirlink_ok:
  assumes r: "fs_ready E 7 2 s" and free: "held s = {}" and d: "dir_ok dp s" and none: "find_name dp s name = None"
    and ino: "i_inum (icache s ! dp) < sb_ninodes (fs_sb s)" and max: "(ndents dp s + 1) * DESIZE \<le> MAXFILE * BSIZE"
  shows "ends E (dirlink dp name inum) s (\<lambda>r t. r = 0 \<and> fs_ready E 0 2 t \<and>
    write_effect dp (enc_dirent (new_dirent name inum)) (free_slot dp s * DESIZE) DESIZE s t)"
proof -
  let ?off = "free_slot dp s * DESIZE" and ?src = "enc_dirent (new_dirent name inum)"
  have rr: "room 7 (Suc 1) s" "fs_ok s" using r by (auto simp: fs_ready_def numeral_2_eq_2)
  have it: "itree_ok dp s" "plain (icache s ! dp)" using d by (auto simp: dir_ok_def plain_def)
  have le: "?off \<le> i_size (icache s ! dp)" "?off + DESIZE \<le> MAXFILE * BSIZE"
    using free_slot_le[of dp s] dir_size[OF d] max by (simp_all add: le_trans[OF mult_le_mono1])
  obtain v where v: "forK (dir_offsets (i_size (icache s ! dp))) (empty_at dp) s = Inr (v, s)"
    "(case v of Some off \<Rightarrow> off | None \<Rightarrow> length (dir_offsets (i_size (icache s ! dp))) * DESIZE) = ?off"
    using empty_loop[OF rr free d] by blast
  have "ends E (writei dp ?src ?off DESIZE) s (\<lambda>r t. r = int DESIZE \<and> (\<exists>u. wrote dp ?src ?off DESIZE s u \<and>
    t = (if DESIZE > 0 \<and> ?off + DESIZE > i_size (icache s ! dp)
         then flushed dp (upd_ino dp (\<lambda>i. i\<lparr>i_size := ?off + DESIZE\<rparr>) u) else u) \<and> fs_ready E 0 (Suc (Suc 0)) t))"
    using r le by (intro writei_plain[OF _ it(1) free it(2) ino]) (auto simp: nblocks_dirent numeral_2_eq_2)
  then have w: "ends E (writei dp ?src ?off DESIZE) s (\<lambda>r t. r = int DESIZE \<and> fs_ready E 0 2 t \<and>
      write_effect dp ?src ?off DESIZE s t)"
    using write_effectI[OF _ it(1) free le(1) ino le(2)]
    by (auto elim!: ends_mono simp: numeral_2_eq_2)
  show ?thesis
    using w none v dirlookup_ok[OF rr free d, of name]
    by (auto simp: dirlink_def wp getI_def ends_eq Let_def elim!: ends_mono)
qed

text \<open>The directory after the write of entry \<open>k\<close>.\<close>

lemma dent_written:
  assumes d: "dir_ok dp s" and k: "k \<le> ndents dp s" "(ndents dp s + 1) * DESIZE \<le> MAXFILE * BSIZE"
    and len: "length src = DESIZE" and w: "write_effect dp src (k * DESIZE) DESIZE s t"
  shows "dir_ok dp t" "ndents dp t = max (ndents dp s) (Suc k)" "dent dp t k = dec_dirent src"
    "j < ndents dp s \<Longrightarrow> j \<noteq> k \<Longrightarrow> dent dp t j = dent dp s j"
proof -
  have dp: "dp < length (icache s)" using d by (simp add: dir_ok_def itree_ok_def)
  obtain as where ic: "icache t ! dp =
      (icache s ! dp)\<lparr>i_addrs := as, i_size := max (i_size (icache s ! dp)) (k * DESIZE + DESIZE)\<rparr>"
    using w dp by (auto simp: write_effect_def)
  have sz: "i_size (icache t ! dp) = max (ndents dp s) (Suc k) * DESIZE"
    using ic dir_size[OF d] by (simp add: max_def)
  show nd: "ndents dp t = max (ndents dp s) (Suc k)" using sz by (simp add: ndents_def)
  have byte: "file_byte dp t i = (if k * DESIZE \<le> i \<and> i < k * DESIZE + DESIZE then src ! (i - k * DESIZE)
      else file_byte dp s i)" if "i < MAXFILE * BSIZE" for i
    using w that by (simp add: write_effect_def)
  have bound: "j * DESIZE + DESIZE \<le> MAXFILE * BSIZE" if "j \<le> ndents dp s" for j
    using that k(2) by (simp add: le_trans[OF _ k(2)])
  have "file_bytes dp t (k * DESIZE) DESIZE = src"
    using bound[OF k(1)] len by (intro nth_equalityI) (auto simp: byte)
  then show "dent dp t k = dec_dirent src" by (simp add: dent_def)
  show "dent dp t j = dent dp s j" if "j < ndents dp s" "j \<noteq> k"
  proof -
    have "\<not> (k * DESIZE \<le> j * DESIZE + i \<and> j * DESIZE + i < k * DESIZE + DESIZE)" if "i < DESIZE" for i
      using that \<open>j \<noteq> k\<close> by (cases "j < k") auto
    then have "file_bytes dp t (j * DESIZE) DESIZE = file_bytes dp s (j * DESIZE) DESIZE"
      using bound[of j] that(1) by (intro nth_equalityI) (auto simp: byte)
    then show ?thesis by (simp add: dent_def)
  qed
  have hole: "tree dp t (leaf (i div BSIZE)) \<noteq> 0" if "i < max (ndents dp s) (Suc k) * DESIZE" for i
  proof (cases "i < i_size (icache s ! dp)")
    case True
    then have "tree dp s (leaf (i div BSIZE)) \<noteq> 0" "i < MAXFILE * BSIZE"
      using d by (auto simp: dir_ok_def no_hole_def)
    moreover from this(2) have "pos_ok (leaf (i div BSIZE))" by (rule pos_ok_leaf[OF max_block])
    ultimately show ?thesis using w by (simp add: write_effect_def)
  next
    case False
    then have "k * DESIZE \<le> i \<and> i < k * DESIZE + DESIZE"
      using that dir_size[OF d] k(1) by (auto simp: max_def split: if_splits)
    with w show ?thesis by (simp add: write_effect_def no_hole_def)
  qed
  have "max (ndents dp s) (Suc k) * DESIZE \<le> MAXFILE * BSIZE"
    using bound[OF k(1)] bound[OF order_refl] by (simp add: max_def)
  then show "dir_ok dp t"
    using d w hole sz ic by (simp add: dir_ok_def write_effect_def no_hole_def)
qed

lemma find_upt_cong_Suc:
  "find P [0..<max n (Suc k)] = (case find P [0..<n] of Some j \<Rightarrow> Some j | None \<Rightarrow> find P [n..<max n (Suc k)])"
  using find_append[of P "[0..<n]" "[n..<max n (Suc k)]"] upt_add_eq_append[of 0 n "max n (Suc k) - n"] by simp

lemma linked_lookup:
  assumes d: "dir_ok dp s" and max: "(ndents dp s + 1) * DESIZE \<le> MAXFILE * BSIZE"
    and w: "write_effect dp (enc_dirent (new_dirent name inum)) (free_slot dp s * DESIZE) DESIZE s t"
  shows "find_name dp s name = None \<Longrightarrow> inum mod 65536 \<noteq> 0 \<Longrightarrow> find_name dp t name = Some (free_slot dp s)"
    "\<not> matches other (new_dirent name inum) \<Longrightarrow> find_name dp t other = find_name dp s other"
proof -
  let ?k = "free_slot dp s"
  note dw = dent_written[OF d free_slot_le max _ w, simplified]
  have at: "matches x (dent dp t j) = (if j = ?k then matches x (new_dirent name inum) else matches x (dent dp s j))"
    if "j < ndents dp s \<or> j = ?k" for x j
    using dw(3,4) that by auto
  show "find_name dp t name = Some ?k" if none: "find_name dp s name = None" and nz: "inum mod 65536 \<noteq> 0"
  proof -
    have no: "\<not> matches name (dent dp s j)" if "j < ndents dp s" for j
      using none that by (auto simp: find_name_def find_None_iff)
    have "find (\<lambda>k. matches name (dent dp t k)) [0..<ndents dp t] = Some ?k"
      unfolding find_Some_iff dw(2)
    proof (rule exI[of _ ?k], intro conjI allI impI)
      show "matches name (dent dp t ([0..<max (ndents dp s) (Suc ?k)] ! ?k))"
        using at[of ?k name] matches_new[OF nz] by (simp add: nth_upt)
      fix j assume "j < ?k"
      then show "\<not> matches name (dent dp t ([0..<max (ndents dp s) (Suc ?k)] ! j))"
        using at[of j name] no[of j] free_slot_le[of dp s] by (simp add: nth_upt)
    qed (auto simp: nth_upt)
    then show ?thesis by (simp add: find_name_def)
  qed
  show "find_name dp t other = find_name dp s other" if nm: "\<not> matches other (new_dirent name inum)"
  proof -
    have eq: "matches other (dent dp t j) = matches other (dent dp s j)" if "j < ndents dp s" for j
      using at[of j other] nm that free_slot_free[of dp s] by (auto simp: matches_def)
    have "find (\<lambda>k. matches other (dent dp t k)) [0..<ndents dp s] = find (\<lambda>k. matches other (dent dp s k)) [0..<ndents dp s]"
      by (rule find_cong) (auto simp: eq)
    moreover have "find (\<lambda>k. matches other (dent dp t k)) [ndents dp s..<max (ndents dp s) (Suc ?k)] = None"
      using at[of ?k other] nm free_slot_le[of dp s] by (auto simp: find_None_iff max_def less_Suc_eq split: if_splits)
    ultimately show ?thesis
      unfolding find_name_def dw(2) find_upt_cong_Suc by (simp split: option.splits)
  qed
qed

end
