(* ===== verification/Path.thy ===== *)
theory Path
  imports Dir
begin

text \<open>
  Path names (\<^verbatim>\<open>skipelem\<close>, \<^verbatim>\<open>namex\<close>, \<^verbatim>\<open>namei\<close>, \<^verbatim>\<open>nameiparent\<close> of \<^verbatim>\<open>fs.c\<close>). A path is the list of its bytes up
  to the terminator, \<^verbatim>\<open>name\<close> is the caller's buffer of 14 bytes seen through a pointer: what it held
  before stays in the bytes that are not written. The theory shows that \<^verbatim>\<open>skipelem\<close> takes the
  components of a path one by one, so that the walk of \<^verbatim>\<open>namex\<close> ends.
\<close>

section \<open>Code\<close>

abbreviation slash :: u8 where "slash \<equiv> 47"

definition copy_name :: "u8 list \<Rightarrow> nat \<Rightarrow> cptr \<Rightarrow> cptr" where
  "copy_name s len name =
     (if len \<ge> DIRSIZ then (\<lambda>i. if i < DIRSIZ then s ! i else name i)
      else (\<lambda>i. if i < len then s ! i else if i = len then 0 else name i))"

definition skipelem :: "u8 list \<Rightarrow> cptr \<Rightarrow> (u8 list \<times> cptr) option" where
  "skipelem path name =
     (let path = dropWhile (\<lambda>c. c = slash) path in
      if path = [] then None
      else
        let s = path; len = length (takeWhile (\<lambda>c. c \<noteq> slash) path);
            path = dropWhile (\<lambda>c. c \<noteq> slash) path
        in Some (dropWhile (\<lambda>c. c = slash) path, copy_name s len name))"

lemma skipelem_shorter:
  assumes "skipelem path name = Some (rest, name')"
  shows "length rest < length path"
proof -
  let ?p = "dropWhile (\<lambda>c. c = slash) path"
  have ne: "?p \<noteq> []" and r: "rest = dropWhile (\<lambda>c. c = slash) (dropWhile (\<lambda>c. c \<noteq> slash) ?p)"
    using assms by (auto simp: skipelem_def Let_def split: if_splits)
  then have "hd ?p \<noteq> slash" using hd_dropWhile[OF ne] by simp
  then have "length (dropWhile (\<lambda>c. c \<noteq> slash) ?p) < length ?p"
    using ne length_dropWhile_le[of "\<lambda>c. c \<noteq> slash" "tl ?p"] by (cases ?p) auto
  also have "\<dots> \<le> length path" by (rule length_dropWhile_le)
  finally show ?thesis
    using r length_dropWhile_le[of "\<lambda>c. c = slash" "dropWhile (\<lambda>c. c \<noteq> slash) ?p"] by simp
qed

function namex_loop :: "nat \<Rightarrow> u8 list \<Rightarrow> bool \<Rightarrow> cptr \<Rightarrow> ('e icst_scheme, nat option \<times> cptr) K" where
  "namex_loop ip path nameiparent name =
     (case skipelem path name of
        None \<Rightarrow>
          if nameiparent then thenK (iput ip) (ret (None, name)) else ret (Some ip, name)
      | Some (path', name') \<Rightarrow>
          thenK (ilock (Some ip))
          (bindK (getI ip i_type) (\<lambda>ty.
          if ty \<noteq> T_DIR then thenK (iunlockput (Some ip)) (ret (None, name'))
          else if nameiparent \<and> path' = [] then thenK (iunlock (Some ip)) (ret (Some ip, name'))
          else
            bindK (dirlookup ip name') (\<lambda>found.
            case found of
              None \<Rightarrow> thenK (iunlockput (Some ip)) (ret (None, name'))
            | Some (next, _) \<Rightarrow>
                thenK (iunlockput (Some ip)) (namex_loop next path' nameiparent name')))))"
  by pat_completeness auto

termination namex_loop
  by (relation "measure (\<lambda>(ip, path, np, name). length path)") (auto dest: skipelem_shorter)

declare namex_loop.simps [simp del]

definition namex :: "u8 list \<Rightarrow> bool \<Rightarrow> cptr \<Rightarrow> ('e icst_scheme, nat option \<times> cptr) K" where
  "namex path nameiparent name =
     bindK (if path \<noteq> [] \<and> hd path = slash then iget ROOTDEV ROOTINO
            else bindK (getK (\<lambda>s. p_cwd (myproc s))) (\<lambda>cwd.
              case cwd of None \<Rightarrow> stopK (Fault ''cwd'') | Some d \<Rightarrow> idup d)) (\<lambda>ip.
     namex_loop ip path nameiparent name)"

definition namei :: "u8 list \<Rightarrow> ('e icst_scheme, nat option) K" where
  "namei path = bindK (namex path False (\<lambda>_. 0)) (\<lambda>(ip, _). ret ip)"

definition nameiparent :: "u8 list \<Rightarrow> cptr \<Rightarrow> ('e icst_scheme, nat option \<times> cptr) K" where
  "nameiparent path name = namex path True name"

section \<open>Components\<close>

text \<open>The components of a path by another route: cut it at every slash, drop the empty pieces.\<close>

fun cut :: "u8 list \<Rightarrow> u8 list list" where
  "cut [] = [[]]"
| "cut (c # cs) = (if c = slash then [] # cut cs else (case cut cs of w # ws \<Rightarrow> (c # w) # ws | [] \<Rightarrow> [[c]]))"

definition components :: "u8 list \<Rightarrow> u8 list list" where
  "components path = filter (\<lambda>w. w \<noteq> []) (cut path)"

lemma cut_ne: "cut p \<noteq> []"
  by (induction p) (auto split: list.splits)

lemma components_Nil [simp]: "components [] = []"
  by (simp add: components_def)

lemma components_slash [simp]: "components (slash # p) = components p"
  by (simp add: components_def)

lemma components_skip: "components (dropWhile (\<lambda>c. c = slash) p) = components p"
  by (induction p) auto

lemma cut_split:
  "cut p = takeWhile (\<lambda>c. c \<noteq> slash) p #
     (case dropWhile (\<lambda>c. c \<noteq> slash) p of [] \<Rightarrow> [] | _ # q \<Rightarrow> cut q)"
  by (induction p) (auto split: list.splits)

lemma components_word:
  assumes "p \<noteq> []" "hd p \<noteq> slash"
  shows "components p = takeWhile (\<lambda>c. c \<noteq> slash) p # components (dropWhile (\<lambda>c. c \<noteq> slash) p)"
proof -
  have ne: "takeWhile (\<lambda>c. c \<noteq> slash) p \<noteq> []" using assms by (cases p) auto
  show ?thesis
  proof (cases "dropWhile (\<lambda>c. c \<noteq> slash) p")
    case Nil
    with ne show ?thesis unfolding components_def cut_split[of p] Nil by simp
  next
    case (Cons c q)
    then have "c = slash" using hd_dropWhile[of "\<lambda>c. c \<noteq> slash" p] by simp
    with Cons ne show ?thesis unfolding components_def cut_split[of p] Cons by simp
  qed
qed

lemma skipelem_None: "skipelem p name = None \<longleftrightarrow> components p = []"
proof (cases "dropWhile (\<lambda>c. c = slash) p = []")
  case True
  then have "components p = []" using components_skip[of p] by (simp only: components_Nil)
  with True show ?thesis by (simp add: skipelem_def Let_def)
next
  case False
  then have "components p \<noteq> []"
    using components_word[OF False] hd_dropWhile[OF False] components_skip[of p] by simp
  with False show ?thesis by (simp add: skipelem_def Let_def)
qed

lemma skipelem_Some:
  assumes "skipelem p name = Some (rest, name')"
  shows "\<exists>w. components p = w # components rest \<and> w \<noteq> [] \<and> slash \<notin> set w \<and>
    (\<forall>i < min (length w) DIRSIZ. name' i = w ! i) \<and> (length w < DIRSIZ \<longrightarrow> name' (length w) = 0) \<and>
    (rest \<noteq> [] \<longrightarrow> hd rest \<noteq> slash)"
proof -
  let ?p = "dropWhile (\<lambda>c. c = slash) p" and ?w = "takeWhile (\<lambda>c. c \<noteq> slash) (dropWhile (\<lambda>c. c = slash) p)"
  have ne: "?p \<noteq> []" and r: "rest = dropWhile (\<lambda>c. c = slash) (dropWhile (\<lambda>c. c \<noteq> slash) ?p)"
    and n: "name' = copy_name ?p (length ?w) name"
    using assms by (auto simp: skipelem_def Let_def split: if_splits)
  have hd: "hd ?p \<noteq> slash" using hd_dropWhile[OF ne] by simp
  have c: "components p = ?w # components rest"
    using components_word[OF ne hd] components_skip[of p] components_skip r by metis
  have "?w \<noteq> []" using ne hd by (cases ?p) auto
  moreover have "slash \<notin> set ?w" using set_takeWhileD by fastforce
  moreover have "\<forall>i < min (length ?w) DIRSIZ. name' i = ?w ! i"
    by (auto simp: n copy_name_def takeWhile_nth)
  moreover have "length ?w < DIRSIZ \<longrightarrow> name' (length ?w) = 0" by (simp add: n copy_name_def)
  moreover have "rest \<noteq> [] \<longrightarrow> hd rest \<noteq> slash"
    using hd_dropWhile[of "\<lambda>c. c = slash" "dropWhile (\<lambda>c. c \<noteq> slash) ?p"] r by auto
  ultimately show ?thesis using c by blast
qed

end
