(* ===== verification/Kalloc.thy ===== *)
theory Kalloc
  imports Path
begin

text \<open>
  Physical memory and its allocator (\<^verbatim>\<open>kalloc.c\<close>). Memory is a map from kernel virtual addresses
  to bytes; every page a kernel pointer can refer to is in it at \<^verbatim>\<open>P2V\<close> of its physical address.
  The free list is the code's: a chain of pages linked through their first word. The theory shows
  that the allocator implements a stack of page addresses, that it gives out only pages that are
  free, and that it leaves every other page alone. \<open>kend\<close> and \<open>kdata\<close> are the linker's symbols
  \<^verbatim>\<open>end\<close> and \<^verbatim>\<open>data\<close>.
\<close>

section \<open>Memory\<close>

record memst = icst +
  kmem :: mem
  kfreelist :: nat
  kend :: nat
  kdata :: nat
  kpgdir :: nat
  cr3 :: nat

abbreviation PGSIZE :: nat where "PGSIZE \<equiv> 4096"
abbreviation KERNBASE :: nat where "KERNBASE \<equiv> 2147483648"
abbreviation PHYSTOP :: nat where "PHYSTOP \<equiv> 234881024"

definition V2P :: "nat \<Rightarrow> nat" where
  "V2P a = u32 (a + 4294967296 - KERNBASE)"

definition P2V :: "nat \<Rightarrow> nat" where
  "P2V a = u32 (a + KERNBASE)"

definition PGROUNDDOWN :: "nat \<Rightarrow> nat" where
  "PGROUNDDOWN a = a div PGSIZE * PGSIZE"

definition PGROUNDUP :: "nat \<Rightarrow> nat" where
  "PGROUNDUP sz = PGROUNDDOWN (u32 (sz + (PGSIZE - 1)))"

definition ld32 :: "mem \<Rightarrow> nat \<Rightarrow> nat" where
  "ld32 m a = le_nat [m a, m (a + 1), m (a + 2), m (a + 3)]"

definition st32 :: "mem \<Rightarrow> nat \<Rightarrow> nat \<Rightarrow> mem" where
  "st32 m a v = m(a := of_nat v, a + 1 := of_nat (v div 256), a + 2 := of_nat (v div 65536),
     a + 3 := of_nat (v div 16777216))"

definition getM :: "(mem \<Rightarrow> 'a) \<Rightarrow> ('e memst_scheme, 'a) K" where
  "getM f = getK (\<lambda>s. f (kmem s))"

definition setM :: "(mem \<Rightarrow> mem) \<Rightarrow> ('e memst_scheme, unit) K" where
  "setM f = modK (\<lambda>s. s\<lparr>kmem := f (kmem s)\<rparr>)"

section \<open>The allocator\<close>

definition kfree :: "nat \<Rightarrow> ('e memst_scheme, unit) K" where
  "kfree v =
     bindK (getK kend) (\<lambda>e.
     if v mod PGSIZE \<noteq> 0 \<or> v < e \<or> V2P v \<ge> PHYSTOP then panic ''kfree''
     else
       thenK (setM (\<lambda>m. memset m v 1 PGSIZE))
       (bindK (getK kfreelist) (\<lambda>next.
       thenK (setM (\<lambda>m. st32 m v next))
       (modK (\<lambda>s. s\<lparr>kfreelist := v\<rparr>)))))"

definition kalloc :: "('e memst_scheme, nat) K" where
  "kalloc =
     bindK (getK kfreelist) (\<lambda>r.
     thenK (whenK (r \<noteq> 0) (modK (\<lambda>s. s\<lparr>kfreelist := ld32 (kmem s) r\<rparr>)))
     (ret r))"

text \<open>The pages that lie wholly between \<open>a\<close> and \<open>b\<close>, for \<open>a\<close> on a page boundary.\<close>

definition whole_pages :: "nat \<Rightarrow> nat \<Rightarrow> nat list" where
  "whole_pages a b = map (\<lambda>i. a + i * PGSIZE) [0..<(b - a) div PGSIZE]"

definition freerange :: "nat \<Rightarrow> nat \<Rightarrow> ('e memst_scheme, unit) K" where
  "freerange vstart vend =
     bindK (forK (whole_pages (PGROUNDUP vstart) vend) (\<lambda>p. thenK (kfree p) (ret (None :: unit option))))
     (\<lambda>_. ret ())"

definition kinit1 :: "nat \<Rightarrow> nat \<Rightarrow> ('e memst_scheme, unit) K" where
  "kinit1 vstart vend = freerange vstart vend"

definition kinit2 :: "nat \<Rightarrow> nat \<Rightarrow> ('e memst_scheme, unit) K" where
  "kinit2 vstart vend = freerange vstart vend"

section \<open>Words in memory\<close>

lemma div_256:
  "(v :: nat) div 256 div 256 = v div 65536" "v div 65536 div 256 = v div 16777216"
  by (simp_all add: div_mult2_eq[symmetric])

lemma ld32_st32 [simp]:
  assumes "v < 4294967296"
  shows "ld32 (st32 m a v) a = v"
proof -
  have "le_nat (le_bytes (Suc (Suc (Suc (Suc 0)))) v) = v"
    by (rule le_nat_inverse) (use assms in simp)
  then show ?thesis by (simp add: ld32_def st32_def div_256)
qed

lemma ld32_less: "ld32 m a < 4294967296"
  using le_nat_bound[of "[m a, m (a + 1), m (a + 2), m (a + 3)]"] by (simp add: ld32_def)

lemma ld32_cong:
  "(\<And>x. a \<le> x \<Longrightarrow> x < a + 4 \<Longrightarrow> m x = n x) \<Longrightarrow> ld32 m a = ld32 n a"
  by (simp add: ld32_def)

lemma st32_other: "x < a \<or> a + 4 \<le> x \<Longrightarrow> st32 m a v x = m x"
  by (auto simp: st32_def)

lemma ld32_st32_other:
  "a + 4 \<le> b \<or> b + 4 \<le> a \<Longrightarrow> ld32 (st32 m a v) b = ld32 m b"
  by (rule ld32_cong) (auto simp: st32_other)

lemma ld32_st32_aligned:
  assumes "a mod 4 = 0" "b mod 4 = 0" "v < 4294967296"
  shows "ld32 (st32 m a v) b = (if a = b then v else ld32 m b)"
proof (cases "a = b")
  case False
  obtain p q where "a = 4 * p" "b = 4 * q" using assms(1,2) by (metis dvd_def mod_0_imp_dvd)
  with False have "a + 4 \<le> b \<or> b + 4 \<le> a" by auto
  with False show ?thesis by (simp add: ld32_st32_other)
qed (use assms in simp)

section \<open>The free list\<close>

text \<open>A page the allocator may hold: aligned, above the kernel image, in physical memory.\<close>

definition free_page :: "nat \<Rightarrow> nat \<Rightarrow> bool" where
  "free_page e v \<longleftrightarrow> v mod PGSIZE = 0 \<and> e \<le> v \<and> 0 < v \<and> v < 4294967296 \<and> V2P v < PHYSTOP"

fun flist :: "mem \<Rightarrow> nat \<Rightarrow> nat list \<Rightarrow> bool" where
  "flist m r [] \<longleftrightarrow> r = 0"
| "flist m r (x # xs) \<longleftrightarrow> r = x \<and> x \<noteq> 0 \<and> flist m (ld32 m x) xs"

definition kmem_ok :: "nat list \<Rightarrow> 'e memst_scheme \<Rightarrow> bool" where
  "kmem_ok xs s \<longleftrightarrow> flist (kmem s) (kfreelist s) xs \<and> distinct xs \<and> (\<forall>x \<in> set xs. free_page (kend s) x)"

definition in_page :: "nat \<Rightarrow> nat \<Rightarrow> bool" where
  "in_page v x \<longleftrightarrow> v \<le> x \<and> x < v + PGSIZE"

lemma pages_apart:
  assumes "v mod PGSIZE = 0" "w mod PGSIZE = 0" "v \<noteq> w" "in_page v x"
  shows "\<not> in_page w x"
proof -
  obtain p q where "v = 4096 * p" "w = 4096 * q" using assms(1,2) by (metis dvd_def mod_0_imp_dvd)
  with assms(3,4) show ?thesis by (auto simp: in_page_def)
qed

lemma flist_cong:
  "(\<And>x y. x \<in> set xs \<Longrightarrow> in_page x y \<Longrightarrow> m y = n y) \<Longrightarrow> flist m r xs = flist n r xs"
proof (induction xs arbitrary: r)
  case (Cons x xs)
  have "ld32 m x = ld32 n x" by (rule ld32_cong) (use Cons.prems[of x] in \<open>simp add: in_page_def\<close>)
  moreover have "flist m q xs = flist n q xs" for q by (rule Cons.IH) (use Cons.prems in auto)
  ultimately show ?case by simp
qed simp

lemma flist_less: "flist m r xs \<Longrightarrow> r = 0 \<or> r \<in> set xs"
  by (cases xs) auto

text \<open>Writing to pages that are not free keeps the list.\<close>

lemma kmem_ok_frame:
  assumes ok: "kmem_ok xs s" and f: "kfreelist t = kfreelist s" "kend t = kend s"
    and same: "\<And>x y. x \<in> set xs \<Longrightarrow> in_page x y \<Longrightarrow> kmem t y = kmem s y"
  shows "kmem_ok xs t"
  using ok f flist_cong[of xs "kmem t" "kmem s" "kfreelist s"] same by (simp add: kmem_ok_def)

lemma kalloc_empty: "kmem_ok [] s \<Longrightarrow> kalloc s = Inr (0, s)"
  by (simp add: kmem_ok_def kalloc_def kdefs)

lemma kalloc_pop:
  assumes "kmem_ok (x # xs) s"
  shows "kalloc s = Inr (x, s\<lparr>kfreelist := ld32 (kmem s) x\<rparr>)" "kmem_ok xs (s\<lparr>kfreelist := ld32 (kmem s) x\<rparr>)"
  using assms by (auto simp: kmem_ok_def kalloc_def kdefs)

text \<open>The state after \<^verbatim>\<open>kfree(v)\<close>.\<close>

definition freed :: "nat \<Rightarrow> 'e memst_scheme \<Rightarrow> 'e memst_scheme" where
  "freed v s = s\<lparr>kmem := st32 (memset (kmem s) v 1 PGSIZE) v (kfreelist s), kfreelist := v\<rparr>"

lemma freed_other: "\<not> in_page v y \<Longrightarrow> kmem (freed v s) y = kmem s y"
  by (auto simp: freed_def in_page_def memset_apply st32_def)

lemma freed_fields [simp]: "kfreelist (freed v s) = v" "kend (freed v s) = kend s"
  by (simp_all add: freed_def)

lemma kfree_push:
  assumes ok: "kmem_ok xs s" and v: "free_page (kend s) v" "v \<notin> set xs"
  shows "kfree v s = Inr ((), freed v s)" "kmem_ok (v # xs) (freed v s)"
proof -
  show "kfree v s = Inr ((), freed v s)"
    using v by (simp add: kfree_def kdefs setM_def free_page_def freed_def)
  have al: "x mod PGSIZE = 0" if "x \<in> set xs" for x using ok that by (simp add: kmem_ok_def free_page_def)
  have "flist (kmem (freed v s)) r xs = flist (kmem s) r xs" for r
    using pages_apart[OF al, of _ v] v
    by (intro flist_cong) (auto simp: free_page_def intro!: freed_other)
  moreover have "kfreelist s < 4294967296"
    using ok flist_less[of "kmem s" "kfreelist s" xs] by (auto simp: kmem_ok_def free_page_def)
  then have "ld32 (kmem (freed v s)) v = kfreelist s" by (simp add: freed_def)
  ultimately show "kmem_ok (v # xs) (freed v s)"
    using ok v by (auto simp: kmem_ok_def free_page_def)
qed

lemma kfree_bad: "\<not> (v mod PGSIZE = 0 \<and> kend s \<le> v \<and> V2P v < PHYSTOP) \<Longrightarrow> kfree v s = Inl (Panic ''kfree'')"
  by (auto simp: kfree_def kdefs)

lemma freerange_pages:
  assumes "kmem_ok xs s" "distinct ps" "set ps \<inter> set xs = {}" "\<forall>p \<in> set ps. free_page (kend s) p"
  shows "runs (forK ps (\<lambda>p. thenK (kfree p) (ret (None :: unit option)))) s
    (\<lambda>r t. kmem_ok (rev ps @ xs) t \<and> kend t = kend s)"
  using assms
proof (induction ps arbitrary: s xs)
  case (Cons p ps)
  from Cons.prems have p: "free_page (kend s) p" "p \<notin> set xs" by auto
  have "runs (forK ps (\<lambda>p. thenK (kfree p) (ret (None :: unit option)))) (freed p s)
    (\<lambda>r t. kmem_ok (rev ps @ (p # xs)) t \<and> kend t = kend (freed p s))"
    by (rule Cons.IH) (use Cons.prems kfree_push[OF Cons.prems(1) p] in auto)
  then show ?case
    using kfree_push(1)[OF Cons.prems(1) p] by (simp add: runs_bindK runs_thenK runs_eq)
qed simp

end
