(* ===== verification/Vm.thy ===== *)
theory Vm
  imports Kalloc
begin

text \<open>
  Virtual memory (\<^verbatim>\<open>vm.c\<close>, the address macros of \<^verbatim>\<open>mmu.h\<close> and \<^verbatim>\<open>memlayout.h\<close>, and the page fault
  handler's \<^verbatim>\<open>allocPage\<close> of \<^verbatim>\<open>trap.c\<close>). A page directory is the kernel address of its page, its
  entries and those of the page tables are words of memory; pointers to entries are addresses,
  0 is the null pointer. \<open>mmu\<close> is the translation the processor performs, with which the kernel
  and the processes access user memory. The segment registers and the task state segment of
  \<^verbatim>\<open>seginit\<close> and \<^verbatim>\<open>switchuvm\<close> are not modelled; loading \<^verbatim>\<open>cr3\<close> is.
\<close>

section \<open>Address macros\<close>

abbreviation EXTMEM :: nat where "EXTMEM \<equiv> 1048576"
abbreviation DEVSPACE :: nat where "DEVSPACE \<equiv> 4261412864"
abbreviation KERNLINK :: nat where "KERNLINK \<equiv> KERNBASE + EXTMEM"
abbreviation PTE_P :: nat where "PTE_P \<equiv> 1"
abbreviation PTE_W :: nat where "PTE_W \<equiv> 2"
abbreviation PTE_U :: nat where "PTE_U \<equiv> 4"

definition PDX :: "nat \<Rightarrow> nat" where
  "PDX va = va div 4194304 mod 1024"

definition PTX :: "nat \<Rightarrow> nat" where
  "PTX va = va div 4096 mod 1024"

definition PTE_ADDR :: "nat \<Rightarrow> nat" where
  "PTE_ADDR pte = pte div 4096 * 4096"

definition PTE_FLAGS :: "nat \<Rightarrow> nat" where
  "PTE_FLAGS pte = pte mod 4096"

definition has_flag :: "nat \<Rightarrow> nat \<Rightarrow> bool" where
  "has_flag pte f \<longleftrightarrow> pte AND f \<noteq> 0"

section \<open>Page tables\<close>

definition walkpgdir :: "nat \<Rightarrow> nat \<Rightarrow> bool \<Rightarrow> ('e memst_scheme, nat) K" where
  "walkpgdir pgdir va alloc =
     bindK (getM (\<lambda>m. ld32 m (pgdir + 4 * PDX va))) (\<lambda>pde.
     if has_flag pde PTE_P then ret (P2V (PTE_ADDR pde) + 4 * PTX va)
     else if \<not> alloc then ret 0
     else
       bindK kalloc (\<lambda>pgtab.
       if pgtab = 0 then ret 0
       else
         thenK (setM (\<lambda>m. memset m pgtab 0 PGSIZE))
         (thenK (setM (\<lambda>m. st32 m (pgdir + 4 * PDX va) (V2P pgtab OR PTE_P OR PTE_W OR PTE_U)))
         (ret (pgtab + 4 * PTX va)))))"

text \<open>The loop of \<^verbatim>\<open>mappages\<close>, from the page at \<open>a\<close> to the page at \<open>last\<close>; addresses wrap around.\<close>

definition map_one :: "nat \<Rightarrow> nat \<Rightarrow> nat \<Rightarrow> nat \<Rightarrow> nat \<Rightarrow> ('e memst_scheme, int option) K" where
  "map_one pgdir a pa perm i =
     bindK (walkpgdir pgdir (u32 (a + i * PGSIZE)) True) (\<lambda>pte.
     if pte = 0 then ret (Some (-1))
     else
       bindK (getM (\<lambda>m. ld32 m pte)) (\<lambda>e.
       if has_flag e PTE_P then panic ''remap''
       else thenK (setM (\<lambda>m. st32 m pte (u32 (pa + i * PGSIZE) OR perm OR PTE_P))) (ret None)))"

definition mappages :: "nat \<Rightarrow> nat \<Rightarrow> nat \<Rightarrow> nat \<Rightarrow> nat \<Rightarrow> ('e memst_scheme, int) K" where
  "mappages pgdir va size' pa perm =
     (let a = PGROUNDDOWN va; last = PGROUNDDOWN (u32 (va + size' + 4294967295)) in
      bindK (forK [0..<Suc (u32 (last + 4294967296 - a) div PGSIZE)] (map_one pgdir a pa perm)) (\<lambda>r.
      case r of Some e \<Rightarrow> ret e | None \<Rightarrow> ret 0))"

section \<open>User pages\<close>

text \<open>One round of \<^verbatim>\<open>deallocuvm\<close>: the address the next round starts with.\<close>

definition dealloc_one :: "nat \<Rightarrow> nat \<Rightarrow> ('e memst_scheme, nat) K" where
  "dealloc_one pgdir a =
     bindK (walkpgdir pgdir a False) (\<lambda>pte.
     if pte = 0 then ret (u32 ((PDX a + 1) * 4194304))
     else
       bindK (getM (\<lambda>m. ld32 m pte)) (\<lambda>e.
       if has_flag e PTE_P then
         if PTE_ADDR e = 0 then panic ''kfree''
         else
           thenK (kfree (P2V (PTE_ADDR e)))
           (thenK (setM (\<lambda>m. st32 m pte 0))
           (ret (u32 (a + PGSIZE))))
       else ret (u32 (a + PGSIZE))))"

text \<open>An address that wraps around to a smaller one would make the loop start over.\<close>

function dealloc_loop :: "nat \<Rightarrow> nat \<Rightarrow> nat \<Rightarrow> ('e memst_scheme, unit) K" where
  "dealloc_loop pgdir a oldsz =
     (if oldsz \<le> a then ret ()
      else bindK (dealloc_one pgdir a) (\<lambda>a'.
        if a' \<le> a then stopK (Fault ''deallocuvm: wraps around'') else dealloc_loop pgdir a' oldsz))"
  by pat_completeness auto

termination dealloc_loop
  by (relation "measure (\<lambda>(pgdir, a, oldsz). oldsz - a)") auto

declare dealloc_loop.simps [simp del]

definition deallocuvm :: "nat \<Rightarrow> nat \<Rightarrow> nat \<Rightarrow> ('e memst_scheme, nat) K" where
  "deallocuvm pgdir oldsz newsz =
     (if newsz \<ge> oldsz then ret oldsz
      else thenK (dealloc_loop pgdir (PGROUNDUP newsz) oldsz) (ret newsz))"

definition free_table :: "nat \<Rightarrow> nat \<Rightarrow> ('e memst_scheme, unit option) K" where
  "free_table pgdir i =
     bindK (getM (\<lambda>m. ld32 m (pgdir + 4 * i))) (\<lambda>e.
     thenK (whenK (has_flag e PTE_P) (kfree (P2V (PTE_ADDR e))))
     (ret None))"

definition freevm :: "nat \<Rightarrow> ('e memst_scheme, unit) K" where
  "freevm pgdir =
     (if pgdir = 0 then panic ''freevm: no pgdir''
      else
        bindK (deallocuvm pgdir KERNBASE 0) (\<lambda>_.
        bindK (forK [0..<1024] (free_table pgdir)) (\<lambda>_.
        kfree pgdir)))"

text \<open>The start addresses of the pages with a byte in \<open>a ..< b\<close>, for \<open>a\<close> on a page boundary.\<close>

definition pages_from :: "nat \<Rightarrow> nat \<Rightarrow> nat list" where
  "pages_from a b = map (\<lambda>i. a + i * PGSIZE) [0..<(b - a + (PGSIZE - 1)) div PGSIZE]"

definition alloc_one :: "nat \<Rightarrow> nat \<Rightarrow> nat \<Rightarrow> nat \<Rightarrow> ('e memst_scheme, nat option) K" where
  "alloc_one pgdir oldsz newsz a =
     bindK kalloc (\<lambda>mem.
     if mem = 0 then
       thenK (cprintf (text_of ''allocuvm out of memory'' @ [newline]) [])
       (bindK (deallocuvm pgdir newsz oldsz) (\<lambda>_. ret (Some 0)))
     else
       thenK (setM (\<lambda>m. memset m mem 0 PGSIZE))
       (bindK (mappages pgdir a PGSIZE (V2P mem) (PTE_W OR PTE_U)) (\<lambda>r.
       if r < 0 then
         thenK (cprintf (text_of ''allocuvm out of memory (2)'' @ [newline]) [])
         (bindK (deallocuvm pgdir newsz oldsz) (\<lambda>_.
         thenK (kfree mem) (ret (Some 0))))
       else ret None)))"

definition allocuvm :: "nat \<Rightarrow> nat \<Rightarrow> nat \<Rightarrow> ('e memst_scheme, nat) K" where
  "allocuvm pgdir oldsz newsz =
     (if newsz \<ge> KERNBASE then ret 0
      else if newsz < oldsz then ret oldsz
      else
        bindK (forK (pages_from (PGROUNDUP oldsz) newsz) (alloc_one pgdir oldsz newsz)) (\<lambda>r.
        case r of Some e \<Rightarrow> ret e | None \<Rightarrow> ret newsz))"

definition clearpteu :: "nat \<Rightarrow> nat \<Rightarrow> ('e memst_scheme, unit) K" where
  "clearpteu pgdir uva =
     bindK (walkpgdir pgdir uva False) (\<lambda>pte.
     if pte = 0 then panic ''clearpteu''
     else setM (\<lambda>m. st32 m pte (ld32 m pte AND (4294967295 - PTE_U))))"

section \<open>The kernel's mappings\<close>

record kmap_entry =
  km_virt :: nat
  km_start :: nat
  km_end :: nat
  km_perm :: nat

definition kmap :: "nat \<Rightarrow> kmap_entry list" where
  "kmap dat =
     [\<lparr>km_virt = KERNBASE, km_start = 0, km_end = EXTMEM, km_perm = PTE_W\<rparr>,
      \<lparr>km_virt = KERNLINK, km_start = V2P KERNLINK, km_end = V2P dat, km_perm = 0\<rparr>,
      \<lparr>km_virt = dat, km_start = V2P dat, km_end = PHYSTOP, km_perm = PTE_W\<rparr>,
      \<lparr>km_virt = DEVSPACE, km_start = DEVSPACE, km_end = 0, km_perm = PTE_W\<rparr>]"

definition map_kernel :: "nat \<Rightarrow> kmap_entry \<Rightarrow> ('e memst_scheme, nat option) K" where
  "map_kernel pgdir k =
     bindK (mappages pgdir (km_virt k) (u32 (km_end k + 4294967296 - km_start k)) (km_start k) (km_perm k)) (\<lambda>r.
     if r < 0 then thenK (freevm pgdir) (ret (Some 0)) else ret None)"

definition setupkvm :: "('e memst_scheme, nat) K" where
  "setupkvm =
     bindK kalloc (\<lambda>pgdir.
     if pgdir = 0 then ret 0
     else
       thenK (setM (\<lambda>m. memset m pgdir 0 PGSIZE))
       (if P2V PHYSTOP > DEVSPACE then panic ''PHYSTOP too high''
        else
          bindK (getK kdata) (\<lambda>dat.
          bindK (forK (kmap dat) (map_kernel pgdir)) (\<lambda>r.
          case r of Some e \<Rightarrow> ret e | None \<Rightarrow> ret pgdir))))"

definition switchkvm :: "('e memst_scheme, unit) K" where
  "switchkvm = modK (\<lambda>s. s\<lparr>cr3 := V2P (kpgdir s)\<rparr>)"

definition kvmalloc :: "('e memst_scheme, unit) K" where
  "kvmalloc = bindK setupkvm (\<lambda>d. thenK (modK (\<lambda>s. s\<lparr>kpgdir := d\<rparr>)) switchkvm)"

definition switchuvm :: "nat option \<Rightarrow> ('e memst_scheme, unit) K" where
  "switchuvm p =
     (case p of None \<Rightarrow> panic ''switchuvm: no process'' | Some i \<Rightarrow>
      bindK (getK (\<lambda>s. ptable s ! i)) (\<lambda>p.
      if p_kstack p = 0 then panic ''switchuvm: no kstack''
      else if p_pgdir p = 0 then panic ''switchuvm: no pgdir''
      else modK (\<lambda>s. s\<lparr>cr3 := V2P (p_pgdir p)\<rparr>)))"

section \<open>Whole address spaces\<close>

text \<open>A list of bytes stored at an address.\<close>

definition put_bytes :: "mem \<Rightarrow> nat \<Rightarrow> u8 list \<Rightarrow> mem" where
  "put_bytes m a bs x = (if a \<le> x \<and> x < a + length bs then bs ! (x - a) else m x)"

definition inituvm :: "nat \<Rightarrow> u8 list \<Rightarrow> ('e memst_scheme, unit) K" where
  "inituvm pgdir init =
     (if length init \<ge> PGSIZE then panic ''inituvm: more than a page''
      else
        bindK kalloc (\<lambda>mem.
        thenK (setM (\<lambda>m. memset m mem 0 PGSIZE))
        (bindK (mappages pgdir 0 PGSIZE (V2P mem) (PTE_W OR PTE_U)) (\<lambda>_.
        setM (\<lambda>m. put_bytes m mem init)))))"

definition load_one :: "nat \<Rightarrow> nat \<Rightarrow> nat \<Rightarrow> nat \<Rightarrow> nat \<Rightarrow> nat \<Rightarrow> ('e memst_scheme, int option) K" where
  "load_one pgdir addr ip offset sz i =
     bindK (walkpgdir pgdir (u32 (addr + i)) False) (\<lambda>pte.
     if pte = 0 then panic ''loaduvm: address should exist''
     else
       bindK (getM (\<lambda>m. PTE_ADDR (ld32 m pte))) (\<lambda>pa.
       let n = (if sz - i < PGSIZE then sz - i else PGSIZE) in
       bindK (readi ip (u32 (offset + i)) n) (\<lambda>(r, bs).
       thenK (setM (\<lambda>m. put_bytes m (P2V pa) bs))
       (ret (if r \<noteq> int n then Some (-1) else None)))))"

definition loaduvm :: "nat \<Rightarrow> nat \<Rightarrow> nat \<Rightarrow> nat \<Rightarrow> nat \<Rightarrow> ('e memst_scheme, int) K" where
  "loaduvm pgdir addr ip offset sz =
     (if addr mod PGSIZE \<noteq> 0 then panic ''loaduvm: addr must be page aligned''
      else
        bindK (forK (pages_from 0 sz) (load_one pgdir addr ip offset sz)) (\<lambda>r.
        case r of Some e \<Rightarrow> ret e | None \<Rightarrow> ret 0))"

text \<open>One page of \<^verbatim>\<open>copyuvm\<close>; \<open>Some ()\<close> is the jump to \<^verbatim>\<open>bad\<close>.\<close>

definition copy_one :: "nat \<Rightarrow> nat \<Rightarrow> nat \<Rightarrow> ('e memst_scheme, unit option) K" where
  "copy_one pgdir d i =
     bindK (walkpgdir pgdir i False) (\<lambda>pte.
     if pte = 0 then panic ''copyuvm: pte should exist''
     else
       bindK (getM (\<lambda>m. ld32 m pte)) (\<lambda>e.
       if \<not> has_flag e PTE_P then panic ''copyuvm: page not present''
       else
         bindK kalloc (\<lambda>mem.
         if mem = 0 then ret (Some ())
         else
           thenK (setM (\<lambda>m. memmove m mem (P2V (PTE_ADDR e)) PGSIZE))
           (bindK (mappages d i PGSIZE (V2P mem) (PTE_FLAGS e)) (\<lambda>r.
           if r < 0 then thenK (kfree mem) (ret (Some ())) else ret None)))))"

definition copyuvm :: "nat \<Rightarrow> nat \<Rightarrow> ('e memst_scheme, nat) K" where
  "copyuvm pgdir sz =
     bindK setupkvm (\<lambda>d.
     if d = 0 then ret 0
     else
       bindK (forK (pages_from 0 sz) (copy_one pgdir d)) (\<lambda>r.
       case r of None \<Rightarrow> ret d | Some _ \<Rightarrow> thenK (freevm d) (ret 0)))"

text \<open>\<^verbatim>\<open>uva2ka\<close> reads through the pointer that \<^verbatim>\<open>walkpgdir\<close> returns without checking it.\<close>

definition uva2ka :: "nat \<Rightarrow> nat \<Rightarrow> ('e memst_scheme, nat) K" where
  "uva2ka pgdir uva =
     bindK (walkpgdir pgdir uva False) (\<lambda>pte.
     if pte = 0 then stopK (Fault ''uva2ka'')
     else
       bindK (getM (\<lambda>m. ld32 m pte)) (\<lambda>e.
       if \<not> has_flag e PTE_P then ret 0
       else if \<not> has_flag e PTE_U then ret 0
       else ret (P2V (PTE_ADDR e))))"

function copyout :: "nat \<Rightarrow> nat \<Rightarrow> u8 list \<Rightarrow> ('e memst_scheme, int) K" where
  "copyout pgdir va p =
     (if p = [] then ret 0
      else
        bindK (uva2ka pgdir (PGROUNDDOWN va)) (\<lambda>pa0.
        if pa0 = 0 then ret (-1)
        else
          let n = min (PGSIZE - (va - PGROUNDDOWN va)) (length p) in
          thenK (setM (\<lambda>m. put_bytes m (pa0 + (va - PGROUNDDOWN va)) (take n p)))
          (copyout pgdir (u32 (PGROUNDDOWN va + PGSIZE)) (drop n p))))"
  by pat_completeness auto

termination copyout
proof (relation "measure (\<lambda>(pgdir, va, p). length p)")
  fix va :: nat and p :: "u8 list" and pgdir x :: nat and n :: nat
  assume "p \<noteq> []" "n = min (PGSIZE - (va - PGROUNDDOWN va)) (length p)"
  moreover have "va - PGROUNDDOWN va < PGSIZE"
    by (simp add: PGROUNDDOWN_def minus_div_mult_eq_mod)
  ultimately show "((pgdir, u32 (PGROUNDDOWN va + PGSIZE), drop n p), pgdir, va, p)
      \<in> measure (\<lambda>(pgdir, va, p). length p)"
    by auto
qed simp

declare copyout.simps [simp del]

section \<open>Lazy allocation\<close>

definition lazy_one :: "nat \<Rightarrow> nat \<Rightarrow> ('e memst_scheme, nat option) K" where
  "lazy_one pgdir a =
     bindK kalloc (\<lambda>mem.
     if mem = 0 then
       thenK (cprintf (text_of ''allocPage: kalloc() failed to allocate.'' @ [newline]) []) (ret (Some 0))
     else
       thenK (setM (\<lambda>m. memset m mem 0 PGSIZE))
       (bindK (mappages pgdir a PGSIZE (V2P mem) (PTE_W OR PTE_U)) (\<lambda>r.
       if r < 0 then
         thenK (cprintf (text_of ''allocPage: mappages() failed to allocate.'' @ [newline]) [])
         (thenK (kfree mem) (ret (Some 0)))
       else ret None)))"

definition allocPage :: "nat \<Rightarrow> nat \<Rightarrow> nat \<Rightarrow> ('e memst_scheme, nat) K" where
  "allocPage pgdir va sz =
     bindK (forK (pages_from (PGROUNDDOWN va) sz) (lazy_one pgdir)) (\<lambda>r.
     case r of Some e \<Rightarrow> ret e | None \<Rightarrow> ret 1)"

section \<open>Translation\<close>

text \<open>The entry for a virtual address, if it is present, and the translation the processor performs:
  the kernel address of the byte and the flags of its page.\<close>

definition pde :: "mem \<Rightarrow> nat \<Rightarrow> nat \<Rightarrow> nat" where
  "pde m d i = ld32 m (d + 4 * i)"

definition tab :: "mem \<Rightarrow> nat \<Rightarrow> nat \<Rightarrow> nat" where
  "tab m d i = P2V (PTE_ADDR (pde m d i))"

definition entry_of :: "mem \<Rightarrow> nat \<Rightarrow> nat \<Rightarrow> nat option" where
  "entry_of m d va =
     (if \<not> has_flag (pde m d (PDX va)) PTE_P then None
      else let pte = ld32 m (tab m d (PDX va) + 4 * PTX va) in if has_flag pte PTE_P then Some pte else None)"

definition mmu :: "mem \<Rightarrow> nat \<Rightarrow> nat \<Rightarrow> (nat \<times> nat) option" where
  "mmu m d va =
     map_option (\<lambda>pte. (P2V (PTE_ADDR pte) + va mod PGSIZE, PTE_FLAGS pte)) (entry_of m d va)"

section \<open>Arithmetic of entries\<close>

lemma or_aligned:
  assumes "a mod 4096 = 0" "f < 4096"
  shows "a OR f = a + (f :: nat)"
proof -
  have "take_bit 12 a = 0" using assms(1) by (simp add: take_bit_eq_mod)
  moreover have f: "take_bit 12 f = f" using assms(2) by (simp add: take_bit_eq_mod)
  moreover have "take_bit 12 (a AND f) = a AND f" by (metis and.assoc f take_bit_eq_mask)
  ultimately have "a AND f = 0" by simp
  then show ?thesis by (simp add: disjunctive_add_eq_or)
qed

lemma or_less_4096:
  assumes "a < 4096" "b < (4096 :: nat)"
  shows "a OR b < 4096"
proof -
  have "take_bit 12 a = a" "take_bit 12 b = b" using assms by (simp_all add: take_bit_eq_mod)
  then have "take_bit 12 (a OR b) = a OR b" by simp
  then have "(a OR b) mod 4096 = a OR b" by (simp add: take_bit_eq_mod)
  then show ?thesis by (metis mod_less_divisor zero_less_numeral)
qed

lemma has_P [simp]: "has_flag e PTE_P \<longleftrightarrow> odd e" "has_flag e (Suc 0) \<longleftrightarrow> odd e"
  by (simp_all add: has_flag_def and_one_eq odd_iff_mod_2_eq_one flip: One_nat_def)

lemma odd_or_1: "odd (perm OR (1 :: nat))"
  by (simp add: even_or_iff)

lemma P2V_V2P: "x < 4294967296 \<Longrightarrow> P2V (V2P x) = x"
proof -
  assume x: "x < 4294967296"
  show ?thesis
  proof (cases "x < KERNBASE")
    case True
    then have "V2P x = x + KERNBASE" by (simp add: V2P_def u32_def)
    then show ?thesis using True by (simp add: P2V_def u32_def)
  next
    case False
    then have "V2P x = x - KERNBASE"
      using x by (simp add: V2P_def u32_def mod_if)
    then show ?thesis using False x by (simp add: P2V_def u32_def)
  qed
qed

lemma mod_4096_of_u32: "u32 x mod 4096 = x mod 4096"
  unfolding u32_def by (rule mod_mod_cancel) (simp add: dvd_eq_mod_eq_0)

lemma aligned [simp]: "PTE_ADDR e mod 4096 = 0" "PGROUNDDOWN a mod 4096 = 0" "P2V (PTE_ADDR e) mod 4096 = 0"
  by (simp_all add: PTE_ADDR_def PGROUNDDOWN_def P2V_def mod_4096_of_u32 mod_add_eq[symmetric])

lemma V2P_aligned: "x mod 4096 = 0 \<Longrightarrow> V2P x mod 4096 = 0"
  by (simp add: V2P_def mod_4096_of_u32 mod_add_eq[symmetric])

lemma V2P_less [simp]: "V2P x < 4294967296" and P2V_less [simp]: "P2V x < 4294967296" and u32_less [simp]: "u32 x < 4294967296"
  by (simp_all add: V2P_def P2V_def u32_def)

lemma PTE_add: "a mod 4096 = 0 \<Longrightarrow> f < 4096 \<Longrightarrow> PTE_ADDR (a + f) = a \<and> PTE_FLAGS (a + f) = f"
  by (auto simp: PTE_ADDR_def PTE_FLAGS_def mod_add_eq[symmetric] div_add1_eq)

section \<open>Well-formed page tables\<close>

definition live :: "mem \<Rightarrow> nat \<Rightarrow> nat set" where
  "live m d = {i. i < 1024 \<and> has_flag (pde m d i) PTE_P}"

definition pt_pages :: "mem \<Rightarrow> nat \<Rightarrow> nat set" where
  "pt_pages m d = insert d (tab m d ` live m d)"

definition pt_ok :: "mem \<Rightarrow> nat \<Rightarrow> bool" where
  "pt_ok m d \<longleftrightarrow> d mod 4096 = 0 \<and> d \<noteq> 0 \<and> 0 \<notin> tab m d ` live m d \<and> d \<notin> tab m d ` live m d \<and>
     inj_on (tab m d) (live m d)"

lemma PDX_less [simp]: "PDX va < 1024" and PTX_less [simp]: "PTX va < 1024"
  by (simp_all add: PDX_def PTX_def)

lemma tab_aligned [simp]: "tab m d i mod 4096 = 0"
  by (simp add: tab_def)

definition agree :: "nat \<Rightarrow> mem \<Rightarrow> mem \<Rightarrow> bool" where
  "agree v m n \<longleftrightarrow> (\<forall>x. in_page v x \<longrightarrow> m x = n x)"

lemma ld32_page_cong: "agree v m n \<Longrightarrow> i < 1024 \<Longrightarrow> ld32 m (v + 4 * i) = ld32 n (v + 4 * i)"
  by (intro ld32_cong) (simp add: agree_def in_page_def)

lemma pde_cong: "agree d m n \<Longrightarrow> i < 1024 \<Longrightarrow> pde m d i = pde n d i"
  unfolding pde_def by (rule ld32_page_cong)

lemma live_cong: "agree d m n \<Longrightarrow> live m d = live n d"
  unfolding live_def using pde_cong[of d m n] by auto

lemma tab_cong: "agree d m n \<Longrightarrow> i < 1024 \<Longrightarrow> tab m d i = tab n d i"
  unfolding tab_def using pde_cong[of d m n i] by simp

lemma tab_live_cong: "agree d m n \<Longrightarrow> i \<in> live n d \<Longrightarrow> tab m d i = tab n d i"
  by (rule tab_cong) (simp_all add: live_def)

lemma pt_pages_cong: "agree d m n \<Longrightarrow> pt_pages m d = pt_pages n d"
  unfolding pt_pages_def using live_cong[of d m n] tab_live_cong[of d m n] by (metis image_cong)

lemma pt_ok_cong:
  assumes "agree d m n"
  shows "pt_ok m d = pt_ok n d"
proof -
  have l: "live m d = live n d" and t: "\<And>i. i \<in> live n d \<Longrightarrow> tab m d i = tab n d i"
    using live_cong[OF assms] tab_live_cong[OF assms] by auto
  have "tab m d ` live n d = tab n d ` live n d" using t by (rule image_cong[OF refl])
  moreover have "inj_on (tab m d) (live n d) = inj_on (tab n d) (live n d)" using t by (rule inj_on_cong)
  ultimately show ?thesis unfolding pt_ok_def l by simp
qed

text \<open>Memory outside the directory and its tables has no part in the translation.\<close>

lemma entry_of_cong:
  assumes "\<And>v. v \<in> pt_pages n d \<Longrightarrow> agree v m n"
  shows "entry_of m d va = entry_of n d va"
proof -
  have d: "agree d m n" using assms by (simp add: pt_pages_def)
  show ?thesis
  proof (cases "PDX va \<in> live n d")
    case True
    then have t: "tab m d (PDX va) = tab n d (PDX va)" using tab_live_cong[OF d] by blast
    have "tab n d (PDX va) \<in> pt_pages n d" using True by (auto simp: pt_pages_def)
    then have "ld32 m (tab n d (PDX va) + 4 * PTX va) = ld32 n (tab n d (PDX va) + 4 * PTX va)"
      using assms by (intro ld32_page_cong) auto
    then show ?thesis using True t pde_cong[OF d, of "PDX va"] by (simp add: entry_of_def)
  next
    case False
    then show ?thesis using pde_cong[OF d, of "PDX va"] by (simp add: entry_of_def live_def)
  qed
qed

lemma same_page: "va div PGSIZE = va' div PGSIZE \<Longrightarrow> PDX va = PDX va' \<and> PTX va = PTX va'"
proof -
  assume e: "va div PGSIZE = va' div PGSIZE"
  have "x div 4194304 = x div PGSIZE div 1024" for x :: nat by (simp add: div_mult2_eq[symmetric])
  with e show ?thesis by (simp add: PDX_def PTX_def)
qed

lemma same_slot:
  assumes "va < 4294967296" "va' < 4294967296" "PDX va = PDX va'" "PTX va = PTX va'"
  shows "va div PGSIZE = va' div PGSIZE"
proof -
  have d: "x div 4194304 = x div PGSIZE div 1024" for x :: nat by (simp add: div_mult2_eq[symmetric])
  have "x div PGSIZE div 1024 < 1024" if "x < 4294967296" for x :: nat
    using that by (simp add: less_mult_imp_div_less)
  then have "va div PGSIZE div 1024 = va' div PGSIZE div 1024"
    using assms by (simp add: PDX_def d)
  moreover have "va div PGSIZE mod 1024 = va' div PGSIZE mod 1024" using assms(4) by (simp add: PTX_def)
  ultimately show ?thesis by (metis div_mult_mod_eq)
qed

section \<open>Changing one entry\<close>

lemma agree_st32:
  assumes "a mod 4096 = 0" "v mod 4096 = 0" "v \<noteq> a" "i < 1024"
  shows "agree v (st32 m (a + 4 * i) w) m"
proof -
  have "st32 m (a + 4 * i) w x = m x" if "in_page v x" for x
  proof -
    have "\<not> in_page a x" using pages_apart[OF assms(2,1,3) that] .
    then show ?thesis using assms(4) by (intro st32_other) (auto simp: in_page_def)
  qed
  then show ?thesis by (simp add: agree_def)
qed

lemma agree_memset:
  assumes "a mod 4096 = 0" "v mod 4096 = 0" "v \<noteq> a"
  shows "agree v (memset m a c PGSIZE) m"
  using pages_apart[OF assms(2,1,3)] by (auto simp: agree_def memset_apply in_page_def)

lemma agree_trans: "agree v m n \<Longrightarrow> agree v n k \<Longrightarrow> agree v m k"
  by (simp add: agree_def)

lemma agree_refl [simp]: "agree v m m"
  by (simp add: agree_def)

definition pte_addr :: "mem \<Rightarrow> nat \<Rightarrow> nat \<Rightarrow> nat" where
  "pte_addr m d va = tab m d (PDX va) + 4 * PTX va"

lemma pt_pages_aligned: "pt_ok m d \<Longrightarrow> v \<in> pt_pages m d \<Longrightarrow> v mod 4096 = 0"
  by (auto simp: pt_pages_def pt_ok_def)

lemma store_pte:
  assumes ok: "pt_ok m d" and l: "PDX va \<in> live m d" and v: "v < 4294967296"
  defines "m' \<equiv> st32 m (pte_addr m d va) v"
  shows "pt_ok m' d" "pt_pages m' d = pt_pages m d"
    "entry_of m' d va' = (if PDX va' = PDX va \<and> PTX va' = PTX va then if odd v then Some v else None
      else entry_of m d va')"
    "w mod 4096 = 0 \<Longrightarrow> w \<noteq> tab m d (PDX va) \<Longrightarrow> agree w m' m"
proof -
  have ne: "d \<noteq> tab m d (PDX va)" "d mod 4096 = 0" using ok l by (auto simp: pt_ok_def)
  show other: "w mod 4096 = 0 \<Longrightarrow> w \<noteq> tab m d (PDX va) \<Longrightarrow> agree w m' m" for w
    unfolding m'_def pte_addr_def by (rule agree_st32) simp_all
  have d: "agree d m' m" by (rule other) (use ne in simp_all)
  show "pt_ok m' d" "pt_pages m' d = pt_pages m d"
    using ok pt_ok_cong[OF d] pt_pages_cong[OF d] by simp_all
  have t: "tab m' d i = tab m d i" "pde m' d i = pde m d i" if "i < 1024" for i
    using tab_cong[OF d that] pde_cong[OF d that] by simp_all
  show "entry_of m' d va' = (if PDX va' = PDX va \<and> PTX va' = PTX va then if odd v then Some v else None
      else entry_of m d va')"
  proof (cases "PDX va' = PDX va")
    case True
    have "pte_addr m d va mod 4 = 0" "(tab m d (PDX va) + 4 * PTX va') mod 4 = 0"
      using mod_mod_cancel[of 4 4096 "tab m d (PDX va)"]
      by (simp_all add: pte_addr_def mod_add_eq[symmetric])
    from ld32_st32_aligned[OF this v] have "ld32 m' (tab m d (PDX va) + 4 * PTX va') =
        (if PTX va' = PTX va then v else ld32 m (tab m d (PDX va) + 4 * PTX va'))"
      by (simp add: m'_def pte_addr_def)
    then show ?thesis using True l t[of "PDX va"] by (simp add: entry_of_def live_def)
  next
    case False
    show ?thesis
    proof (cases "PDX va' \<in> live m d")
      case True
      then have "tab m d (PDX va') \<noteq> tab m d (PDX va)"
        using ok l False by (auto simp: pt_ok_def inj_on_def)
      then have "agree (tab m d (PDX va')) m' m" by (intro other) simp_all
      from ld32_page_cong[OF this, of "PTX va'"] show ?thesis
        using False t[of "PDX va'"] by (simp add: entry_of_def)
    next
      case no: False
      then show ?thesis using False t[of "PDX va'"] by (simp add: entry_of_def live_def)
    qed
  qed
qed

lemma V2P_or_flags:
  assumes "p mod 4096 = 0" "p < 4294967296"
  shows "V2P p OR PTE_P OR PTE_W OR PTE_U = V2P p + 7" "P2V (PTE_ADDR (V2P p + 7)) = p"
    "V2P p + 7 < 4294967296" "odd (V2P p + 7)"
proof -
  have a: "V2P p mod 4096 = 0" using assms(1) by (rule V2P_aligned)
  have "V2P p OR PTE_P OR PTE_W OR PTE_U = V2P p OR 7" by (simp add: or.assoc)
  with or_aligned[OF a, of 7] show "V2P p OR PTE_P OR PTE_W OR PTE_U = V2P p + 7" by simp
  show "P2V (PTE_ADDR (V2P p + 7)) = p" using PTE_add[OF a, of 7] P2V_V2P[OF assms(2)] by simp
  obtain q where q: "V2P p = 4096 * q" using a by (metis dvd_def mod_0_imp_dvd)
  have "V2P p < 4294967296" by simp
  with q have "q \<le> 1048575" by linarith
  with q show "V2P p + 7 < 4294967296" by linarith
  show "odd (V2P p + 7)" by (simp add: q)
qed

lemma new_table_dir:
  assumes ok: "pt_ok m d" and i: "i < 1024" "i \<notin> live m d"
    and p: "p mod 4096 = 0" "p \<noteq> 0" "p < 4294967296" "p \<notin> pt_pages m d"
    and m': "m' = st32 (memset m p 0 PGSIZE) (d + 4 * i) (V2P p OR PTE_P OR PTE_W OR PTE_U)"
    and j: "j < 1024"
  shows "pde m' d j = (if j = i then V2P p + 7 else pde m d j)"
proof -
  have d: "d mod 4096 = 0" "d \<noteq> p" using ok p by (auto simp: pt_ok_def pt_pages_def)
  have a: "(d + 4 * i) mod 4 = 0" "(d + 4 * j) mod 4 = 0"
    using d mod_mod_cancel[of 4 4096 d] by (simp_all add: mod_add_eq[symmetric])
  have "pde (memset m p 0 PGSIZE) d j = pde m d j"
    by (rule pde_cong[OF agree_memset]) (use p d j in auto)
  moreover have "pde m' d j = (if d + 4 * i = d + 4 * j then V2P p + 7 else pde (memset m p 0 PGSIZE) d j)"
    unfolding pde_def m' V2P_or_flags(1)[OF p(1,3)]
    by (rule ld32_st32_aligned[OF a]) (rule V2P_or_flags(3)[OF p(1,3)])
  ultimately show ?thesis by auto
qed

lemma new_table:
  assumes ok: "pt_ok m d" and i: "i < 1024" "i \<notin> live m d"
    and p: "p mod 4096 = 0" "p \<noteq> 0" "p < 4294967296" "p \<notin> pt_pages m d"
    and m': "m' = st32 (memset m p 0 PGSIZE) (d + 4 * i) (V2P p OR PTE_P OR PTE_W OR PTE_U)"
  shows "live m' d = insert i (live m d)" "tab m' d i = p" "pt_ok m' d"
    "pt_pages m' d = insert p (pt_pages m d)" "entry_of m' d va = entry_of m d va"
    "w mod 4096 = 0 \<Longrightarrow> w \<noteq> p \<Longrightarrow> w \<noteq> d \<Longrightarrow> agree w m' m"
proof -
  note dir = new_table_dir[OF ok i p m'] and fl = V2P_or_flags[OF p(1,3)]
  have d: "d mod 4096 = 0" "d \<noteq> p" using ok p by (auto simp: pt_ok_def pt_pages_def)
  have odd7: "has_flag (V2P p + 7) PTE_P" unfolding has_P(1) by (rule fl(4))
  show live: "live m' d = insert i (live m d)"
    using i odd7 by (auto simp: live_def dir split: if_splits)
  have tab: "tab m' d j = (if j = i then p else tab m d j)" if "j < 1024" for j
    using dir[OF that] fl(2) by (simp add: tab_def)
  then show "tab m' d i = p" using i(1) by simp
  have tl: "tab m' d j = tab m d j" if "j \<in> live m d" for j using tab[of j] that i by (auto simp: live_def)
  then have "tab m' d ` live m d = tab m d ` live m d" by (rule image_cong[OF refl])
  then have im: "tab m' d ` live m' d = insert p (tab m d ` live m d)"
    unfolding live image_insert using tab[OF i(1)] by simp
  show "pt_pages m' d = insert p (pt_pages m d)" unfolding pt_pages_def im by auto
  have "inj_on (tab m' d) (live m d)"
    using ok inj_on_cong[of "live m d" "tab m' d" "tab m d", OF tl] by (simp add: pt_ok_def)
  moreover have "tab m' d i \<notin> tab m' d ` live m d"
    using p(4) tab[OF i(1)] \<open>tab m' d ` live m d = tab m d ` live m d\<close> by (simp add: pt_pages_def)
  ultimately have "inj_on (tab m' d) (live m' d)"
    unfolding live inj_on_insert using i(2) by simp
  then show "pt_ok m' d" using ok p(2) d unfolding pt_ok_def im by auto
  show other: "agree w m' m" if "w mod 4096 = 0" "w \<noteq> p" "w \<noteq> d" for w
    unfolding m' by (rule agree_trans[OF agree_st32 agree_memset]) (use that d p i in auto)
  show "entry_of m' d va = entry_of m d va"
  proof (cases "PDX va = i")
    case True
    have "ld32 m' (p + 4 * PTX va) = ld32 (memset m p 0 PGSIZE) (p + 4 * PTX va)"
      unfolding m' by (rule ld32_page_cong[OF agree_st32]) (use d p i in auto)
    also have "\<dots> = 0"
    proof -
      have "4 * PTX va + 3 < PGSIZE" using PTX_less[of va] by linarith
      then show ?thesis by (simp add: ld32_def memset_apply)
    qed
    finally show ?thesis
      using True i by (simp add: entry_of_def tab live_def)
  next
    case False
    show ?thesis
    proof (cases "PDX va \<in> live m d")
      case True
      then have "tab m d (PDX va) \<in> tab m d ` live m d" by simp
      then have "tab m d (PDX va) \<noteq> p" "tab m d (PDX va) \<noteq> d"
        using p(4) ok unfolding pt_pages_def pt_ok_def by auto
      from ld32_page_cong[OF other[OF tab_aligned this], of "PTX va"] show ?thesis
        using False by (simp add: entry_of_def tab dir)
    next
      case no: False
      then show ?thesis using False by (simp add: entry_of_def dir live_def)
    qed
  qed
qed

section \<open>Operations on one page directory\<close>

text \<open>\<open>vm_ok\<close>: the directory, its tables and the free pages are apart. \<open>vm_step\<close>: what the
  operations that add mappings do to the machine; \<open>zs\<close> are the pages they took.\<close>

definition vm_ok :: "nat \<Rightarrow> nat list \<Rightarrow> 'e memst_scheme \<Rightarrow> bool" where
  "vm_ok d xs s \<longleftrightarrow> kmem_ok xs s \<and> pt_ok (kmem s) d \<and> set xs \<inter> pt_pages (kmem s) d = {}"

definition vm_step :: "nat \<Rightarrow> nat list \<Rightarrow> nat list \<Rightarrow> 'e memst_scheme \<Rightarrow> 'e memst_scheme \<Rightarrow> bool" where
  "vm_step d zs ys s t \<longleftrightarrow> vm_ok d ys t \<and> (\<exists>m f. t = s\<lparr>kmem := m, kfreelist := f\<rparr>) \<and>
     pt_pages (kmem s) d \<subseteq> pt_pages (kmem t) d \<and> pt_pages (kmem t) d \<subseteq> pt_pages (kmem s) d \<union> set zs \<and>
     (\<forall>v. v mod 4096 = 0 \<longrightarrow> v \<notin> pt_pages (kmem s) d \<longrightarrow> v \<notin> set zs \<longrightarrow> agree v (kmem t) (kmem s))"

lemma vm_step_refl: "vm_ok d xs s \<Longrightarrow> vm_step d [] xs s s"
  unfolding vm_step_def by (auto intro!: exI[of _ "kmem s"] exI[of _ "kfreelist s"])

lemma vm_stepI:
  assumes "vm_ok d ys t" "t = s\<lparr>kmem := kmem t, kfreelist := kfreelist t\<rparr>"
    "pt_pages (kmem s) d \<subseteq> pt_pages (kmem t) d" "pt_pages (kmem t) d \<subseteq> pt_pages (kmem s) d \<union> set zs"
    "\<And>v. v mod 4096 = 0 \<Longrightarrow> v \<notin> pt_pages (kmem s) d \<Longrightarrow> v \<notin> set zs \<Longrightarrow> agree v (kmem t) (kmem s)"
  shows "vm_step d zs ys s t"
  unfolding vm_step_def using assms(1,3-5) exI[of "\<lambda>m. \<exists>f. t = s\<lparr>kmem := m, kfreelist := f\<rparr>", OF exI, OF assms(2)]
  by simp

lemma vm_stepD:
  assumes "vm_step d zs ys s t"
  shows "vm_ok d ys t" "\<exists>m f. t = s\<lparr>kmem := m, kfreelist := f\<rparr>"
    "pt_pages (kmem s) d \<subseteq> pt_pages (kmem t) d" "pt_pages (kmem t) d \<subseteq> pt_pages (kmem s) d \<union> set zs"
    "v mod 4096 = 0 \<Longrightarrow> v \<notin> pt_pages (kmem s) d \<Longrightarrow> v \<notin> set zs \<Longrightarrow> agree v (kmem t) (kmem s)"
  using assms unfolding vm_step_def by simp_all

lemma vm_step_trans:
  assumes st: "vm_step d zs ys s t" and tu: "vm_step d zs' ys' t u"
  shows "vm_step d (zs @ zs') ys' s u"
proof -
  from vm_stepD(2)[OF st] vm_stepD(2)[OF tu] have "\<exists>m f. u = s\<lparr>kmem := m, kfreelist := f\<rparr>"
    by (elim exE) (simp, blast)
  moreover have "agree v (kmem u) (kmem s)"
    if v: "v mod 4096 = 0" "v \<notin> pt_pages (kmem s) d" "v \<notin> set (zs @ zs')" for v
  proof (rule agree_trans)
    have "v \<notin> pt_pages (kmem t) d" using vm_stepD(4)[OF st] v by auto
    then show "agree v (kmem u) (kmem t)" using vm_stepD(5)[OF tu v(1)] v(3) by simp
    show "agree v (kmem t) (kmem s)" using vm_stepD(5)[OF st v(1,2)] v(3) by simp
  qed
  ultimately show ?thesis
    using vm_stepD(3,4)[OF st] vm_stepD(1,3,4)[OF tu] unfolding vm_step_def by auto
qed

lemma vm_ok_free:
  assumes "vm_ok d (p # ys) s"
  shows "p mod 4096 = 0" "p \<noteq> 0" "p < 4294967296" "p \<notin> pt_pages (kmem s) d" "p \<notin> set ys"
  using assms by (auto simp: vm_ok_def kmem_ok_def free_page_def)

lemma kmem_ok_update:
  assumes ok: "kmem_ok ys s" and same: "\<And>v. v \<in> set ys \<Longrightarrow> agree v m (kmem s)"
  shows "kmem_ok ys (s\<lparr>kmem := m\<rparr>)"
  by (rule kmem_ok_frame[OF ok]) (use same in \<open>auto simp: agree_def\<close>)

lemma walk_present:
  "PDX va \<in> live (kmem s) d \<Longrightarrow> walkpgdir d va alloc s = Inr (pte_addr (kmem s) d va, s)"
  by (simp add: walkpgdir_def kdefs getM_def live_def pte_addr_def tab_def pde_def)

lemma walk_absent:
  "PDX va \<notin> live (kmem s) d \<Longrightarrow> walkpgdir d va False s = Inr (0, s)"
  by (simp add: walkpgdir_def kdefs getM_def live_def pde_def)

lemma pte_addr_nonzero: "pt_ok m d \<Longrightarrow> PDX va \<in> live m d \<Longrightarrow> pte_addr m d va \<noteq> 0"
  by (auto simp: pt_ok_def pte_addr_def)

lemma live_finite [simp]: "finite (live m d)"
  by (simp add: live_def)

lemma card_live: "i < 1024 \<Longrightarrow> i \<notin> live m d \<Longrightarrow> card (live m d) < 1024"
  using psubset_card_mono[of "{..<1024}" "live m d"] by (fastforce simp: live_def)

lemma walk_alloc:
  assumes ok: "vm_ok d xs s"
  obtains (full) "xs = []" "walkpgdir d va True s = Inr (0, s)" "card (live (kmem s) d) < 1024"
  | (found) zs ys t where "xs = zs @ ys" "length zs \<le> 1" "walkpgdir d va True s = Inr (pte_addr (kmem t) d va, t)"
      "vm_step d zs ys s t" "PDX va \<in> live (kmem t) d" "\<And>va'. entry_of (kmem t) d va' = entry_of (kmem s) d va'"
      "card (live (kmem t) d) = card (live (kmem s) d) + length zs"
proof (cases "PDX va \<in> live (kmem s) d")
  case True
  then show thesis using that(2)[of "[]" xs s] walk_present[OF True] vm_step_refl[OF ok] by simp
next
  case False
  show thesis
  proof (cases xs)
    case Nil
    then have "kalloc s = Inr (0, s)" using ok kalloc_empty by (auto simp: vm_ok_def)
    moreover have "card (live (kmem s) d) < 1024" using card_live[OF PDX_less False] .
    ultimately show thesis using that(1) Nil False by (simp add: walkpgdir_def kdefs getM_def live_def pde_def)
  next
    case (Cons p ys)
    note p = vm_ok_free[OF ok[unfolded Cons]]
    let ?m = "st32 (memset (kmem s) p 0 PGSIZE) (d + 4 * PDX va) (V2P p OR PTE_P OR PTE_W OR PTE_U)"
    let ?t = "s\<lparr>kfreelist := ld32 (kmem s) p, kmem := ?m\<rparr>"
    have pt: "pt_ok (kmem s) d" using ok by (simp add: vm_ok_def)
    note n = new_table[OF pt PDX_less False p(1-4) refl]
    have k: "kalloc s = Inr (p, s\<lparr>kfreelist := ld32 (kmem s) p\<rparr>)"
      "kmem_ok ys (s\<lparr>kfreelist := ld32 (kmem s) p\<rparr>)"
      using kalloc_pop[of p ys s] ok Cons by (simp_all add: vm_ok_def)
    have "walkpgdir d va True s = Inr (p + 4 * PTX va, ?t)"
      using False p(2) k(1) by (simp add: walkpgdir_def kdefs getM_def setM_def live_def pde_def)
    moreover have "pte_addr (kmem ?t) d va = p + 4 * PTX va" using n(2) by (simp add: pte_addr_def)
    moreover have ok_t: "kmem_ok ys (s\<lparr>kfreelist := ld32 (kmem s) p\<rparr>\<lparr>kmem := ?m\<rparr>)"
    proof (rule kmem_ok_update[OF k(2)])
      fix v assume "v \<in> set ys"
      then have "v mod 4096 = 0" "v \<noteq> p" "v \<noteq> d"
        using ok p(5) Cons by (auto simp: vm_ok_def kmem_ok_def free_page_def pt_pages_def)
      then show "agree v ?m (kmem (s\<lparr>kfreelist := ld32 (kmem s) p\<rparr>))" using n(6) by simp
    qed
    moreover have "vm_ok d ys ?t"
      using ok ok_t n(3,4) p(5) unfolding vm_ok_def Cons by auto
    then have "vm_step d [p] ys s ?t"
      by (rule vm_stepI) (use n(4,6) in \<open>auto simp: pt_pages_def\<close>)
    moreover have "card (live (kmem ?t) d) = card (live (kmem s) d) + 1" using False n(1) by simp
    ultimately show thesis using that(2)[of "[p]" ys ?t] Cons n(1,5) by simp
  qed
qed

lemma vm_step_store:
  assumes ok: "vm_ok d ys t" and l: "PDX va \<in> live (kmem t) d" and v: "v < 4294967296"
  defines "u \<equiv> t\<lparr>kmem := st32 (kmem t) (pte_addr (kmem t) d va) v\<rparr>"
  shows "vm_step d [] ys t u"
proof -
  have pt: "pt_ok (kmem t) d" using ok by (simp add: vm_ok_def)
  note st = store_pte[OF pt l v]
  have tin: "tab (kmem t) d (PDX va) \<in> pt_pages (kmem t) d" using l by (simp add: pt_pages_def)
  have "kmem_ok ys u"
    unfolding u_def
  proof (rule kmem_ok_update)
    fix w assume "w \<in> set ys"
    then have "w mod 4096 = 0" "w \<noteq> tab (kmem t) d (PDX va)"
      using ok tin by (auto simp: vm_ok_def kmem_ok_def free_page_def)
    then show "agree w (st32 (kmem t) (pte_addr (kmem t) d va) v) (kmem t)" by (rule st(4))
  qed (use ok in \<open>simp add: vm_ok_def\<close>)
  then have "vm_ok d ys u" using ok st(1,2) by (simp add: vm_ok_def u_def)
  then show ?thesis
  proof (rule vm_stepI)
    fix w assume "w mod 4096 = 0" "w \<notin> pt_pages (kmem t) d"
    then show "agree w (kmem u) (kmem t)" unfolding u_def using tin st(4)[of w] by auto
  qed (use st(2) in \<open>simp_all add: u_def\<close>)
qed

lemma live_store:
  assumes "vm_ok d ys t" "PDX va \<in> live (kmem t) d" "v < 4294967296"
  shows "live (st32 (kmem t) (pte_addr (kmem t) d va) v) d = live (kmem t) d"
proof (rule live_cong, rule store_pte(4))
  show "pt_ok (kmem t) d" using assms(1) by (simp add: vm_ok_def)
  then show "d mod 4096 = 0" "d \<noteq> tab (kmem t) d (PDX va)" using assms(2) by (auto simp: pt_ok_def)
qed (use assms in auto)

lemma entry_value:
  assumes "pa mod 4096 = 0" "pa < 4294967296" "perm < 4096"
  shows "pa OR perm OR PTE_P = pa + (perm OR 1)" "pa + (perm OR 1) < 4294967296" "odd (pa + (perm OR 1))"
proof -
  have f: "perm OR 1 < 4096" using assms(3) by (rule or_less_4096) simp
  then show "pa OR perm OR PTE_P = pa + (perm OR 1)" using or_aligned[OF assms(1) f] by (simp add: or.assoc)
  obtain q where q: "pa = 4096 * q" using assms(1) by (metis dvd_def mod_0_imp_dvd)
  with assms(2) have "q \<le> 1048575" by linarith
  with q f show "pa + (perm OR 1) < 4294967296" by linarith
  show "odd (pa + (perm OR 1))" using odd_or_1[of perm] by (simp add: q)
qed

lemma map_one_ok:
  assumes ok: "vm_ok d xs s" and va: "va = u32 (a + i * PGSIZE)" "entry_of (kmem s) d va = None"
    and pa: "q = u32 (pa + i * PGSIZE)" "q mod 4096 = 0" "perm < 4096"
  shows "runs (map_one d a pa perm i) s (\<lambda>r t. \<exists>zs ys. xs = zs @ ys \<and> vm_step d zs ys s t \<and>
    (r = Some (-1) \<and> xs = [] \<and> card (live (kmem s) d) < 1024 \<or>
     r = None \<and> length zs \<le> 1 \<and> card (live (kmem t) d) = card (live (kmem s) d) + length zs \<and> (\<forall>va' < 4294967296. entry_of (kmem t) d va' =
       (if va' div PGSIZE = va div PGSIZE then Some (q + (perm OR 1)) else entry_of (kmem s) d va'))))"
  using ok
proof (cases rule: walk_alloc[where va = va])
  case full
  then show ?thesis
    using vm_step_refl[OF ok] by (simp add: map_one_def wp runs_eq flip: va(1))
next
  case (found zs ys t)
  have pt: "pt_ok (kmem t) d" using vm_stepD(1)[OF found(4)] by (simp add: vm_ok_def)
  let ?a = "pte_addr (kmem t) d va" and ?v = "q + (perm OR 1)"
  have q: "q < 4294967296" by (simp add: pa(1))
  note e = entry_value[OF pa(2) q pa(3)]
  let ?u = "t\<lparr>kmem := st32 (kmem t) ?a ?v\<rparr>"
  have "entry_of (kmem t) d va = None" using found(6) va(2) by simp
  then have "\<not> odd (ld32 (kmem t) ?a)"
    using found(5) by (auto simp: entry_of_def live_def pte_addr_def Let_def split: if_splits)
  then have r: "map_one d a pa perm i s = Inr (None, ?u)"
    using found(3) pte_addr_nonzero[OF pt found(5)] e(1)
    by (simp add: map_one_def kdefs getM_def setM_def flip: va(1) pa(1))
  have "entry_of (kmem ?u) d va' = (if va' div PGSIZE = va div PGSIZE then Some ?v else entry_of (kmem s) d va')"
    if "va' < 4294967296" for va'
  proof -
    have "va' div PGSIZE = va div PGSIZE \<longleftrightarrow> PDX va' = PDX va \<and> PTX va' = PTX va"
      using same_page[of va' va] same_slot[of va' va] that va(1) by auto
    then show ?thesis using store_pte(3)[OF pt found(5) e(2), of va'] e(3) found(6) by simp
  qed
  moreover have "vm_step d zs ys s ?u"
    using vm_step_trans[OF found(4) vm_step_store[OF vm_stepD(1)[OF found(4)] found(5) e(2)]] by simp
  ultimately show ?thesis
    unfolding runs_eq[of "map_one d a pa perm i", OF r]
    by (intro exI[of _ zs] exI[of _ ys] conjI disjI2)
      (use found(1,2,7) live_store[OF vm_stepD(1)[OF found(4)] found(5) e(2)] in auto)
qed

lemma map_range:
  assumes "vm_ok d xs s" "k \<le> n" "a = 4096 * p" "pa = 4096 * q" "p + n \<le> 1048576" "q + n \<le> 1048576" "perm < 4096"
    and "\<And>va. va < 4294967296 \<Longrightarrow> p + k \<le> va div PGSIZE \<Longrightarrow> va div PGSIZE < p + n \<Longrightarrow> entry_of (kmem s) d va = None"
  shows "runs (forK [k..<n] (map_one d a pa perm)) s (\<lambda>r t. \<exists>zs ys. xs = zs @ ys \<and> vm_step d zs ys s t \<and>
    (r = Some (-1) \<and> length xs < n - k \<and> length xs + card (live (kmem s) d) < 1024 \<or>
     r = None \<and> length zs \<le> n - k \<and> card (live (kmem t) d) = card (live (kmem s) d) + length zs \<and> (\<forall>va < 4294967296. entry_of (kmem t) d va =
       (if p + k \<le> va div PGSIZE \<and> va div PGSIZE < p + n
        then Some (pa + (va div PGSIZE - p) * PGSIZE + (perm OR 1)) else entry_of (kmem s) d va))))"
  using assms
proof (induction "n - k" arbitrary: k xs s)
  case 0
  have "n = k" using 0(1,3) by simp
  then show ?case using vm_step_refl[OF 0(2)]
    by auto
next
  case (Suc x)
  have kn: "k < n" using Suc.hyps(2) by simp
  let ?va = "u32 (a + k * PGSIZE)"
  have page: "u32 (4096 * j + k * PGSIZE) = (j + k) * 4096" if "j + n \<le> 1048576" for j
  proof -
    have "4096 * j + k * PGSIZE = (j + k) * 4096" by (simp add: add_mult_distrib)
    moreover have "(j + k) * 4096 < 1048576 * 4096" by (rule mult_less_mono1) (use that kn in simp_all)
    ultimately show ?thesis by (simp add: u32_small)
  qed
  have va: "?va = (p + k) * 4096" using page[OF Suc.prems(5)] Suc.prems(3) by simp
  then have div: "?va div PGSIZE = p + k" by simp
  have q: "u32 (pa + k * PGSIZE) = (q + k) * 4096" using page[OF Suc.prems(6)] Suc.prems(4) by simp
  have "entry_of (kmem s) d ?va = None"
    by (rule Suc.prems(8)) (use kn in \<open>simp_all add: div\<close>)
  from map_one_ok[OF Suc.prems(1) refl this q[symmetric] _ Suc.prems(7), unfolded div]
  obtain r t zs ys where t: "map_one d a pa perm k s = Inr (r, t)" "xs = zs @ ys" "vm_step d zs ys s t"
    and c: "r = Some (-1) \<and> xs = [] \<and> card (live (kmem s) d) < 1024 \<or>
     r = None \<and> length zs \<le> 1 \<and> card (live (kmem t) d) = card (live (kmem s) d) + length zs \<and> (\<forall>va' < 4294967296. entry_of (kmem t) d va' =
       (if va' div PGSIZE = p + k then Some ((q + k) * 4096 + (perm OR 1)) else entry_of (kmem s) d va'))"
    by (fastforce elim!: runsE)
  show ?case
  proof (cases r)
    case (Some e)
    then show ?thesis
      using c t kn by (auto simp: upt_conv_Cons runs_bindK runs_eq)
  next
    case None
    then have z: "length zs \<le> 1" "card (live (kmem t) d) = card (live (kmem s) d) + length zs" using c by simp_all
    from None have c: "entry_of (kmem t) d va' = (if va' div PGSIZE = p + k then Some ((q + k) * 4096 + (perm OR 1)) else entry_of (kmem s) d va')"
      if "va' < 4294967296" for va' using c that by simp
    have "runs (forK [Suc k..<n] (map_one d a pa perm)) t (\<lambda>r u. \<exists>zs ys'. ys = zs @ ys' \<and> vm_step d zs ys' t u \<and>
      (r = Some (-1) \<and> length ys < n - Suc k \<and> length ys + card (live (kmem t) d) < 1024 \<or>
       r = None \<and> length zs \<le> n - Suc k \<and> card (live (kmem u) d) = card (live (kmem t) d) + length zs \<and> (\<forall>va < 4294967296. entry_of (kmem u) d va =
         (if p + Suc k \<le> va div PGSIZE \<and> va div PGSIZE < p + n
          then Some (pa + (va div PGSIZE - p) * PGSIZE + (perm OR 1)) else entry_of (kmem t) d va))))"
      by (rule Suc.hyps(1)) (use Suc c kn vm_stepD(1)[OF t(3)] in auto)
    then show ?thesis
      using kn None t(1)
      apply (simp add: upt_conv_Cons runs_bindK runs_eq)
      apply (erule runs_mono)
      apply (elim exE conjE disjE)
      subgoal for r u zs' ys' 
        using t(2) z kn vm_step_trans[OF t(3), of zs' ys' u]
        by (rule_tac x = "zs @ zs'" in exI, rule_tac x = ys' in exI) auto
      subgoal for r u zs' ys'
        using t(2) z kn vm_step_trans[OF t(3), of zs' ys' u] c Suc.prems(4)
        by (rule_tac x = "zs @ zs'" in exI, rule_tac x = ys' in exI) (auto simp: algebra_simps)
      done
  qed
qed

section \<open>Mapping and allocation\<close>

lemma u32_wrap: "x < 4294967296 \<Longrightarrow> u32 (x + 4294967296) = x"
  by (simp add: u32_def)

lemma PGROUNDDOWN_page: "r < 4096 \<Longrightarrow> PGROUNDDOWN (4096 * j + r) = 4096 * j"
  by (simp add: PGROUNDDOWN_def)

lemma last_page:
  assumes "0 < n" "p + n \<le> 1048576"
  shows "u32 (PGROUNDDOWN (u32 (4096 * p + 4096 * n + 4294967295)) + 4294967296 - 4096 * p) div PGSIZE = n - 1"
proof -
  obtain k where k: "n = Suc k" using assms(1) by (cases n) auto
  have "u32 (4096 * p + 4096 * n + 4294967295) = 4096 * (p + k) + 4095"
  proof -
    have "4096 * p + 4096 * n + 4294967295 = 4096 * (p + k) + 4095 + 4294967296" using k by simp
    moreover have "4096 * (p + k) + 4095 < 4294967296" using assms(2) k by simp
    ultimately show ?thesis by (simp only: u32_wrap)
  qed
  then have "PGROUNDDOWN (u32 (4096 * p + 4096 * n + 4294967295)) = 4096 * (p + k)"
    using PGROUNDDOWN_page[of 4095 "p + k"] by simp
  moreover have "4096 * (p + k) + 4294967296 - 4096 * p = 4096 * k + 4294967296" by simp
  moreover have "4096 * k < 4294967296" using assms(2) k by simp
  ultimately show ?thesis using k by (simp add: u32_wrap)
qed

definition mapped :: "nat \<Rightarrow> nat \<Rightarrow> nat \<Rightarrow> nat \<Rightarrow> (nat \<Rightarrow> nat option) \<Rightarrow> nat \<Rightarrow> nat option" where
  "mapped p n q perm f va = (if p \<le> va div PGSIZE \<and> va div PGSIZE < p + n
     then Some ((q + (va div PGSIZE - p)) * PGSIZE + (perm OR 1)) else f va)"

lemma mappages_ok:
  assumes "vm_ok d xs s" "0 < n" "p + n \<le> 1048576" "q + n \<le> 1048576" "perm < 4096"
    and "\<And>va. va < 4294967296 \<Longrightarrow> p \<le> va div PGSIZE \<Longrightarrow> va div PGSIZE < p + n \<Longrightarrow> entry_of (kmem s) d va = None"
  shows "runs (mappages d (4096 * p) (4096 * n) (4096 * q) perm) s (\<lambda>r t. \<exists>zs ys. xs = zs @ ys \<and> vm_step d zs ys s t \<and>
    (r = -1 \<and> length xs < n \<and> length xs + card (live (kmem s) d) < 1024 \<or>
     r = 0 \<and> length zs \<le> n \<and> card (live (kmem t) d) = card (live (kmem s) d) + length zs \<and>
       (\<forall>va < 4294967296. entry_of (kmem t) d va = mapped p n q perm (entry_of (kmem s) d) va)))"
proof -
  have a: "PGROUNDDOWN (4096 * p) = 4096 * p" by (simp add: PGROUNDDOWN_def)
  have n: "Suc (n - 1) = n" using assms(2) by simp
  have "runs (forK [0..<n] (map_one d (4096 * p) (4096 * q) perm)) s (\<lambda>r t. \<exists>zs ys. xs = zs @ ys \<and> vm_step d zs ys s t \<and>
    (r = Some (-1) \<and> length xs < n - 0 \<and> length xs + card (live (kmem s) d) < 1024 \<or>
     r = None \<and> length zs \<le> n - 0 \<and> card (live (kmem t) d) = card (live (kmem s) d) + length zs \<and> (\<forall>va < 4294967296. entry_of (kmem t) d va =
       (if p + 0 \<le> va div PGSIZE \<and> va div PGSIZE < p + n
        then Some (4096 * q + (va div PGSIZE - p) * PGSIZE + (perm OR 1)) else entry_of (kmem s) d va))))"
    by (rule map_range[where q = q]) (use assms in auto)
  then obtain r t zs ys where f: "forK [0..<n] (map_one d (4096 * p) (4096 * q) perm) s = Inr (r, t)"
    and zs: "xs = zs @ ys" "vm_step d zs ys s t" and c: "r = Some (-1) \<and> length xs < n \<and> length xs + card (live (kmem s) d) < 1024 \<or>
     r = None \<and> length zs \<le> n \<and> card (live (kmem t) d) = card (live (kmem s) d) + length zs \<and>
     (\<forall>va < 4294967296. entry_of (kmem t) d va = mapped p n q perm (entry_of (kmem s) d) va)"
    by (fastforce elim!: runsE simp: mapped_def algebra_simps)
  have "mappages d (4096 * p) (4096 * n) (4096 * q) perm s = Inr (case r of Some e \<Rightarrow> e | None \<Rightarrow> 0, t)"
    unfolding mappages_def a Let_def last_page[OF assms(2,3)] n
    by (simp add: bindK_def f ret_def split: option.split)
  from runs_eq[of "mappages d (4096 * p) (4096 * n) (4096 * q) perm", OF this] show ?thesis
    using zs c by fastforce
qed

lemma vm_step_take:
  assumes ok: "vm_ok d (p # ys) s" and m: "\<And>v. v mod 4096 = 0 \<Longrightarrow> v \<noteq> p \<Longrightarrow> agree v m (kmem s)"
  defines "t \<equiv> s\<lparr>kfreelist := ld32 (kmem s) p, kmem := m\<rparr>"
  shows "vm_step d [p] ys s t" "pt_pages (kmem t) d = pt_pages (kmem s) d"
    "entry_of (kmem t) d va = entry_of (kmem s) d va"
proof -
  note p = vm_ok_free[OF ok]
  have pt: "pt_ok (kmem s) d" using ok by (simp add: vm_ok_def)
  then have d: "agree d m (kmem s)" using p(4) by (intro m) (auto simp: pt_pages_def pt_ok_def)
  have pages: "agree v m (kmem s)" if "v \<in> pt_pages (kmem s) d" for v
    using that p(4) pt_pages_aligned[OF pt that] by (intro m) auto
  show pp: "pt_pages (kmem t) d = pt_pages (kmem s) d" using pt_pages_cong[OF d] by (simp add: t_def)
  show "entry_of (kmem t) d va = entry_of (kmem s) d va"
    using entry_of_cong[of "kmem s" d m va] pages by (simp add: t_def)
  have "kmem_ok ys (s\<lparr>kfreelist := ld32 (kmem s) p\<rparr>\<lparr>kmem := m\<rparr>)"
  proof (rule kmem_ok_update)
    show "kmem_ok ys (s\<lparr>kfreelist := ld32 (kmem s) p\<rparr>)" using ok kalloc_pop(2) by (auto simp: vm_ok_def)
    show "agree v m (kmem (s\<lparr>kfreelist := ld32 (kmem s) p\<rparr>))" if "v \<in> set ys" for v
      using m[of v] that p(5) ok by (auto simp: vm_ok_def kmem_ok_def free_page_def)
  qed
  then have "vm_ok d ys t"
    using ok pp pt pt_ok_cong[OF d] by (auto simp: vm_ok_def t_def)
  then show "vm_step d [p] ys s t"
    by (rule vm_stepI) (use pp m in \<open>auto simp: t_def\<close>)
qed

end
