(* ===== verification/Uvm.thy ===== *)
theory Uvm
  imports Vm
begin

text \<open>
  Whole address spaces: the kernel's part that \<^verbatim>\<open>setupkvm\<close> builds, growing a process
  (\<^verbatim>\<open>allocuvm\<close>, and \<^verbatim>\<open>allocPage\<close> on a page fault), copying one (\<^verbatim>\<open>copyuvm\<close>) and storing into one
  (\<^verbatim>\<open>copyout\<close>). The results say what every virtual address translates to afterwards, which pages were
  taken from the free list, and that no other page changed.
\<close>

section \<open>New pages\<close>

lemma V2P_page:
  assumes "f mod 4096 = 0"
  obtains q where "V2P f = 4096 * q" "q + 1 \<le> 1048576"
proof -
  obtain q where q: "V2P f = 4096 * q" using V2P_aligned[OF assms] by (metis dvd_def mod_0_imp_dvd)
  moreover have "V2P f < 4294967296" by simp
  ultimately show thesis using that[of q] by simp
qed

text \<open>What \<^verbatim>\<open>allocuvm\<close>, \<^verbatim>\<open>allocPage\<close> and \<^verbatim>\<open>copyuvm\<close> do for each page: take one, fill it by \<open>init\<close>,
  map it. They differ in what they do when memory runs out.\<close>

definition new_page ::
  "('e memst_scheme, 'r option) K \<Rightarrow> (nat \<Rightarrow> ('e memst_scheme, 'r option) K) \<Rightarrow> (nat \<Rightarrow> mem \<Rightarrow> mem) \<Rightarrow> nat \<Rightarrow>
   nat \<Rightarrow> nat \<Rightarrow> ('e memst_scheme, 'r option) K" where
  "new_page fail1 fail2 init perm d a =
     bindK kalloc (\<lambda>mem.
     if mem = 0 then fail1
     else
       thenK (setM (init mem))
       (bindK (mappages d a PGSIZE (V2P mem) perm) (\<lambda>r.
       if r < 0 then fail2 mem else ret None)))"

lemma alloc_one_new:
  "\<exists>fail1 fail2. alloc_one d oldsz newsz = new_page fail1 fail2 (\<lambda>mem m. memset m mem 0 PGSIZE) 6 d"
proof -
  have "(2 OR 4 :: nat) = 6" by simp
  then show ?thesis
    by (intro exI ext) (simp only: alloc_one_def new_page_def)
qed

lemma lazy_one_new:
  "\<exists>fail1 fail2. lazy_one d = new_page fail1 fail2 (\<lambda>mem m. memset m mem 0 PGSIZE) 6 d"
proof -
  have "(2 OR 4 :: nat) = 6" by simp
  then show ?thesis
    by (intro exI ext) (simp only: lazy_one_def new_page_def)
qed

text \<open>\<open>added d p perm c f zs ys s t\<close>: page \<open>p\<close> of the directory is now mapped to \<open>f\<close>, one of the pages
  \<open>zs\<close> taken from the free list, and holds the bytes \<open>c\<close>.\<close>

definition added :: "nat \<Rightarrow> nat \<Rightarrow> nat \<Rightarrow> (nat \<Rightarrow> u8) \<Rightarrow> nat \<Rightarrow> nat list \<Rightarrow> nat list \<Rightarrow> 'e memst_scheme \<Rightarrow> 'e memst_scheme \<Rightarrow> bool" where
  "added d p flags c f zs ys s t \<longleftrightarrow> length zs \<le> 2 \<and> vm_step d zs ys s t \<and> f \<in> set zs \<and> f \<notin> pt_pages (kmem t) d \<and>
     (\<forall>x < PGSIZE. kmem t (f + x) = c x) \<and>
     (\<forall>va < 4294967296. entry_of (kmem t) d va =
        (if va div PGSIZE = p then Some (V2P f + flags) else entry_of (kmem s) d va))"

lemma new_page_ok:
  assumes ok: "vm_ok d xs s" and len: "2 \<le> length xs" and p: "p + 1 \<le> 1048576" "perm < 4096"
    and none: "\<And>va. va < 4294967296 \<Longrightarrow> va div PGSIZE = p \<Longrightarrow> entry_of (kmem s) d va = None"
    and init: "\<And>f v. f mod 4096 = 0 \<Longrightarrow> v mod 4096 = 0 \<Longrightarrow> v \<noteq> f \<Longrightarrow> agree v (init f (kmem s)) (kmem s)"
    and c: "\<And>f x. f \<in> set xs \<Longrightarrow> x < PGSIZE \<Longrightarrow> init f (kmem s) (f + x) = c x"
  shows "\<exists>t f zs ys. new_page fail1 fail2 init perm d (4096 * p) s = Inr (None, t) \<and> xs = zs @ ys \<and>
    added d p (perm OR 1) c f zs ys s t"
proof -
  obtain f xs' where xs: "xs = f # xs'" using len by (cases xs) auto
  note fr = vm_ok_free[OF ok[unfolded xs]]
  let ?t = "s\<lparr>kfreelist := ld32 (kmem s) f, kmem := init f (kmem s)\<rparr>"
  note tk = vm_step_take[OF ok[unfolded xs] init[OF fr(1)]]
  obtain q where q: "V2P f = 4096 * q" "q + 1 \<le> 1048576" using V2P_page[OF fr(1)] by blast
  have k: "kalloc s = Inr (f, s\<lparr>kfreelist := ld32 (kmem s) f\<rparr>)"
    using kalloc_pop(1) ok xs by (auto simp: vm_ok_def)
  have "runs (mappages d (4096 * p) (4096 * 1) (4096 * q) perm) ?t (\<lambda>r u. \<exists>zs ys. xs' = zs @ ys \<and> vm_step d zs ys ?t u \<and>
    (r = -1 \<and> length xs' < 1 \<and> length xs' + card (live (kmem ?t) d) < 1024 \<or>
     r = 0 \<and> length zs \<le> 1 \<and> card (live (kmem u) d) = card (live (kmem ?t) d) + length zs \<and>
       (\<forall>va < 4294967296. entry_of (kmem u) d va = mapped p 1 q perm (entry_of (kmem ?t) d) va)))"
    by (rule mappages_ok) (use vm_stepD(1)[OF tk(1)] p q none tk(3) in auto)
  then obtain u zs ys where u: "mappages d (4096 * p) PGSIZE (V2P f) perm ?t = Inr (0, u)" "xs' = zs @ ys" "length zs \<le> 1"
    "vm_step d zs ys ?t u" "\<forall>va < 4294967296. entry_of (kmem u) d va = mapped p 1 q perm (entry_of (kmem ?t) d) va"
    using len xs unfolding q(1) by (auto elim!: runsE)
  have "new_page fail1 fail2 init perm d (4096 * p) s = Inr (None, u)"
    unfolding new_page_def using k fr(2) u(1) by (simp add: kdefs setM_def)
  moreover have "vm_step d ([f] @ zs) ys s u" by (rule vm_step_trans[OF tk(1) u(4)])
  moreover have nf: "f \<notin> pt_pages (kmem ?t) d" "f \<notin> set zs" using fr(4,5) tk(2) u(2) by auto
  then have "f \<notin> pt_pages (kmem u) d" using vm_stepD(4)[OF u(4)] by auto
  moreover have "kmem u (f + x) = c x" if "x < PGSIZE" for x
    using vm_stepD(5)[OF u(4) fr(1) nf] c[of f x] that xs by (simp add: agree_def in_page_def)
  moreover have "entry_of (kmem u) d va = (if va div PGSIZE = p then Some (V2P f + (perm OR 1)) else entry_of (kmem s) d va)"
    if "va < 4294967296" for va
    using u(5) that tk(3) q(1) by (auto simp: mapped_def)
  ultimately show ?thesis
    using u(2,3) xs by (intro exI[of _ u] exI[of _ f] exI[of _ "[f] @ zs"] exI[of _ ys]) (auto simp: added_def)
qed

section \<open>The kernel part\<close>

lemma mappages_total:
  assumes "vm_ok d xs s" "0 < n" "p + n \<le> 1048576" "q + n \<le> 1048576" "perm < 4096"
    "1024 \<le> length xs + card (live (kmem s) d)"
    and "\<And>va. va < 4294967296 \<Longrightarrow> p \<le> va div PGSIZE \<Longrightarrow> va div PGSIZE < p + n \<Longrightarrow> entry_of (kmem s) d va = None"
  obtains t zs ys where "mappages d (4096 * p) (4096 * n) (4096 * q) perm s = Inr (0, t)" "xs = zs @ ys"
    "vm_step d zs ys s t" "card (live (kmem t) d) = card (live (kmem s) d) + length zs"
    "\<And>va. va < 4294967296 \<Longrightarrow> entry_of (kmem t) d va = mapped p n q perm (entry_of (kmem s) d) va"
proof -
  have "runs (mappages d (4096 * p) (4096 * n) (4096 * q) perm) s (\<lambda>r t. \<exists>zs ys. xs = zs @ ys \<and> vm_step d zs ys s t \<and>
    (r = -1 \<and> length xs < n \<and> length xs + card (live (kmem s) d) < 1024 \<or>
     r = 0 \<and> length zs \<le> n \<and> card (live (kmem t) d) = card (live (kmem s) d) + length zs \<and>
       (\<forall>va < 4294967296. entry_of (kmem t) d va = mapped p n q perm (entry_of (kmem s) d) va)))"
    by (rule mappages_ok) (use assms in auto)
  then show thesis using that assms(6) by (auto elim!: runsE)
qed

lemma card_live_le: "card (live m d) \<le> 1024"
  using card_mono[of "{..<1024}" "live m d"] by (fastforce simp: live_def)

text \<open>The kernel's entry for page \<open>j\<close>: the first 224 MB of physical memory at \<^verbatim>\<open>KERNBASE\<close>, writable except
  for the kernel's code, and the devices at their own addresses.\<close>

definition kpart :: "nat \<Rightarrow> nat \<Rightarrow> nat option" where
  "kpart kd j =
     (if j < 524288 then None
      else if j < 581632 then Some ((j - 524288) * PGSIZE + (if 524544 \<le> j \<and> j < kd then 1 else 3))
      else if j < 1040384 then None
      else if j < 1048576 then Some (j * PGSIZE + 3)
      else None)"

lemma empty_directory:
  assumes "kmem_ok (d # ys) s"
  defines "t \<equiv> s\<lparr>kfreelist := ld32 (kmem s) d, kmem := memset (kmem s) d 0 PGSIZE\<rparr>"
  shows "vm_ok d ys t" "live (kmem t) d = {}" "entry_of (kmem t) d va = None" "pt_pages (kmem t) d = {d}"
proof -
  have d: "d mod 4096 = 0" "d \<noteq> 0" "d \<notin> set ys" using assms(1) by (auto simp: kmem_ok_def free_page_def)
  have "pde (kmem t) d i = 0" if "i < 1024" for i
    using that by (simp add: pde_def t_def ld32_def memset_apply)
  then show l: "live (kmem t) d = {}" "entry_of (kmem t) d va = None" and pp: "pt_pages (kmem t) d = {d}"
    by (auto simp: live_def entry_of_def pt_pages_def)
  have "kmem_ok ys (s\<lparr>kfreelist := ld32 (kmem s) d\<rparr>\<lparr>kmem := memset (kmem s) d 0 PGSIZE\<rparr>)"
  proof (rule kmem_ok_update[OF kalloc_pop(2)[OF assms(1)]])
    fix v assume "v \<in> set ys"
    then show "agree v (memset (kmem s) d 0 PGSIZE) (kmem (s\<lparr>kfreelist := ld32 (kmem s) d\<rparr>))"
      using assms(1) d agree_memset[of d v "kmem s" 0] by (auto simp: kmem_ok_def free_page_def)
  qed
  then show "vm_ok d ys t"
    using d l pp by (simp add: vm_ok_def pt_ok_def t_def)
qed

text \<open>The linker puts \<^verbatim>\<open>data\<close> on a page boundary inside the kernel's part of physical memory.\<close>

definition kdata_ok :: "nat \<Rightarrow> bool" where
  "kdata_ok dat \<longleftrightarrow> dat mod 4096 = 0 \<and> KERNLINK < dat \<and> dat < P2V PHYSTOP"

definition kernel_step :: "nat \<Rightarrow> kmap_entry \<Rightarrow> nat \<Rightarrow> nat \<Rightarrow> nat \<Rightarrow> bool" where
  "kernel_step d k p n q \<longleftrightarrow> km_virt k = 4096 * p \<and> km_start k = 4096 * q \<and>
     u32 (km_end k + 4294967296 - km_start k) = 4096 * n \<and> km_perm k < 4096 \<and>
     0 < n \<and> p + n \<le> 1048576 \<and> q + n \<le> 1048576"

lemma map_kernel_ok:
  assumes "vm_ok d xs s" "kernel_step d k p n q" "1024 \<le> length xs + card (live (kmem s) d)"
    and "\<And>va. va < 4294967296 \<Longrightarrow> p \<le> va div PGSIZE \<Longrightarrow> va div PGSIZE < p + n \<Longrightarrow> entry_of (kmem s) d va = None"
  obtains t zs ys where "map_kernel d k s = Inr (None, t)" "xs = zs @ ys"
    "vm_step d zs ys s t" "card (live (kmem t) d) = card (live (kmem s) d) + length zs"
    "\<And>va. va < 4294967296 \<Longrightarrow> entry_of (kmem t) d va = mapped p n q (km_perm k) (entry_of (kmem s) d) va"
proof -
  note k = assms(2)[unfolded kernel_step_def]
  from mappages_total[OF assms(1), of n p q "km_perm k"] k assms(3,4)
  obtain t zs ys where t: "mappages d (4096 * p) (4096 * n) (4096 * q) (km_perm k) s = Inr (0, t)" "xs = zs @ ys"
    "vm_step d zs ys s t" "card (live (kmem t) d) = card (live (kmem s) d) + length zs"
    "\<And>va. va < 4294967296 \<Longrightarrow> entry_of (kmem t) d va = mapped p n q (km_perm k) (entry_of (kmem s) d) va"
    by (metis (no_types, lifting))
  have "km_virt k = 4096 * p" "u32 (km_end k + 4294967296 - km_start k) = 4096 * n" "km_start k = 4096 * q"
    using k by auto
  then have "map_kernel d k s = Inr (None, t)"
    using t(1) by (simp only: map_kernel_def bindK_def) (simp add: ret_def)
  then show thesis using that t by blast
qed

lemma V2P_data:
  assumes "kdata_ok dat" "dat = 4096 * kd"
  shows "524544 < kd" "kd < 581632" "V2P dat = 4096 * (kd - 524288)"
proof -
  show kd: "524544 < kd" "kd < 581632" using assms by (simp_all add: kdata_ok_def P2V_def u32_def)
  have "dat + 4294967296 - KERNBASE = 4096 * (kd - 524288) + 4294967296" using kd assms(2) by simp
  moreover have "4096 * (kd - 524288) < 4294967296" using kd by simp
  ultimately show "V2P dat = 4096 * (kd - 524288)" unfolding V2P_def by (simp only: u32_wrap)
qed

lemma kernel_steps:
  assumes "kdata_ok dat" "dat = 4096 * kd"
  shows "kernel_step d (kmap dat ! 0) 524288 256 0"
    "kernel_step d (kmap dat ! 1) 524544 (kd - 524544) 256"
    "kernel_step d (kmap dat ! 2) kd (581632 - kd) (kd - 524288)"
    "kernel_step d (kmap dat ! 3) 1040384 8192 1040384"
proof -
  note kd = V2P_data[OF assms]
  have e: "V2P KERNLINK = 4096 * 256" by (simp add: V2P_def u32_def)
  show "kernel_step d (kmap dat ! 0) 524288 256 0" "kernel_step d (kmap dat ! 3) 1040384 8192 1040384"
    by (simp_all add: kernel_step_def kmap_def u32_def)
  have "4096 * (kd - 524288) + 4294967296 - 4096 * 256 = 4096 * (kd - 524544) + 4294967296"
    "PHYSTOP + 4294967296 - 4096 * (kd - 524288) = 4096 * (581632 - kd) + 4294967296" using kd(1,2) by simp_all
  moreover have "4096 * (kd - 524544) < 4294967296" "4096 * (581632 - kd) < 4294967296" using kd(1,2) by simp_all
  ultimately have "u32 (4096 * (kd - 524288) + 4294967296 - 4096 * 256) = 4096 * (kd - 524544)"
    "u32 (PHYSTOP + 4294967296 - 4096 * (kd - 524288)) = 4096 * (581632 - kd)" by (simp_all only: u32_wrap)
  then show "kernel_step d (kmap dat ! 1) 524544 (kd - 524544) 256"
    "kernel_step d (kmap dat ! 2) kd (581632 - kd) (kd - 524288)"
    using kd e by (simp_all add: kernel_step_def kmap_def assms(2))
qed

lemma kernel_maps:
  assumes ok: "vm_ok d xs s" and len: "1024 \<le> length xs + card (live (kmem s) d)"
    and none: "\<And>va. entry_of (kmem s) d va = None" and kd: "kdata_ok dat"
  obtains zs ys t where "forK (kmap dat) (map_kernel d) s = Inr (None, t)" "xs = zs @ ys" "vm_step d zs ys s t"
    "\<And>va. va < 4294967296 \<Longrightarrow> entry_of (kmem t) d va = kpart (dat div PGSIZE) (va div PGSIZE)"
    "card (live (kmem t) d) = card (live (kmem s) d) + length zs"
proof -
  obtain k where k: "dat = 4096 * k" using kd by (auto simp: kdata_ok_def dvd_def mod_eq_0_iff_dvd)
  note step = kernel_steps[OF kd k] and kk = V2P_data(1,2)[OF kd k]
  obtain t1 z1 x1 where t1: "map_kernel d (kmap dat ! 0) s = Inr (None, t1)" "xs = z1 @ x1"
    "vm_step d z1 x1 s t1" "card (live (kmem t1) d) = card (live (kmem s) d) + length z1"
    and e1: "\<And>va. va < 4294967296 \<Longrightarrow> entry_of (kmem t1) d va = mapped 524288 256 0 2 (entry_of (kmem s) d) va"
    using map_kernel_ok[OF ok step(1) len] none by (auto simp: kmap_def)
  obtain t2 z2 x2 where t2: "map_kernel d (kmap dat ! 1) t1 = Inr (None, t2)" "x1 = z2 @ x2"
    "vm_step d z2 x2 t1 t2" "card (live (kmem t2) d) = card (live (kmem t1) d) + length z2"
    and e2: "\<And>va. va < 4294967296 \<Longrightarrow> entry_of (kmem t2) d va = mapped 524544 (k - 524544) 256 0 (entry_of (kmem t1) d) va"
    by (rule map_kernel_ok[OF vm_stepD(1)[OF t1(3)] step(2)])
      (use len t1(2,4) kk none in \<open>auto simp: kmap_def e1 mapped_def\<close>)
  obtain t3 z3 x3 where t3: "map_kernel d (kmap dat ! 2) t2 = Inr (None, t3)" "x2 = z3 @ x3"
    "vm_step d z3 x3 t2 t3" "card (live (kmem t3) d) = card (live (kmem t2) d) + length z3"
    and e3: "\<And>va. va < 4294967296 \<Longrightarrow> entry_of (kmem t3) d va = mapped k (581632 - k) (k - 524288) 2 (entry_of (kmem t2) d) va"
    by (rule map_kernel_ok[OF vm_stepD(1)[OF t2(3)] step(3)])
      (use len t1(2,4) t2(2,4) kk none in \<open>auto simp: kmap_def e1 e2 mapped_def\<close>)
  obtain t4 z4 x4 where t4: "map_kernel d (kmap dat ! 3) t3 = Inr (None, t4)" "x3 = z4 @ x4"
    "vm_step d z4 x4 t3 t4" "card (live (kmem t4) d) = card (live (kmem t3) d) + length z4"
    and e4: "\<And>va. va < 4294967296 \<Longrightarrow> entry_of (kmem t4) d va = mapped 1040384 8192 1040384 2 (entry_of (kmem t3) d) va"
    by (rule map_kernel_ok[OF vm_stepD(1)[OF t3(3)] step(4)])
      (use len t1(2,4) t2(2,4) t3(2,4) kk none in \<open>auto simp: kmap_def e1 e2 e3 mapped_def\<close>)
  have "kmap dat = [kmap dat ! 0, kmap dat ! 1, kmap dat ! 2, kmap dat ! 3]" by (simp add: kmap_def)
  then have "forK (kmap dat) (map_kernel d) s =
      forK [kmap dat ! 0, kmap dat ! 1, kmap dat ! 2, kmap dat ! 3] (map_kernel d) s" by (rule arg_cong)
  also have "\<dots> = Inr (None, t4)"
    unfolding forK.simps bindK_def ret_def t1(1) by (simp add: t2(1)[unfolded One_nat_def] t3(1) t4(1))
  finally have "forK (kmap dat) (map_kernel d) s = Inr (None, t4)" .
  moreover have "vm_step d (((z1 @ z2) @ z3) @ z4) x4 s t4"
    by (rule vm_step_trans[OF vm_step_trans[OF vm_step_trans[OF t1(3) t2(3)] t3(3)] t4(3)])
  moreover have "(0 OR 1 :: nat) = 1" "(2 OR 1 :: nat) = 3" by simp_all
  then have "entry_of (kmem t4) d va = kpart (dat div PGSIZE) (va div PGSIZE)" if "va < 4294967296" for va
  proof -
    have "va div PGSIZE < 1048576" using that by (simp add: less_mult_imp_div_less)
    then show ?thesis using kk none that k by (simp add: e1 e2 e3 e4 mapped_def kpart_def)
  qed
  ultimately show thesis
    using that[of t4 "((z1 @ z2) @ z3) @ z4" x4] t1(2,4) t2(2,4) t3(2,4) t4(2,4) by simp
qed

lemma setupkvm_ok:
  assumes ok: "kmem_ok xs s" and len: "1025 \<le> length xs" and kd: "kdata_ok (kdata s)"
  obtains d zs ys t where "setupkvm s = Inr (d, t)" "d \<noteq> 0" "xs = d # zs @ ys" "vm_ok d ys t"
    "\<exists>m f. t = s\<lparr>kmem := m, kfreelist := f\<rparr>" "pt_pages (kmem t) d \<subseteq> set (d # zs)"
    "\<And>v. v mod 4096 = 0 \<Longrightarrow> v \<notin> set (d # zs) \<Longrightarrow> agree v (kmem t) (kmem s)"
    "\<And>va. va < 4294967296 \<Longrightarrow> entry_of (kmem t) d va = kpart (kdata s div PGSIZE) (va div PGSIZE)"
    "length zs \<le> 1024"
proof -
  obtain d xs0 where xs: "xs = d # xs0" using len by (cases xs) auto
  let ?t0 = "s\<lparr>kfreelist := ld32 (kmem s) d, kmem := memset (kmem s) d 0 PGSIZE\<rparr>"
  note e0 = empty_directory[OF ok[unfolded xs]]
  have d: "d \<noteq> 0" "d mod 4096 = 0" using ok xs by (auto simp: kmem_ok_def free_page_def)
  have "1024 \<le> length xs0 + card (live (kmem ?t0) d)" using len xs e0(2) by simp
  from kernel_maps[OF e0(1) this e0(3) kd]
  obtain zs ys t where f: "forK (kmap (kdata s)) (map_kernel d) ?t0 = Inr (None, t)" "xs0 = zs @ ys" "vm_step d zs ys ?t0 t"
    "\<And>va. va < 4294967296 \<Longrightarrow> entry_of (kmem t) d va = kpart (kdata s div PGSIZE) (va div PGSIZE)"
    "card (live (kmem t) d) = card (live (kmem ?t0) d) + length zs" by blast
  have "length zs \<le> 1024" using f(5) e0(2) card_live_le[of "kmem t" d] by simp
  moreover have "P2V PHYSTOP \<le> DEVSPACE" by (simp add: P2V_def u32_def)
  moreover from this have "setupkvm s = Inr (d, t)"
    using kalloc_pop(1)[OF ok[unfolded xs]] d f(1) by (simp add: setupkvm_def kdefs setM_def)
  moreover have "\<exists>m f. t = s\<lparr>kmem := m, kfreelist := f\<rparr>" using vm_stepD(2)[OF f(3)] by (elim exE) (simp, blast)
  moreover have "pt_pages (kmem t) d \<subseteq> set (d # zs)" using vm_stepD(4)[OF f(3)] e0(4) by auto
  moreover have "agree v (kmem t) (kmem s)" if v: "v mod 4096 = 0" "v \<notin> set (d # zs)" for v
  proof (rule agree_trans)
    show "agree v (kmem t) (kmem ?t0)" by (rule vm_stepD(5)[OF f(3) v(1)]) (use v(2) e0(4) in auto)
    show "agree v (kmem ?t0) (kmem s)" using agree_memset[OF d(2) v(1)] v(2) by simp
  qed
  ultimately show thesis using that[of d t zs ys] d f xs vm_stepD(1)[OF f(3)] by blast
qed

section \<open>Ranges of new pages\<close>

text \<open>Every page \<open>j\<close> of a range is mapped to a page \<open>fr j\<close> of its own that holds the bytes
  \<open>C j\<close>; nothing else of the address space changes.\<close>

definition new_range ::
  "nat \<Rightarrow> nat \<Rightarrow> nat \<Rightarrow> (nat \<Rightarrow> nat) \<Rightarrow> (nat \<Rightarrow> nat \<Rightarrow> u8) \<Rightarrow> nat list \<Rightarrow> (nat \<Rightarrow> nat) \<Rightarrow> 'e memst_scheme \<Rightarrow> 'e memst_scheme \<Rightarrow> bool" where
  "new_range d a b flags C zs fr s t \<longleftrightarrow> inj_on fr {a..<b} \<and>
     (\<forall>j \<in> {a..<b}. fr j \<in> set zs \<and> fr j \<notin> pt_pages (kmem t) d \<and> (\<forall>x < PGSIZE. kmem t (fr j + x) = C j x)) \<and>
     (\<forall>va < 4294967296. entry_of (kmem t) d va =
       (if a \<le> va div PGSIZE \<and> va div PGSIZE < b then Some (V2P (fr (va div PGSIZE)) + flags (va div PGSIZE))
        else entry_of (kmem s) d va))"

definition untouched :: "nat set \<Rightarrow> mem \<Rightarrow> mem \<Rightarrow> bool" where
  "untouched Q m n \<longleftrightarrow> (\<forall>v \<in> Q. agree v m n)"

definition apart :: "nat set \<Rightarrow> nat \<Rightarrow> nat list \<Rightarrow> 'e memst_scheme \<Rightarrow> bool" where
  "apart Q d xs s \<longleftrightarrow> (\<forall>v \<in> Q. v mod 4096 = 0 \<and> v \<notin> set xs \<and> v \<notin> pt_pages (kmem s) d)"

lemma apart_step:
  assumes "apart Q d (zs @ ys) s" "vm_step d zs ys s t" "untouched Q (kmem s) m"
  shows "apart Q d ys t" "untouched Q (kmem t) m"
proof -
  show "apart Q d ys t" using assms(1) vm_stepD(4)[OF assms(2)] by (auto simp: apart_def)
  show "untouched Q (kmem t) m"
    unfolding untouched_def
  proof
    fix v assume "v \<in> Q"
    then show "agree v (kmem t) m"
      using assms(1,3) vm_stepD(5)[OF assms(2), of v] agree_trans[of v "kmem t" "kmem s" m]
      by (auto simp: apart_def untouched_def)
  qed
qed

lemma new_range_Cons:
  assumes t: "added d a (flags a) (C a) f zs ys s t" and u: "vm_step d zs' ys' t u" "new_range d (Suc a) b flags C zs' fr t u"
    and f: "f \<notin> set zs'" "f mod 4096 = 0" and ab: "a < b"
  shows "new_range d a b flags C (zs @ zs') (fr(a := f)) s u"
proof -
  note t = t[unfolded added_def] and r = u(2)[unfolded new_range_def]
  have "f \<notin> pt_pages (kmem u) d" using t f(1) vm_stepD(4)[OF u(1)] by auto
  moreover have "agree f (kmem u) (kmem t)" by (rule vm_stepD(5)[OF u(1) f(2)]) (use t f(1) in auto)
  then have "\<forall>x < PGSIZE. kmem u (f + x) = C a x" using t by (simp add: agree_def in_page_def)
  moreover have "inj_on (fr(a := f)) {a..<b}" using r f(1) by (auto simp: inj_on_def)
  ultimately show ?thesis using t r ab unfolding new_range_def by auto
qed

lemma new_pages:
  assumes "vm_ok d xs s" "2 * (n - k) \<le> length xs" "k \<le> n" "apart Q d xs s" "untouched Q (kmem s) orig"
    and "\<And>va. va < 4294967296 \<Longrightarrow> p + k \<le> va div PGSIZE \<Longrightarrow> va div PGSIZE < p + n \<Longrightarrow> entry_of (kmem s) d va = None"
    and body: "\<And>j xs t. j < n \<Longrightarrow> vm_ok d xs t \<Longrightarrow> 2 \<le> length xs \<Longrightarrow> apart Q d xs t \<Longrightarrow> untouched Q (kmem t) orig \<Longrightarrow>
        (\<And>va. va < 4294967296 \<Longrightarrow> va div PGSIZE = p + j \<Longrightarrow> entry_of (kmem t) d va = None) \<Longrightarrow>
        \<exists>u f zs ys. body (4096 * p + j * PGSIZE) t = Inr (None, u) \<and> xs = zs @ ys \<and>
          added d (p + j) (flags (p + j)) (C (p + j)) f zs ys t u"
  shows "\<exists>t fr zs ys. forK (map (\<lambda>i. 4096 * p + i * PGSIZE) [k..<n]) body s = Inr (None, t) \<and>
    xs = zs @ ys \<and> vm_step d zs ys s t \<and> length zs \<le> 2 * (n - k) \<and> new_range d (p + k) (p + n) flags C zs fr s t"
  using assms(1-6)
proof (induction "n - k" arbitrary: k xs s)
  case 0
  then have "n = k" by simp
  then show ?case using vm_step_refl[OF 0(2)] by (auto simp: ret_def new_range_def)
next
  case (Suc x)
  have kn: "k < n" using Suc.hyps(2) by simp
  have "\<exists>u f zs ys. body (4096 * p + k * PGSIZE) s = Inr (None, u) \<and> xs = zs @ ys \<and>
          added d (p + k) (flags (p + k)) (C (p + k)) f zs ys s u"
    by (rule body[OF kn Suc.prems(1) _ Suc.prems(4,5)]) (use Suc.prems(2,6) kn in auto)
  then obtain t f zs ys where t: "body (4096 * p + k * PGSIZE) s = Inr (None, t)" "xs = zs @ ys"
    "added d (p + k) (flags (p + k)) (C (p + k)) f zs ys s t" by blast
  note ad = t(3)[unfolded added_def]
  have step: "vm_step d zs ys s t" using ad by blast
  note q = apart_step[OF Suc.prems(4)[unfolded t(2)] step Suc.prems(5)]
  have "\<exists>u fr zs' ys'. forK (map (\<lambda>i. 4096 * p + i * PGSIZE) [Suc k..<n]) body t = Inr (None, u) \<and>
    ys = zs' @ ys' \<and> vm_step d zs' ys' t u \<and> length zs' \<le> 2 * (n - Suc k) \<and> new_range d (p + Suc k) (p + n) flags C zs' fr t u"
    by (rule Suc.hyps(1)[OF _ vm_stepD(1)[OF step] _ _ q]) (use Suc.hyps(2) Suc.prems ad kn t(2) in auto)
  then obtain u fr zs' ys' where u: "forK (map (\<lambda>i. 4096 * p + i * PGSIZE) [Suc k..<n]) body t = Inr (None, u)"
    "ys = zs' @ ys'" "vm_step d zs' ys' t u" "length zs' \<le> 2 * (n - Suc k)" and fr: "new_range d (Suc (p + k)) (p + n) flags C zs' fr t u"
    by auto
  have "f \<notin> set zs'" "f mod 4096 = 0"
    using Suc.prems(1) ad t(2) u(2) by (auto simp: vm_ok_def kmem_ok_def free_page_def)
  from new_range_Cons[OF t(3) u(3) fr this] kn
  have "new_range d (p + k) (p + n) flags C (zs @ zs') (fr(p + k := f)) s u" by simp
  moreover have "forK (map (\<lambda>i. 4096 * p + i * PGSIZE) [k..<n]) body s = Inr (None, u)"
    using kn t(1) u(1) by (simp add: upt_conv_Cons bindK_def)
  moreover have "length (zs @ zs') \<le> 2 * (n - k)" using ad u(4) kn by auto
  ultimately show ?case
    using t(2) u(2) vm_step_trans[OF step u(3)]
    by (intro exI[of _ u] exI[of _ "fr(p + k := f)"] exI[of _ "zs @ zs'"] exI[of _ ys']) simp
qed

section \<open>Growing\<close>

definition pgup :: "nat \<Rightarrow> nat" where
  "pgup n = (n + 4095) div 4096"

lemma PGROUNDUP_page: "sz < KERNBASE \<Longrightarrow> PGROUNDUP sz = 4096 * pgup sz"
  by (simp add: PGROUNDUP_def PGROUNDDOWN_def u32_small pgup_def)

lemma pgup_mono: "m \<le> n \<Longrightarrow> pgup m \<le> pgup n"
  unfolding pgup_def by (rule div_le_mono) simp

lemma pgup_bound: "n \<le> 4294967296 \<Longrightarrow> pgup n \<le> 1048576"
  using pgup_mono[of n 4294967296] by (simp add: pgup_def)

lemma pages_from_pages:
  assumes "p \<le> pgup b"
  shows "pages_from (4096 * p) b = map (\<lambda>i. 4096 * p + i * PGSIZE) [0..<pgup b - p]"
proof -
  have "(b - 4096 * p + 4095) div 4096 = pgup b - p"
  proof (cases "4096 * p \<le> b")
    case True
    then obtain c where "b = 4096 * p + c" using le_Suc_ex by blast
    then show ?thesis by (simp add: pgup_def add.assoc)
  next
    case False
    then have "pgup b \<le> p" unfolding pgup_def by (simp add: less_mult_imp_div_less less_Suc_eq_le[symmetric])
    with False assms show ?thesis by simp
  qed
  then show ?thesis by (simp add: pages_from_def)
qed

lemma memset_page:
  assumes "f mod 4096 = 0" "v mod 4096 = 0" "v \<noteq> f"
  shows "agree v (memset m f 0 PGSIZE) m"
  using agree_memset[OF assms] .

lemma zeroed_pages:
  assumes ok: "vm_ok d xs s" and len: "2 * n \<le> length xs" and p: "p + n \<le> 1048576"
    and none: "\<And>va. va < 4294967296 \<Longrightarrow> p \<le> va div PGSIZE \<Longrightarrow> va div PGSIZE < p + n \<Longrightarrow> entry_of (kmem s) d va = None"
  shows "\<exists>t fr zs ys. forK (map (\<lambda>i. 4096 * p + i * PGSIZE) [0..<n])
      (new_page fail1 fail2 (\<lambda>mem m. memset m mem 0 PGSIZE) 6 d) s = Inr (None, t) \<and>
    xs = zs @ ys \<and> vm_step d zs ys s t \<and> length zs \<le> 2 * n \<and> new_range d p (p + n) (\<lambda>_. 7) (\<lambda>_ _. 0) zs fr s t"
proof -
  have "\<exists>t fr zs ys. forK (map (\<lambda>i. 4096 * p + i * PGSIZE) [0..<n])
      (new_page fail1 fail2 (\<lambda>mem m. memset m mem 0 PGSIZE) 6 d) s = Inr (None, t) \<and>
    xs = zs @ ys \<and> vm_step d zs ys s t \<and> length zs \<le> 2 * (n - 0) \<and>
    new_range d (p + 0) (p + n) (\<lambda>_. 7) (\<lambda>_ _. 0) zs fr s t"
  proof (rule new_pages[where Q = "{}" and orig = "kmem s", OF ok])
    fix j xs and t :: "'a memst_scheme"
    assume j: "j < n" and t: "vm_ok d xs t" "2 \<le> length xs"
      and e: "\<And>va. va < 4294967296 \<Longrightarrow> va div PGSIZE = p + j \<Longrightarrow> entry_of (kmem t) d va = None"
    have seven: "(6 OR 1 :: nat) = 7" by simp
    have "\<exists>u f zs ys. new_page fail1 fail2 (\<lambda>mem m. memset m mem 0 PGSIZE) 6 d (4096 * (p + j)) t = Inr (None, u) \<and> xs = zs @ ys \<and>
      added d (p + j) (6 OR 1) (\<lambda>_. 0) f zs ys t u"
      by (rule new_page_ok[OF t]) (use j p e memset_page in \<open>auto simp: memset_apply\<close>)
    then show "\<exists>u f zs ys. new_page fail1 fail2 (\<lambda>mem m. memset m mem 0 PGSIZE) 6 d (4096 * p + j * PGSIZE) t = Inr (None, u) \<and>
      xs = zs @ ys \<and> added d (p + j) 7 (\<lambda>_. 0) f zs ys t u"
      unfolding seven by (simp add: add_mult_distrib2 mult.commute)
  qed (use len none in \<open>auto simp: apart_def untouched_def\<close>)
  then show ?thesis by auto
qed

lemma allocuvm_ok:
  fixes s :: "'e memst_scheme"
  assumes ok: "vm_ok d xs s" and sz: "oldsz \<le> newsz" "newsz < KERNBASE" and len: "2 * (pgup newsz - pgup oldsz) \<le> length xs"
    and none: "\<And>va. va < 4294967296 \<Longrightarrow> pgup oldsz \<le> va div PGSIZE \<Longrightarrow> va div PGSIZE < pgup newsz \<Longrightarrow> entry_of (kmem s) d va = None"
  shows "\<exists>t fr zs ys. allocuvm d oldsz newsz s = Inr (newsz, t) \<and> xs = zs @ ys \<and> vm_step d zs ys s t \<and>
    length zs \<le> 2 * (pgup newsz - pgup oldsz) \<and> new_range d (pgup oldsz) (pgup newsz) (\<lambda>_. 7) (\<lambda>_ _. 0) zs fr s t"
proof -
  obtain fail1 fail2 where b: "(alloc_one d oldsz newsz :: nat \<Rightarrow> ('e memst_scheme, nat option) K) = new_page fail1 fail2 (\<lambda>mem m. memset m mem 0 PGSIZE) 6 d"
    using alloc_one_new by blast
  let ?n = "pgup newsz - pgup oldsz"
  have le: "pgup oldsz \<le> pgup newsz" using sz(1) by (rule pgup_mono)
  then have n: "pgup oldsz + ?n = pgup newsz" by simp
  have "\<exists>t fr zs ys. forK (map (\<lambda>i. 4096 * pgup oldsz + i * PGSIZE) [0..<?n])
      (new_page fail1 fail2 (\<lambda>mem m. memset m mem 0 PGSIZE) 6 d) s = Inr (None, t) \<and>
    xs = zs @ ys \<and> vm_step d zs ys s t \<and> length zs \<le> 2 * ?n \<and> new_range d (pgup oldsz) (pgup oldsz + ?n) (\<lambda>_. 7) (\<lambda>_ _. 0) zs fr s t"
    by (rule zeroed_pages[OF ok len]) (use n none pgup_bound[of newsz] sz(2) in auto)
  moreover have "pages_from (PGROUNDUP oldsz) newsz = map (\<lambda>i. 4096 * pgup oldsz + i * PGSIZE) [0..<?n]"
    using PGROUNDUP_page[of oldsz] sz pages_from_pages[OF le] by simp
  ultimately show ?thesis using sz unfolding n allocuvm_def b by (elim exE conjE) (simp add: bindK_def ret_def, blast)
qed

lemma allocPage_ok:
  fixes s :: "'e memst_scheme"
  assumes ok: "vm_ok d xs s" and va: "va < sz" "sz \<le> 4294967296" and len: "2 * (pgup sz - va div PGSIZE) \<le> length xs"
    and none: "\<And>a. a < 4294967296 \<Longrightarrow> va div PGSIZE \<le> a div PGSIZE \<Longrightarrow> a div PGSIZE < pgup sz \<Longrightarrow> entry_of (kmem s) d a = None"
  shows "\<exists>t fr zs ys. allocPage d va sz s = Inr (1, t) \<and> xs = zs @ ys \<and> vm_step d zs ys s t \<and>
    length zs \<le> 2 * (pgup sz - va div PGSIZE) \<and> new_range d (va div PGSIZE) (pgup sz) (\<lambda>_. 7) (\<lambda>_ _. 0) zs fr s t"
proof -
  obtain fail1 fail2 where b: "(lazy_one d :: nat \<Rightarrow> ('e memst_scheme, nat option) K) = new_page fail1 fail2 (\<lambda>mem m. memset m mem 0 PGSIZE) 6 d"
    using lazy_one_new by blast
  let ?p = "va div PGSIZE" and ?n = "pgup sz - va div PGSIZE"
  have le: "?p \<le> pgup sz" unfolding pgup_def by (rule div_le_mono) (use va(1) in simp)
  then have n: "?p + ?n = pgup sz" by simp
  have "\<exists>t fr zs ys. forK (map (\<lambda>i. 4096 * ?p + i * PGSIZE) [0..<?n])
      (new_page fail1 fail2 (\<lambda>mem m. memset m mem 0 PGSIZE) 6 d) s = Inr (None, t) \<and>
    xs = zs @ ys \<and> vm_step d zs ys s t \<and> length zs \<le> 2 * ?n \<and> new_range d ?p (?p + ?n) (\<lambda>_. 7) (\<lambda>_ _. 0) zs fr s t"
    by (rule zeroed_pages[OF ok len]) (use n none pgup_bound[of sz] va(2) in auto)
  moreover have "pages_from (PGROUNDDOWN va) sz = map (\<lambda>i. 4096 * ?p + i * PGSIZE) [0..<?n]"
    using pages_from_pages[OF le] by (simp add: PGROUNDDOWN_def mult.commute)
  ultimately show ?thesis unfolding n allocPage_def b by (elim exE conjE) (simp add: bindK_def ret_def, blast)
qed

section \<open>Copying\<close>

text \<open>The byte a process sees at a virtual address.\<close>

definition ubyte :: "mem \<Rightarrow> nat \<Rightarrow> nat \<Rightarrow> u8 option" where
  "ubyte m d va = map_option (\<lambda>(x, fl). m x) (mmu m d va)"

lemma entry_live:
  assumes "entry_of m d va = Some e"
  shows "PDX va \<in> live m d" "ld32 m (pte_addr m d va) = e" "odd e"
  using assms by (auto simp: entry_of_def live_def pte_addr_def Let_def split: if_splits)

lemma walk_mapped:
  assumes "entry_of (kmem s) d va = Some e"
  shows "walkpgdir d va alloc s = Inr (pte_addr (kmem s) d va, s)"
  using walk_present[OF entry_live(1)[OF assms]] .

lemma copy_one_new:
  assumes "entry_of (kmem s) pd va = Some e" "pt_ok (kmem s) pd"
  shows "copy_one pd d va s = new_page (ret (Some ())) (\<lambda>mem. thenK (kfree mem) (ret (Some ())))
    (\<lambda>mem m. memmove m mem (P2V (PTE_ADDR e)) PGSIZE) (PTE_FLAGS e) d va s"
  using entry_live[OF assms(1)] pte_addr_nonzero[OF assms(2) entry_live(1)[OF assms(1)]]
  by (simp add: copy_one_def new_page_def bindK_eq[of "walkpgdir pd va False", OF walk_mapped[OF assms(1)]] getM_def bindK_getK cong: if_cong)

definition user_frames :: "mem \<Rightarrow> nat \<Rightarrow> nat \<Rightarrow> nat set" where
  "user_frames m d n = {P2V (PTE_ADDR e) | e j. j < n \<and> entry_of m d (4096 * j) = Some e}"

text \<open>The first \<open>n\<close> pages of an address space are all mapped, and nothing of it is in the free
  list.\<close>

definition user_ok :: "mem \<Rightarrow> nat \<Rightarrow> nat \<Rightarrow> nat list \<Rightarrow> bool" where
  "user_ok m d n xs \<longleftrightarrow> pt_ok m d \<and> set xs \<inter> (pt_pages m d \<union> user_frames m d n) = {} \<and>
     (\<forall>j < n. entry_of m d (4096 * j) \<noteq> None)"

lemma entry_of_page: "va div PGSIZE = va' div PGSIZE \<Longrightarrow> entry_of m d va = entry_of m d va'"
  using same_page[of va va'] by (simp add: entry_of_def)

lemma copied_page:
  assumes u: "user_ok (kmem s) pd n xs0" "untouched (pt_pages (kmem s) pd \<union> user_frames (kmem s) pd n) (kmem t) (kmem s)"
    and j: "j < n" "n \<le> 1048576" and t: "vm_ok d xs t" "2 \<le> length xs" "apart (pt_pages (kmem s) pd \<union> user_frames (kmem s) pd n) d xs t"
    and none: "\<And>va. va < 4294967296 \<Longrightarrow> va div PGSIZE = j \<Longrightarrow> entry_of (kmem t) d va = None"
  shows "\<exists>u f zs ys. copy_one pd d (j * PGSIZE) t = Inr (None, u) \<and> xs = zs @ ys \<and>
    added d j (PTE_FLAGS (the (entry_of (kmem s) pd (4096 * j))))
      (\<lambda>x. kmem s (P2V (PTE_ADDR (the (entry_of (kmem s) pd (4096 * j)))) + x)) f zs ys t u"
proof -
  obtain e where e: "entry_of (kmem s) pd (4096 * j) = Some e" using u(1) j(1) by (auto simp: user_ok_def)
  have "agree v (kmem t) (kmem s)" if "v \<in> pt_pages (kmem s) pd" for v using u(2) that by (simp add: untouched_def)
  then have et: "entry_of (kmem t) pd (4096 * j) = Some e" and pt: "pt_ok (kmem t) pd"
    using entry_of_cong[of "kmem s" pd "kmem t"] pt_ok_cong[of pd "kmem t" "kmem s"] u(1) e
    by (auto simp: user_ok_def pt_pages_def)
  let ?F = "P2V (PTE_ADDR e)"
  have F: "?F \<in> user_frames (kmem s) pd n" using e j(1) by (auto simp: user_frames_def)
  have src: "kmem t (?F + x) = kmem s (?F + x)" if "x < PGSIZE" for x
  proof -
    have "agree ?F (kmem t) (kmem s)" using u(2) F by (simp add: untouched_def)
    then show ?thesis using that by (simp add: agree_def in_page_def)
  qed
  have fl: "PTE_FLAGS e OR 1 = PTE_FLAGS e"
  proof -
    have "odd (PTE_FLAGS e)" using entry_live(3)[OF e] by (simp add: PTE_FLAGS_def dvd_mod_iff)
    then show ?thesis by (simp add: or_Suc_0_eq)
  qed
  have "\<exists>u f zs ys. new_page (ret (Some ())) (\<lambda>mem. thenK (kfree mem) (ret (Some ())))
      (\<lambda>mem m. memmove m mem ?F PGSIZE) (PTE_FLAGS e) d (4096 * j) t = Inr (None, u) \<and> xs = zs @ ys \<and>
    added d j (PTE_FLAGS e OR 1) (\<lambda>x. kmem s (?F + x)) f zs ys t u"
  proof (rule new_page_ok[OF t(1,2)])
    show "agree v (memmove (kmem t) f ?F PGSIZE) (kmem t)" if "f mod 4096 = 0" "v mod 4096 = 0" "v \<noteq> f" for f v
      using pages_apart[OF that(2,1,3)] by (auto simp: agree_def memmove_apply in_page_def)
  qed (use j none src in \<open>auto simp: memmove_apply PTE_FLAGS_def\<close>)
  then show ?thesis
    unfolding fl e option.sel mult.commute[of j PGSIZE] copy_one_new[OF et pt, of d] .
qed

lemma copied_bytes:
  assumes r: "new_range d 0 n (\<lambda>j. PTE_FLAGS (the (entry_of (kmem s) pd (4096 * j))))
      (\<lambda>j x. kmem s (P2V (PTE_ADDR (the (entry_of (kmem s) pd (4096 * j)))) + x)) zs fr r t"
    and u: "user_ok (kmem s) pd n xs" and zs: "set zs \<subseteq> set xs" "\<forall>x \<in> set xs. x mod 4096 = 0 \<and> x < 4294967296"
    and va: "va < 4294967296" "va div PGSIZE < n"
  shows "ubyte (kmem t) d va = ubyte (kmem s) pd va" "ubyte (kmem s) pd va \<noteq> None"
    "map_option snd (mmu (kmem t) d va) = map_option snd (mmu (kmem s) pd va)"
proof -
  let ?j = "va div PGSIZE"
  obtain e where e: "entry_of (kmem s) pd (4096 * ?j) = Some e" using u va(2) by (auto simp: user_ok_def)
  then have es: "entry_of (kmem s) pd va = Some e" using entry_of_page[of "4096 * ?j" va "kmem s" pd] by simp
  have f: "fr ?j \<in> set xs" "\<forall>x < PGSIZE. kmem t (fr ?j + x) = kmem s (P2V (PTE_ADDR e) + x)"
    using r va(2) zs(1) e by (auto simp: new_range_def)
  have "entry_of (kmem t) d va = Some (V2P (fr ?j) + PTE_FLAGS e)"
    using r va e by (simp add: new_range_def)
  moreover have "P2V (PTE_ADDR (V2P (fr ?j) + PTE_FLAGS e)) = fr ?j" "PTE_FLAGS (V2P (fr ?j) + PTE_FLAGS e) = PTE_FLAGS e"
    using PTE_add[OF V2P_aligned, of "fr ?j" "PTE_FLAGS e"] zs(2) f(1) P2V_V2P[of "fr ?j"]
    by (auto simp: PTE_FLAGS_def)
  ultimately show "ubyte (kmem t) d va = ubyte (kmem s) pd va" "ubyte (kmem s) pd va \<noteq> None"
    "map_option snd (mmu (kmem t) d va) = map_option snd (mmu (kmem s) pd va)"
    using es f(2) by (simp_all add: ubyte_def mmu_def)
qed

lemma untouched_bytes:
  assumes u: "user_ok (kmem s) pd n xs" and t: "untouched (pt_pages (kmem s) pd \<union> user_frames (kmem s) pd n) (kmem t) (kmem s)"
    and va: "va div PGSIZE < n"
  shows "mmu (kmem t) pd va = mmu (kmem s) pd va" "ubyte (kmem t) pd va = ubyte (kmem s) pd va"
proof -
  have same: "entry_of (kmem t) pd va = entry_of (kmem s) pd va"
    by (rule entry_of_cong) (use t in \<open>simp add: untouched_def\<close>)
  then show m: "mmu (kmem t) pd va = mmu (kmem s) pd va" by (simp add: mmu_def)
  obtain e where e: "entry_of (kmem s) pd (4096 * (va div PGSIZE)) = Some e" using u va by (auto simp: user_ok_def)
  then have es: "entry_of (kmem s) pd va = Some e"
    using entry_of_page[of "4096 * (va div PGSIZE)" va "kmem s" pd] by simp
  have "P2V (PTE_ADDR e) \<in> user_frames (kmem s) pd n" using e va by (auto simp: user_frames_def)
  then have "agree (P2V (PTE_ADDR e)) (kmem t) (kmem s)" using t by (simp add: untouched_def)
  then have "kmem t (P2V (PTE_ADDR e) + va mod PGSIZE) = kmem s (P2V (PTE_ADDR e) + va mod PGSIZE)"
    by (simp add: agree_def in_page_def)
  then show "ubyte (kmem t) pd va = ubyte (kmem s) pd va" using same es by (simp add: ubyte_def mmu_def)
qed

lemma new_range_byte:
  assumes r: "new_range d a b flags C zs fr s t" and zs: "\<forall>x \<in> set zs. x mod 4096 = 0 \<and> x < 4294967296"
    and va: "va < 4294967296" "a \<le> va div PGSIZE" "va div PGSIZE < b" and fl: "flags (va div PGSIZE) < 4096"
  shows "ubyte (kmem t) d va = Some (C (va div PGSIZE) (va mod PGSIZE))"
    "map_option snd (mmu (kmem t) d va) = Some (flags (va div PGSIZE))"
    "map_option fst (mmu (kmem t) d va) = Some (fr (va div PGSIZE) + va mod PGSIZE)" "fr (va div PGSIZE) \<in> set zs"
proof -
  let ?j = "va div PGSIZE"
  have f: "fr ?j \<in> set zs" "\<forall>x < PGSIZE. kmem t (fr ?j + x) = C ?j x"
    using r va by (auto simp: new_range_def)
  have "entry_of (kmem t) d va = Some (V2P (fr ?j) + flags ?j)"
    using r va by (simp add: new_range_def)
  moreover have "P2V (PTE_ADDR (V2P (fr ?j) + flags ?j)) = fr ?j" "PTE_FLAGS (V2P (fr ?j) + flags ?j) = flags ?j"
    using PTE_add[OF V2P_aligned, of "fr ?j" "flags ?j"] zs f(1) P2V_V2P[of "fr ?j"] fl by auto
  ultimately show "ubyte (kmem t) d va = Some (C ?j (va mod PGSIZE))"
    "map_option snd (mmu (kmem t) d va) = Some (flags ?j)"
    "map_option fst (mmu (kmem t) d va) = Some (fr ?j + va mod PGSIZE)"
    using f(2) by (simp_all add: ubyte_def mmu_def)
  show "fr ?j \<in> set zs" by (rule f(1))
qed

lemma PTE_FLAGS_less: "PTE_FLAGS e < 4096"
  by (simp add: PTE_FLAGS_def)

text \<open>The loop of \<^verbatim>\<open>copyuvm\<close>, from the fresh page table on.\<close>

lemma copy_pages:
  fixes s t :: "'e memst_scheme"
  assumes u: "user_ok (kmem s) pd n xs" and n: "n \<le> 524288" and t: "vm_ok d ys t" "2 * n \<le> length ys"
    and ap: "apart (pt_pages (kmem s) pd \<union> user_frames (kmem s) pd n) d ys t"
      "untouched (pt_pages (kmem s) pd \<union> user_frames (kmem s) pd n) (kmem t) (kmem s)"
    and none: "\<And>va. va < 4294967296 \<Longrightarrow> va div PGSIZE < n \<Longrightarrow> entry_of (kmem t) d va = None"
  defines "e \<equiv> \<lambda>j. the (entry_of (kmem s) pd (4096 * j))"
  obtains t' fr zs' ys' where "forK (map (\<lambda>i. i * PGSIZE) [0..<n]) (copy_one pd d) t = Inr (None, t')"
    "ys = zs' @ ys'" "vm_step d zs' ys' t t'" "length zs' \<le> 2 * n"
    "new_range d 0 n (\<lambda>j. PTE_FLAGS (e j)) (\<lambda>j x. kmem s (P2V (PTE_ADDR (e j)) + x)) zs' fr t t'"
proof -
  let ?Q = "pt_pages (kmem s) pd \<union> user_frames (kmem s) pd n"
  have "\<exists>t' fr zs' ys'. forK (map (\<lambda>i. 4096 * 0 + i * PGSIZE) [0..<n]) (copy_one pd d) t = Inr (None, t') \<and>
    ys = zs' @ ys' \<and> vm_step d zs' ys' t t' \<and> length zs' \<le> 2 * (n - 0) \<and>
    new_range d (0 + 0) (0 + n) (\<lambda>j. PTE_FLAGS (e j)) (\<lambda>j x. kmem s (P2V (PTE_ADDR (e j)) + x)) zs' fr t t'"
  proof (rule new_pages[OF t(1) _ _ ap])
    fix j xs' and t' :: "'e memst_scheme"
    assume a: "j < n" "vm_ok d xs' t'" "2 \<le> length xs'" "apart ?Q d xs' t'" "untouched ?Q (kmem t') (kmem s)"
      "\<And>va. va < 4294967296 \<Longrightarrow> va div PGSIZE = 0 + j \<Longrightarrow> entry_of (kmem t') d va = None"
    have "\<exists>u f zs ys. copy_one pd d (j * PGSIZE) t' = Inr (None, u) \<and> xs' = zs @ ys \<and>
        added d j (PTE_FLAGS (e j)) (\<lambda>x. kmem s (P2V (PTE_ADDR (e j)) + x)) f zs ys t' u"
      unfolding e_def by (rule copied_page[OF u a(5,1) _ a(2-4)]) (use a(6) n in auto)
    then show "\<exists>u f zs ys. copy_one pd d (4096 * 0 + j * PGSIZE) t' = Inr (None, u) \<and> xs' = zs @ ys \<and>
        added d (0 + j) (PTE_FLAGS (e (0 + j))) (\<lambda>x. kmem s (P2V (PTE_ADDR (e (0 + j))) + x)) f zs ys t' u" by simp
  qed (use t(2) none in auto)
  then show thesis using that by auto
qed

lemma copyuvm_ok:
  fixes s :: "'e memst_scheme"
  assumes ok: "kmem_ok xs s" "kdata_ok (kdata s)" and u: "user_ok (kmem s) pd (pgup sz) xs"
    and sz: "sz < KERNBASE" "1025 + 2 * pgup sz \<le> length xs"
  shows "\<exists>d t ys. copyuvm pd sz s = Inr (d, t) \<and> d \<noteq> 0 \<and> (\<exists>m f. t = s\<lparr>kmem := m, kfreelist := f\<rparr>) \<and> vm_ok d ys t \<and>
    length xs \<le> length ys + 1025 + 2 * pgup sz \<and> set ys \<subseteq> set xs \<and>
    (\<forall>va < 4096 * pgup sz. (\<exists>r \<in> set xs. map_option fst (mmu (kmem t) d va) = Some (r + va mod PGSIZE)) \<and>
       ubyte (kmem s) pd va \<noteq> None \<and> ubyte (kmem t) d va = ubyte (kmem s) pd va \<and>
       map_option snd (mmu (kmem t) d va) = map_option snd (mmu (kmem s) pd va) \<and>
       mmu (kmem t) pd va = mmu (kmem s) pd va \<and> ubyte (kmem t) pd va = ubyte (kmem s) pd va)"
proof -
  let ?n = "pgup sz" and ?Q = "pt_pages (kmem s) pd \<union> user_frames (kmem s) pd (pgup sz)"
  let ?e = "\<lambda>j. the (entry_of (kmem s) pd (4096 * j))"
  have n: "?n \<le> 524288" using pgup_mono[of sz KERNBASE] sz(1) by (simp add: pgup_def)
  have len: "1025 \<le> length xs" using sz(2) by simp
  obtain d zs ys t where d: "setupkvm s = Inr (d, t)" "d \<noteq> 0" "xs = d # zs @ ys" "vm_ok d ys t"
    and shape: "\<exists>m f. t = s\<lparr>kmem := m, kfreelist := f\<rparr>"
    and d': "pt_pages (kmem t) d \<subseteq> set (d # zs)" "\<And>v. v mod 4096 = 0 \<Longrightarrow> v \<notin> set (d # zs) \<Longrightarrow> agree v (kmem t) (kmem s)"
    "\<And>va. va < 4294967296 \<Longrightarrow> entry_of (kmem t) d va = kpart (kdata s div PGSIZE) (va div PGSIZE)"
    "length zs \<le> 1024" by (rule setupkvm_ok[OF ok(1) len ok(2)]) (rule that; assumption)
  have Q: "v mod 4096 = 0 \<and> v \<notin> set xs" if "v \<in> ?Q" for v
    using that u pt_pages_aligned[of "kmem s" pd v] by (auto simp: user_ok_def user_frames_def)
  then have ap: "apart ?Q d ys t" "untouched ?Q (kmem t) (kmem s)"
    using d(3) d'(1,2) by (auto simp: apart_def untouched_def)
  have l: "2 * ?n \<le> length ys" using d(3) d'(4) sz(2) by simp
  have none: "entry_of (kmem t) d va = None" if "va < 4294967296" "va div PGSIZE < ?n" for va
    using d'(3)[OF that(1)] that(2) n by (simp add: kpart_def)
  obtain t' fr zs' ys' where t': "forK (map (\<lambda>i. i * PGSIZE) [0..<?n]) (copy_one pd d) t = Inr (None, t')"
    "ys = zs' @ ys'" "vm_step d zs' ys' t t'" "length zs' \<le> 2 * ?n"
    and r: "new_range d 0 ?n (\<lambda>j. PTE_FLAGS (?e j)) (\<lambda>j x. kmem s (P2V (PTE_ADDR (?e j)) + x)) zs' fr t t'"
    by (rule copy_pages[OF u n d(4) l ap none])
  have c: "copyuvm pd sz s = Inr (d, t')"
    using d(1,2) t'(1) pages_from_pages[of 0 sz] by (simp add: copyuvm_def bindK_def ret_def)
  have un: "untouched ?Q (kmem t') (kmem s)" using apart_step(2)[OF _ t'(3) ap(2)] ap(1) t'(2) by simp
  have xs: "set zs' \<subseteq> set xs" "\<forall>x \<in> set xs. x mod 4096 = 0 \<and> x < 4294967296" "set ys' \<subseteq> set xs"
    using d(3) t'(2) ok(1) by (auto simp: kmem_ok_def free_page_def)
  obtain m f m' f' where "t = s\<lparr>kmem := m, kfreelist := f\<rparr>" "t' = t\<lparr>kmem := m', kfreelist := f'\<rparr>"
    using shape vm_stepD(2)[OF t'(3)] by blast
  then have sh: "\<exists>m f. t' = s\<lparr>kmem := m, kfreelist := f\<rparr>" by (intro exI[of _ m'] exI[of _ f']) simp
  have va: "va < 4294967296 \<and> va div PGSIZE < ?n" if "va < 4096 * ?n" for va
    using that n by (simp add: less_mult_imp_div_less mult.commute)
  have fr: "\<exists>r \<in> set xs. map_option fst (mmu (kmem t') d va) = Some (r + va mod PGSIZE)"
    if "va < 4294967296 \<and> va div PGSIZE < ?n" for va
    using new_range_byte(3,4)[OF r, of va] that xs(1,2) PTE_FLAGS_less by blast
  have "length xs \<le> length ys' + 1025 + 2 * ?n" using d(3) d'(4) t'(2,4) by simp
  then show ?thesis
    using copied_bytes[OF r u xs(1,2)] untouched_bytes[OF u un] va fr c sh xs(3) d(2) vm_stepD(1)[OF t'(3)] by blast
qed

section \<open>Storing into an address space\<close>

definition frame :: "mem \<Rightarrow> nat \<Rightarrow> nat \<Rightarrow> nat" where
  "frame m d j = P2V (PTE_ADDR (the (entry_of m d (4096 * j))))"

text \<open>The first \<open>n\<close> pages are mapped for the user, each to a page of its own.\<close>

definition user_map :: "mem \<Rightarrow> nat \<Rightarrow> nat \<Rightarrow> bool" where
  "user_map m d n \<longleftrightarrow> pt_ok m d \<and> n \<le> 524288 \<and> inj_on (frame m d) {..<n} \<and>
     (\<forall>j < n. frame m d j \<notin> pt_pages m d \<and> frame m d j \<noteq> 0 \<and>
        (\<exists>e. entry_of m d (4096 * j) = Some e \<and> has_flag e PTE_U))"

lemma frame_aligned [simp]: "frame m d j mod 4096 = 0"
  by (simp add: frame_def)

lemma ubyte_frame:
  assumes "entry_of m d (4096 * (va div PGSIZE)) \<noteq> None"
  shows "ubyte m d va = Some (m (frame m d (va div PGSIZE) + va mod PGSIZE))"
proof -
  have "entry_of m d va = entry_of m d (4096 * (va div PGSIZE))" by (rule entry_of_page) simp
  with assms show ?thesis by (auto simp: ubyte_def mmu_def frame_def)
qed

lemma uva2ka_ok:
  assumes "user_map (kmem s) d n" "va div PGSIZE < n"
  shows "uva2ka d (PGROUNDDOWN va) s = Inr (frame (kmem s) d (va div PGSIZE), s)"
proof -
  let ?j = "va div PGSIZE"
  have p: "PGROUNDDOWN va = 4096 * ?j" by (simp add: PGROUNDDOWN_def)
  obtain e where e: "entry_of (kmem s) d (4096 * ?j) = Some e" "has_flag e PTE_U" "pt_ok (kmem s) d"
    using assms by (auto simp: user_map_def)
  note l = entry_live[OF e(1)]
  show ?thesis
    using e l pte_addr_nonzero[OF e(3) l(1)] unfolding p uva2ka_def
    by (simp add: bindK_eq[of "walkpgdir d (4096 * ?j) False", OF walk_mapped[OF e(1)]] getM_def bindK_getK ret_def frame_def)
qed

lemma user_map_put:
  assumes u: "user_map m d n" and j: "j < n" and o: "off + length bs \<le> PGSIZE"
  defines "m' \<equiv> put_bytes m (frame m d j + off) bs"
  shows "user_map m' d n" "\<And>i. i < n \<Longrightarrow> frame m' d i = frame m d i"
    "\<And>i x. i < n \<Longrightarrow> x < PGSIZE \<Longrightarrow> m' (frame m d i + x) =
       (if i = j \<and> off \<le> x \<and> x < off + length bs then bs ! (x - off) else m (frame m d i + x))"
proof -
  have other: "agree v m' m" if "v mod 4096 = 0" "v \<noteq> frame m d j" for v
    using pages_apart[OF that(1) frame_aligned that(2)] o
    by (fastforce simp: agree_def m'_def put_bytes_def in_page_def)
  have pt: "agree v m' m" if "v \<in> pt_pages m d" for v
    using that u j pt_pages_aligned[of m d v] by (intro other) (auto simp: user_map_def)
  then have e: "entry_of m' d va = entry_of m d va" for va by (rule entry_of_cong)
  then show fr: "frame m' d i = frame m d i" for i by (simp add: frame_def)
  have d: "agree d m' m" by (rule pt) (simp add: pt_pages_def)
  show "user_map m' d n"
    using u fr unfolding user_map_def pt_ok_cong[OF d] pt_pages_cong[OF d] e by (simp add: inj_on_def)
  show "m' (frame m d i + x) = (if i = j \<and> off \<le> x \<and> x < off + length bs then bs ! (x - off) else m (frame m d i + x))"
    if "i < n" "x < PGSIZE" for i x
  proof (cases "i = j")
    case True
    then show ?thesis by (auto simp: m'_def put_bytes_def)
  next
    case False
    then have "frame m d i \<noteq> frame m d j" using u that j by (auto simp: user_map_def inj_on_def)
    from other[OF frame_aligned this] that False show ?thesis by (simp add: agree_def in_page_def)
  qed
qed

lemma ubyte_user:
  assumes "user_map m d n" "va < 4096 * n"
  shows "ubyte m d va = Some (m (frame m d (va div PGSIZE) + va mod PGSIZE))"
proof (rule ubyte_frame)
  have "va div PGSIZE < n" using assms(2) by (simp add: less_mult_imp_div_less mult.commute)
  then show "entry_of m d (4096 * (va div PGSIZE)) \<noteq> None" using assms(1) by (auto simp: user_map_def)
qed

lemma ubyte_put:
  assumes u: "user_map m d n" and j: "j < n" and o: "off + length bs \<le> PGSIZE" and a: "a < 4096 * n"
  shows "ubyte (put_bytes m (frame m d j + off) bs) d a =
    (if 4096 * j + off \<le> a \<and> a < 4096 * j + off + length bs then Some (bs ! (a - (4096 * j + off))) else ubyte m d a)"
proof -
  note put = user_map_put[OF u j o]
  have aj: "a div PGSIZE < n" using a by (simp add: less_mult_imp_div_less mult.commute)
  have "a = 4096 * (a div PGSIZE) + a mod PGSIZE" by simp
  then have "a div PGSIZE = j \<and> off \<le> a mod PGSIZE \<and> a mod PGSIZE < off + length bs \<longleftrightarrow>
      4096 * j + off \<le> a \<and> a < 4096 * j + off + length bs" (is "?A \<longleftrightarrow> ?B")
  proof -
    have "a div PGSIZE = j" if ?B
      using that o div_nat_eqI[of PGSIZE j a] by simp
    then show ?thesis by (metis (no_types, lifting) \<open>a = 4096 * (a div PGSIZE) + a mod PGSIZE\<close> add.assoc add_le_cancel_left add_less_cancel_left)
  qed
  moreover have "a - (4096 * j + off) = a mod PGSIZE - off" if "a div PGSIZE = j"
    using that by (metis diff_diff_add minus_mult_div_eq_mod)
  ultimately show ?thesis
    using ubyte_user[OF put(1) a] ubyte_user[OF u a] put(2,3)[OF aj] by auto
qed

lemma next_chunk:
  fixes va j off n len :: nat
  assumes "va = 4096 * j + off" "off < 4096" "j < n" "va + len \<le> 4096 * n"
  defines "c \<equiv> min (4096 - off) len"
  shows "4096 * (j + 1) + (len - c) \<le> 4096 * n" "c < len \<Longrightarrow> 4096 * (j + 1) = va + c"
proof -
  have "4096 * (j + 1) \<le> 4096 * n" using assms(3) by simp
  then show "4096 * (j + 1) + (len - c) \<le> 4096 * n" "c < len \<Longrightarrow> 4096 * (j + 1) = va + c"
    using assms(1,2,4) unfolding c_def by (auto simp: min_def)
qed

lemma copyout_ok:
  assumes "user_map (kmem s) d n" "va + length p \<le> 4096 * n"
  shows "\<exists>m. copyout d va p s = Inr (0, s\<lparr>kmem := m\<rparr>) \<and> user_map m d n \<and>
    (\<forall>a < 4096 * n. ubyte m d a = (if va \<le> a \<and> a < va + length p then Some (p ! (a - va)) else ubyte (kmem s) d a))"
  using assms
proof (induction "length p" arbitrary: p va s rule: less_induct)
  case less
  show ?case
  proof (cases "p = []")
    case True
    then have "copyout d va p s = Inr (0, s\<lparr>kmem := kmem s\<rparr>)" by (simp add: copyout.simps ret_def)
    with True show ?thesis using less.prems(1) by (intro exI[of _ "kmem s"]) auto
  next
    case False
    define j off c where "j = va div PGSIZE" and "off = va mod PGSIZE" and "c = min (PGSIZE - off) (length p)"
    define m1 va1 where "m1 = put_bytes (kmem s) (frame (kmem s) d j + off) (take c p)" and "va1 = 4096 * (j + 1)"
    have lt: "va < 4096 * n" using less.prems(2) False by (cases p) auto
    then have j: "j < n" by (simp add: j_def less_mult_imp_div_less mult.commute)
    have off: "va - PGROUNDDOWN va = off" "va = 4096 * j + off" "off < 4096"
      by (simp_all add: PGROUNDDOWN_def minus_div_mult_eq_mod j_def off_def)
    have c: "0 < c" "c \<le> length p" using False off(3) by (simp_all add: c_def)
    have o: "off + length (take c p) \<le> PGSIZE" using off(3) by (simp add: c_def)
    note um = user_map_put(1)[OF less.prems(1) j o, folded m1_def]
    have nz: "frame (kmem s) d j \<noteq> 0" using less.prems(1) j by (simp add: user_map_def)
    have nva: "u32 (PGROUNDDOWN va + PGSIZE) = va1"
      using j less.prems(1) by (simp add: PGROUNDDOWN_def u32_def user_map_def va1_def j_def)
    have step: "copyout d va p s = copyout d va1 (drop c p) (s\<lparr>kmem := m1\<rparr>)"
      using False nz unfolding copyout.simps[of d va p] nva off(1)
      by (simp add: bindK_eq[of "uva2ka d (PGROUNDDOWN va)", OF uva2ka_ok[OF less.prems(1) j[unfolded j_def]]]
          Let_def setM_def thenK_def bindK_def[of "modK _"] modK_def m1_def c_def j_def)
    have next_page: "va1 + length (drop c p) \<le> 4096 * n" "c < length p \<Longrightarrow> va1 = va + c"
      using next_chunk[OF off(2,3) j less.prems(2)] by (simp_all add: va1_def c_def)
    have "\<exists>m. copyout d va1 (drop c p) (s\<lparr>kmem := m1\<rparr>) = Inr (0, s\<lparr>kmem := m1\<rparr>\<lparr>kmem := m\<rparr>) \<and> user_map m d n \<and>
      (\<forall>a < 4096 * n. ubyte m d a = (if va1 \<le> a \<and> a < va1 + length (drop c p)
         then Some (drop c p ! (a - va1)) else ubyte (kmem (s\<lparr>kmem := m1\<rparr>)) d a))"
      by (rule less.hyps) (use c False um next_page(1) in simp_all)
    then obtain m where m: "copyout d va1 (drop c p) (s\<lparr>kmem := m1\<rparr>) = Inr (0, s\<lparr>kmem := m\<rparr>)" "user_map m d n"
      "\<forall>a < 4096 * n. ubyte m d a = (if va1 \<le> a \<and> a < va1 + length (drop c p)
         then Some (drop c p ! (a - va1)) else ubyte m1 d a)"
      by auto
    have "ubyte m d a = (if va \<le> a \<and> a < va + length p then Some (p ! (a - va)) else ubyte (kmem s) d a)"
      if a: "a < 4096 * n" for a
      using m(3) a ubyte_put[OF less.prems(1) j o a, folded off(2) m1_def] next_page(2) c
      by (cases "c < length p") auto
    then show ?thesis using m(1,2) step by auto
  qed
qed

end
