(* ===== verification/Pipe.thy ===== *)
theory Pipe
  imports Uvm
begin

text \<open>
  Pipes (\<^verbatim>\<open>pipe.c\<close>). A pipe is a buffer of 512 bytes with two 32-bit counters that grow without
  bound and wrap around; a \<^verbatim>\<open>struct pipe\<close> is found at the address of the page \<^verbatim>\<open>kalloc\<close> gave for it. The
  theory shows that reading and writing implement a queue of at most 512 bytes, also when the
  counters wrap around. \<^verbatim>\<open>pipealloc\<close>, which allocates files, is in theory \<open>File\<close>.
\<close>

section \<open>State\<close>

datatype fdtype = FD_NONE | FD_PIPE | FD_INODE | SYMLINK

record file_rec =
  f_type :: fdtype
  f_ref :: int
  f_readable :: bool
  f_writable :: bool
  f_pipe :: nat
  f_ip :: "nat option"
  f_off :: nat

record pipe =
  pi_data :: "u8 list"
  pi_nread :: "32 word"
  pi_nwrite :: "32 word"
  pi_readopen :: bool
  pi_writeopen :: bool

record filest = memst +
  ftable :: "file_rec list"
  pipes :: "nat \<Rightarrow> pipe"

abbreviation PIPESIZE :: nat where "PIPESIZE \<equiv> 512"

definition wakeup :: "channel \<Rightarrow> ('e icst_scheme, unit) K" where
  "wakeup chan = modK (\<lambda>s. s\<lparr>ptable := wakeup1 (Some chan) (ptable s)\<rparr>)"

definition setP :: "nat \<Rightarrow> (pipe \<Rightarrow> pipe) \<Rightarrow> ('e filest_scheme, unit) K" where
  "setP p f = modK (\<lambda>s. s\<lparr>pipes := (pipes s)(p := f (pipes s p))\<rparr>)"

section \<open>Code\<close>

definition pipeclose :: "nat \<Rightarrow> bool \<Rightarrow> ('e filest_scheme, unit) K" where
  "pipeclose p writable =
     thenK (if writable
            then thenK (setP p (\<lambda>q. q\<lparr>pi_writeopen := False\<rparr>)) (wakeup (Chan_nread p))
            else thenK (setP p (\<lambda>q. q\<lparr>pi_readopen := False\<rparr>)) (wakeup (Chan_nwrite p)))
     (bindK (getK (\<lambda>s. pipes s p)) (\<lambda>q.
     whenK (\<not> pi_readopen q \<and> \<not> pi_writeopen q) (kfree p)))"

definition put_byte :: "u8 \<Rightarrow> pipe \<Rightarrow> pipe" where
  "put_byte b q = q\<lparr>pi_data := (pi_data q)[unat (pi_nwrite q) mod PIPESIZE := b], pi_nwrite := pi_nwrite q + 1\<rparr>"

definition pipe_full :: "pipe \<Rightarrow> bool" where
  "pipe_full q \<longleftrightarrow> pi_nwrite q = pi_nread q + of_nat PIPESIZE"

text \<open>The writing loop up to its end or to the next \<^verbatim>\<open>sleep\<close>: it stored all bytes, or left because nobody can
  read them, or waits with the remaining bytes until there is room, and then goes on with these.\<close>

datatype written = All | Broken | Waits (waiting: "u8 list")

fun pipewrite_loop :: "nat \<Rightarrow> u8 list \<Rightarrow> ('e filest_scheme, written) K" where
  "pipewrite_loop p [] = ret All"
| "pipewrite_loop p (b # bs) =
     bindK (getK (\<lambda>s. (pipes s p, p_killed (myproc s)))) (\<lambda>(q, killed).
     if pipe_full q then
       if \<not> pi_readopen q \<or> killed then ret Broken
       else thenK (wakeup (Chan_nread p)) (ret (Waits (b # bs)))
     else thenK (setP p (put_byte b)) (pipewrite_loop p bs))"

definition pipewrite :: "nat \<Rightarrow> u8 list \<Rightarrow> ('e filest_scheme, int) K" where
  "pipewrite p addr =
     bindK (pipewrite_loop p addr) (\<lambda>r.
     case r of
       All \<Rightarrow> thenK (wakeup (Chan_nread p)) (ret (int (length addr)))
     | Broken \<Rightarrow> ret (-1)
     | Waits rest \<Rightarrow> stopK (Sleeps ''pipe''))"

fun piperead_loop :: "nat \<Rightarrow> nat \<Rightarrow> ('e filest_scheme, u8 list) K" where
  "piperead_loop p 0 = ret []"
| "piperead_loop p (Suc n) =
     bindK (getK (\<lambda>s. pipes s p)) (\<lambda>q.
     if pi_nread q = pi_nwrite q then ret []
     else
       let b = pi_data q ! (unat (pi_nread q) mod PIPESIZE) in
       thenK (setP p (\<lambda>q. q\<lparr>pi_nread := pi_nread q + 1\<rparr>))
       (bindK (piperead_loop p n) (\<lambda>bs. ret (b # bs))))"

definition piperead :: "nat \<Rightarrow> int \<Rightarrow> ('e filest_scheme, int \<times> u8 list) K" where
  "piperead p n =
     bindK (getK (\<lambda>s. (pipes s p, p_killed (myproc s)))) (\<lambda>(q, killed).
     if pi_nread q = pi_nwrite q \<and> pi_writeopen q then
       if killed then ret (-1, []) else stopK (Sleeps ''pipe'')
     else
       bindK (piperead_loop p (nat n)) (\<lambda>bs.
       thenK (wakeup (Chan_nwrite p)) (ret (int (length bs), bs))))"

section \<open>The queue\<close>

definition pipe_len :: "pipe \<Rightarrow> nat" where
  "pipe_len q = unat (pi_nwrite q - pi_nread q)"

definition pipe_ok :: "pipe \<Rightarrow> bool" where
  "pipe_ok q \<longleftrightarrow> length (pi_data q) = PIPESIZE \<and> pipe_len q \<le> PIPESIZE"

definition pipe_at :: "pipe \<Rightarrow> 32 word \<Rightarrow> u8" where
  "pipe_at q i = pi_data q ! (unat i mod PIPESIZE)"

definition pipe_bytes :: "pipe \<Rightarrow> u8 list" where
  "pipe_bytes q = map (\<lambda>i. pipe_at q (pi_nread q + of_nat i)) [0..<pipe_len q]"

lemma length_pipe_bytes [simp]: "length (pipe_bytes q) = pipe_len q"
  by (simp add: pipe_bytes_def)

lemma unat_mod_512: "unat (a + b :: 32 word) mod 512 = (unat a + unat b) mod 512"
proof -
  have "unat (a + b) = (unat a + unat b) mod 4294967296" by (simp add: unat_word_ariths)
  then show ?thesis by (simp add: mod_mod_cancel)
qed

lemma pipe_full_len: "pipe_ok q \<Longrightarrow> pipe_full q \<longleftrightarrow> pipe_len q = PIPESIZE"
proof -
  have "pipe_full q \<longleftrightarrow> pi_nwrite q - pi_nread q = 512"
    unfolding pipe_full_def by (simp add: diff_eq_eq add.commute)
  also have "\<dots> \<longleftrightarrow> unat (pi_nwrite q - pi_nread q) = 512"
    by (simp add: word_unat_eq_iff)
  finally show ?thesis by (simp add: pipe_len_def)
qed

lemma pipe_empty_len: "pi_nread q = pi_nwrite q \<longleftrightarrow> pipe_len q = 0"
  unfolding pipe_len_def by (auto simp: unat_eq_zero)

lemma put_byte_ok:
  assumes ok: "pipe_ok q" and room: "pipe_len q < PIPESIZE"
  shows "pipe_ok (put_byte b q)" "pipe_bytes (put_byte b q) = pipe_bytes q @ [b]"
    "pi_readopen (put_byte b q) = pi_readopen q" "pi_writeopen (put_byte b q) = pi_writeopen q"
proof -
  have w: "pi_nwrite q = pi_nread q + of_nat (pipe_len q)" by (simp add: pipe_len_def)
  have len: "pipe_len (put_byte b q) = Suc (pipe_len q)"
  proof -
    have "pi_nwrite q + 1 - pi_nread q = of_nat (Suc (pipe_len q))" using w by simp
    then show ?thesis using room by (simp only: pipe_len_def put_byte_def pipe.simps) (simp add: unat_of_nat pipe_len_def del: of_nat_Suc)
  qed
  show "pipe_ok (put_byte b q)" using ok room len by (simp add: pipe_ok_def put_byte_def)
  have "pipe_at (put_byte b q) (pi_nread q + of_nat i) = (if i = pipe_len q then b else pipe_at q (pi_nread q + of_nat i))"
    if "i \<le> pipe_len q" for i
  proof -
    have "unat (pi_nread q + of_nat i) mod 512 = (unat (pi_nread q) + i) mod 512" if "i < 4294967296" for i
      using that by (simp add: unat_mod_512 unat_of_nat)
    moreover have "(a + n) mod 512 = (a + i) mod 512 \<longleftrightarrow> i = n" if "i \<le> n" "n < 512" for a i n :: nat
      using that mod_eq_dvd_iff_nat[of "a + i" "a + n" 512] by (auto dest: dvd_imp_le)
    ultimately show ?thesis
      using that room ok unfolding pipe_at_def put_byte_def w by (auto simp: nth_list_update pipe_ok_def)
  qed
  then show "pipe_bytes (put_byte b q) = pipe_bytes q @ [b]"
    unfolding pipe_bytes_def len by (simp add: put_byte_def)
qed (simp_all add: put_byte_def)

lemma take_byte_ok:
  assumes ok: "pipe_ok q" and ne: "pipe_len q \<noteq> 0"
  defines "q' \<equiv> q\<lparr>pi_nread := pi_nread q + 1\<rparr>"
  shows "pipe_ok q'" "pipe_bytes q = pipe_at q (pi_nread q) # pipe_bytes q'"
proof -
  obtain k where k: "pipe_len q = Suc k" using ne by (cases "pipe_len q") auto
  have "pi_nwrite q - pi_nread q = of_nat (Suc k)" by (simp add: k[symmetric] pipe_len_def del: of_nat_Suc)
  then have "pi_nwrite q - (pi_nread q + 1) = of_nat k" by (simp add: diff_diff_eq[symmetric])
  moreover have "k < 512" using ok k by (simp add: pipe_ok_def)
  ultimately have len: "pipe_len q' = k" by (simp add: pipe_len_def q'_def unat_of_nat)
  then show "pipe_ok q'" using ok k by (simp add: pipe_ok_def q'_def)
  show "pipe_bytes q = pipe_at q (pi_nread q) # pipe_bytes q'"
    unfolding pipe_bytes_def len k upt_conv_Cons[OF zero_less_Suc] map_Suc_upt[symmetric]
    by (simp add: q'_def pipe_at_def ac_simps del: upt_Suc)
qed

section \<open>Refinement\<close>

text \<open>What a pipe promises: a queue of at most 512 bytes and the two open flags. A writer that
  finds no room for all its bytes stores what fits and fails if nobody can read or it was killed,
  otherwise it waits; a reader of an empty pipe waits while there are writers.\<close>

record pipe_spec =
  q_bytes :: "u8 list"
  q_readopen :: bool
  q_writeopen :: bool
  q_killed :: bool

datatype pipe_req = PWrite "u8 list" | PRead int

fun pipe_spec_step :: "pipe_req \<Rightarrow> (pipe_spec, int \<times> u8 list) K" where
  "pipe_spec_step (PWrite bs) q =
     (let room = PIPESIZE - length (q_bytes q); q' = q\<lparr>q_bytes := q_bytes q @ take room bs\<rparr> in
      if length bs \<le> room then Inr ((int (length bs), []), q')
      else if \<not> q_readopen q \<or> q_killed q then Inr ((-1, []), q')
      else Inl (Sleeps ''pipe''))"
| "pipe_spec_step (PRead n) q =
     (if q_bytes q = [] \<and> q_writeopen q
      then if q_killed q then Inr ((-1, []), q) else Inl (Sleeps ''pipe'')
      else let bs = take (nat n) (q_bytes q)
           in Inr ((int (length bs), bs), q\<lparr>q_bytes := drop (nat n) (q_bytes q)\<rparr>))"

fun pipe_step :: "nat \<Rightarrow> pipe_req \<Rightarrow> ('e filest_scheme, int \<times> u8 list) K" where
  "pipe_step p (PWrite bs) = bindK (pipewrite p bs) (\<lambda>r. ret (r, []))"
| "pipe_step p (PRead n) = piperead p n"

definition pipe_inv :: "nat \<Rightarrow> 'e filest_scheme \<Rightarrow> bool" where
  "pipe_inv p s \<longleftrightarrow> pipe_ok (pipes s p) \<and> curproc s < length (ptable s)"

definition pipe_abs :: "nat \<Rightarrow> 'e filest_scheme \<Rightarrow> pipe_spec" where
  "pipe_abs p s = \<lparr>q_bytes = pipe_bytes (pipes s p), q_readopen = pi_readopen (pipes s p),
     q_writeopen = pi_writeopen (pipes s p), q_killed = p_killed (myproc s)\<rparr>"

lemma pipe_wakeup:
  "pipe_inv p s \<Longrightarrow> pipe_abs p (s\<lparr>ptable := wakeup1 c (ptable s)\<rparr>) = pipe_abs p s"
  "pipe_inv p (s\<lparr>ptable := wakeup1 c (ptable s)\<rparr>) = pipe_inv p s"
  by (simp_all add: pipe_inv_def pipe_abs_def)

definition set_pipe :: "nat \<Rightarrow> pipe \<Rightarrow> 'e filest_scheme \<Rightarrow> 'e filest_scheme" where
  "set_pipe p q s = s\<lparr>pipes := (pipes s)(p := q)\<rparr>"

lemma set_pipe_fields [simp]:
  "pipes (set_pipe p q s) p = q" "ptable (set_pipe p q s) = ptable s" "curproc (set_pipe p q s) = curproc s"
  "set_pipe p q' (set_pipe p q s) = set_pipe p q' s" "set_pipe p (pipes s p) s = s"
  by (simp_all add: set_pipe_def)

lemma write_loop:
  assumes "pipe_inv p s"
  shows "(let room = PIPESIZE - pipe_len (pipes s p) in
     pipewrite_loop p bs s =
      (let t = set_pipe p (fold put_byte (take room bs) (pipes s p)) s in
       if length bs \<le> room then Inr (All, t)
       else if \<not> pi_readopen (pipes s p) \<or> p_killed (myproc s) then Inr (Broken, t)
       else Inr (Waits (drop room bs), t\<lparr>ptable := wakeup1 (Some (Chan_nread p)) (ptable t)\<rparr>))) \<and>
     pipe_ok (fold put_byte (take (PIPESIZE - pipe_len (pipes s p)) bs) (pipes s p)) \<and>
     pipe_bytes (fold put_byte (take (PIPESIZE - pipe_len (pipes s p)) bs) (pipes s p)) =
       pipe_bytes (pipes s p) @ take (PIPESIZE - pipe_len (pipes s p)) bs"
  using assms
proof (induction bs arbitrary: s)
  case Nil
  then show ?case by (simp add: ret_def pipe_inv_def)
next
  case (Cons b bs)
  let ?q = "pipes s p"
  have ok: "pipe_ok ?q" using Cons.prems by (simp add: pipe_inv_def)
  show ?case
  proof (cases "pipe_len ?q = PIPESIZE")
    case True
    then show ?thesis
      using ok pipe_full_len[OF ok] by (simp add: bindK_getK kdefs wakeup_def)
  next
    case False
    then have lt: "pipe_len ?q < PIPESIZE" using ok by (simp add: pipe_ok_def)
    note put = put_byte_ok[OF ok lt, of b]
    let ?t = "set_pipe p (put_byte b ?q) s"
    have len: "pipe_len (put_byte b ?q) = Suc (pipe_len ?q)"
      using arg_cong[OF put(2), of length] by simp
    have "pipewrite_loop p (b # bs) s = pipewrite_loop p bs ?t"
      using False pipe_full_len[OF ok] by (simp add: bindK_getK thenK_def setP_def bindK_def[of "modK _"] modK_def set_pipe_def)
    moreover obtain k where k: "PIPESIZE - pipe_len ?q = Suc k" "PIPESIZE - Suc (pipe_len ?q) = k"
      using lt by (metis Suc_diff_Suc)
    moreover have "pipe_inv p ?t" using Cons.prems put(1) by (simp add: pipe_inv_def)
    ultimately show ?thesis
      using Cons.IH[of ?t] put(2-4) by (simp add: Let_def len)
  qed
qed

lemma fold_put_flags [simp]:
  "pi_readopen (fold put_byte bs q) = pi_readopen q" "pi_writeopen (fold put_byte bs q) = pi_writeopen q"
  by (induction bs arbitrary: q) (simp_all add: put_byte_def)

lemma read_loop:
  assumes "pipe_ok (pipes s p)"
  shows "\<exists>q. piperead_loop p n s = Inr (take n (pipe_bytes (pipes s p)), set_pipe p q s) \<and> pipe_ok q \<and>
    pipe_bytes q = drop n (pipe_bytes (pipes s p)) \<and>
    pi_readopen q = pi_readopen (pipes s p) \<and> pi_writeopen q = pi_writeopen (pipes s p)"
  using assms
proof (induction n arbitrary: s)
  case 0
  then show ?case by (intro exI[of _ "pipes s p"]) (simp add: ret_def)
next
  case (Suc n)
  let ?q = "pipes s p"
  show ?case
  proof (cases "pipe_len ?q = 0")
    case True
    then have "pipe_bytes ?q = []" by (simp add: pipe_bytes_def)
    with True Suc.prems show ?thesis
      by (intro exI[of _ ?q]) (simp add: bindK_getK pipe_empty_len ret_def)
  next
    case False
    let ?q' = "?q\<lparr>pi_nread := pi_nread ?q + 1\<rparr>"
    note tk = take_byte_ok[OF Suc.prems False]
    obtain q where q: "piperead_loop p n (set_pipe p ?q' s) = Inr (take n (pipe_bytes ?q'), set_pipe p q s)" "pipe_ok q"
      "pipe_bytes q = drop n (pipe_bytes ?q')" "pi_readopen q = pi_readopen ?q'" "pi_writeopen q = pi_writeopen ?q'"
      using Suc.IH[of "set_pipe p ?q' s"] tk(1) by auto
    have "piperead_loop p (Suc n) s = Inr (pipe_at ?q (pi_nread ?q) # take n (pipe_bytes ?q'), set_pipe p q s)"
      using False q(1) pipe_empty_len[of ?q]
      by (simp add: kdefs setP_def set_pipe_def pipe_at_def Let_def)
    then show ?thesis using q tk(2) by (intro exI[of _ q]) simp
  qed
qed

lemma pipewrite_result:
  assumes inv: "pipe_inv p s"
  shows "pipe_spec_step (PWrite bs) (pipe_abs p s) = map_state (pipe_abs p) (pipe_step p (PWrite bs) s)"
    "pipe_step p (PWrite bs) s = Inr (r, t) \<Longrightarrow> pipe_inv p t"
proof -
  let ?room = "PIPESIZE - pipe_len (pipes s p)"
  let ?q = "fold put_byte (take ?room bs) (pipes s p)"
  note w = write_loop[OF inv, of bs, unfolded Let_def]
  have "pipe_inv p (set_pipe p ?q s)" using w inv by (simp add: pipe_inv_def)
  moreover from w have "pipe_abs p (set_pipe p ?q s) = (pipe_abs p s)\<lparr>q_bytes := pipe_bytes (pipes s p) @ take ?room bs\<rparr>"
    by (simp add: pipe_abs_def)
  ultimately show "pipe_spec_step (PWrite bs) (pipe_abs p s) = map_state (pipe_abs p) (pipe_step p (PWrite bs) s)"
    "pipe_step p (PWrite bs) s = Inr (r, t) \<Longrightarrow> pipe_inv p t"
    using conjunct1[OF w] pipe_wakeup[where s = "set_pipe p ?q s"]
    by (auto simp: pipewrite_def kdefs wakeup_def Let_def pipe_abs_def split: if_splits)
qed

lemma piperead_result:
  assumes inv: "pipe_inv p s"
  shows "pipe_spec_step (PRead n) (pipe_abs p s) = map_state (pipe_abs p) (pipe_step p (PRead n) s)"
    "pipe_step p (PRead n) s = Inr (r, t) \<Longrightarrow> pipe_inv p t"
proof -
  from inv obtain q where q: "piperead_loop p (nat n) s = Inr (take (nat n) (pipe_bytes (pipes s p)), set_pipe p q s)" "pipe_ok q"
      "pipe_bytes q = drop (nat n) (pipe_bytes (pipes s p))" "pi_readopen q = pi_readopen (pipes s p)"
      "pi_writeopen q = pi_writeopen (pipes s p)"
    using read_loop[of s p "nat n"] by (auto simp: pipe_inv_def)
  then have i: "pipe_inv p (set_pipe p q s)" and
    a: "pipe_abs p (set_pipe p q s) = (pipe_abs p s)\<lparr>q_bytes := drop (nat n) (pipe_bytes (pipes s p))\<rparr>"
    using inv by (simp_all add: pipe_inv_def pipe_abs_def)
  have e: "pipe_bytes (pipes s p) = [] \<longleftrightarrow> pi_nread (pipes s p) = pi_nwrite (pipes s p)"
    by (simp add: pipe_empty_len pipe_bytes_def)
  show "pipe_spec_step (PRead n) (pipe_abs p s) = map_state (pipe_abs p) (pipe_step p (PRead n) s)"
    "pipe_step p (PRead n) s = Inr (r, t) \<Longrightarrow> pipe_inv p t"
    using q(1) a i inv pipe_wakeup[where s = "set_pipe p q s"] e
    by (auto simp: piperead_def kdefs wakeup_def Let_def pipe_abs_def split: if_splits)
qed

interpretation pipe_queue: simulation "pipe_inv p" "pipe_abs p" "pipe_step p" pipe_spec_step for p
proof unfold_locales
  fix s :: "'a filest_scheme" and x r t
  assume inv: "pipe_inv p s"
  show "pipe_spec_step x (pipe_abs p s) = map_state (pipe_abs p) (pipe_step p x s)"
    by (cases x) (simp_all only: pipewrite_result(1)[OF inv] piperead_result(1)[OF inv])
  show "pipe_step p x s = Inr (r, t) \<Longrightarrow> pipe_inv p t"
    using pipewrite_result(2)[OF inv] piperead_result(2)[OF inv] by (cases x) blast+
qed

end
