(* ===== verification/File.thy ===== *)
theory File
  imports Pipe
begin

text \<open>
  Open files (\<^verbatim>\<open>file.c\<close>, and \<^verbatim>\<open>pipealloc\<close> of \<^verbatim>\<open>pipe.c\<close>). A \<^verbatim>\<open>struct file\<close> pointer is an index of the file
  table; the fields of a free entry keep what they last held. The bytes a write takes from the
  caller's buffer are an argument, those a read stores there are part of the result.
\<close>

section \<open>Code\<close>

abbreviation NFILE :: nat where "NFILE \<equiv> 100"
abbreviation KSTACKSIZE :: nat where "KSTACKSIZE \<equiv> 4096"
abbreviation MAXOPBLOCKS :: nat where "MAXOPBLOCKS \<equiv> 10"

definition getF :: "nat \<Rightarrow> (file_rec \<Rightarrow> 'a) \<Rightarrow> ('e filest_scheme, 'a) K" where
  "getF f g = getK (\<lambda>s. g (ftable s ! f))"

definition setF :: "nat \<Rightarrow> (file_rec \<Rightarrow> file_rec) \<Rightarrow> ('e filest_scheme, unit) K" where
  "setF f g = modK (\<lambda>s. s\<lparr>ftable := (ftable s)[f := g (ftable s ! f)]\<rparr>)"

definition filealloc :: "('e filest_scheme, nat option) K" where
  "filealloc =
     bindK (getK (\<lambda>s. find (\<lambda>f. f_ref (ftable s ! f) = 0) [0..<NFILE])) (\<lambda>r.
     case r of
       None \<Rightarrow> ret None
     | Some f \<Rightarrow> thenK (setF f (\<lambda>x. x\<lparr>f_ref := 1\<rparr>)) (ret (Some f)))"

definition filedup :: "nat \<Rightarrow> ('e filest_scheme, nat) K" where
  "filedup f =
     bindK (getF f f_ref) (\<lambda>r.
     if r < 1 then panic ''filedup''
     else thenK (setF f (\<lambda>x. x\<lparr>f_ref := f_ref x + 1\<rparr>)) (ret f))"

definition the_ip :: "nat option \<Rightarrow> (nat \<Rightarrow> ('e filest_scheme, 'a) K) \<Rightarrow> ('e filest_scheme, 'a) K" where
  "the_ip ip m = (case ip of None \<Rightarrow> stopK (Fault ''null inode'') | Some i \<Rightarrow> m i)"

definition fileclose :: "nat \<Rightarrow> ('e filest_scheme, unit) K" where
  "fileclose f =
     bindK (getF f f_ref) (\<lambda>r.
     if r < 1 then panic ''fileclose''
     else
       thenK (setF f (\<lambda>x. x\<lparr>f_ref := f_ref x - 1\<rparr>))
       (if r - 1 > 0 then ret ()
        else
          bindK (getF f (\<lambda>x. x)) (\<lambda>ff.
          thenK (setF f (\<lambda>x. x\<lparr>f_ref := 0, f_type := FD_NONE\<rparr>))
          (if f_type ff = FD_PIPE then pipeclose (f_pipe ff) (f_writable ff)
           else if f_type ff = FD_INODE then
             thenK begin_op_spec
             (thenK (the_ip (f_ip ff) iput)
             end_op_spec)
           else ret ()))))"

definition filestat :: "nat \<Rightarrow> stat \<Rightarrow> ('e filest_scheme, int \<times> stat) K" where
  "filestat f st =
     bindK (getF f (\<lambda>x. x)) (\<lambda>ff.
     if f_type ff = FD_INODE then
       the_ip (f_ip ff) (\<lambda>ip.
       thenK (ilock (Some ip))
       (bindK (stati ip st) (\<lambda>st'.
       thenK (iunlock (Some ip))
       (ret (0, st')))))
     else ret (-1, st))"

text \<open>The bytes of \<^verbatim>\<open>addrs\<close> read as a string. (Without a terminator in them the string is cut at
  their end.)\<close>

definition link_text :: "inode \<Rightarrow> u8 list" where
  "link_text i = takeWhile (\<lambda>c. c \<noteq> 0) (concat (map (le_bytes 4) (i_addrs i)))"

definition fileread :: "nat \<Rightarrow> int \<Rightarrow> ('e filest_scheme, int \<times> u8 list) K" where
  "fileread f n =
     bindK (getF f (\<lambda>x. x)) (\<lambda>ff.
     if \<not> f_readable ff then
       thenK (cprintf (text_of ''file is not readable'' @ [newline]) []) (ret (-1, []))
     else if f_type ff = FD_PIPE then piperead (f_pipe ff) n
     else if f_type ff = FD_INODE then
       the_ip (f_ip ff) (\<lambda>ip.
       thenK (ilock (Some ip))
       (bindK (getI ip i_type) (\<lambda>ty.
       bindK (readi ip (f_off ff) (nat (n mod 4294967296))) (\<lambda>(r, bs).
       thenK (whenK (ty \<noteq> T_EXTENT \<and> r > 0) (setF f (\<lambda>x. x\<lparr>f_off := u32 (f_off x + nat r)\<rparr>)))
       (thenK (iunlock (Some ip))
       (ret (r, bs)))))))
     else if f_type ff = SYMLINK then
       the_ip (f_ip ff) (\<lambda>ip.
       thenK (ilock (Some ip))
       (bindK (getI ip link_text) (\<lambda>str.
       thenK (cprintf (text_of ''%s'' @ [newline]) [Str (Some (map unat str))])
       (thenK (iunlock (Some ip))
       (ret (0, []))))))
     else panic ''fileread'')"

text \<open>The attempt of \<^verbatim>\<open>filewrite\<close> to fill a hole. \<^verbatim>\<open>byteDiff\<close> is an \<^verbatim>\<open>int\<close>; the buffer is an array on the
  kernel stack, which has one page.\<close>

definition fill_hole :: "nat \<Rightarrow> nat \<Rightarrow> nat \<Rightarrow> ('e filest_scheme, unit) K" where
  "fill_hole ip off sz =
     (let byteDiff = off - sz in
      if byteDiff \<ge> KSTACKSIZE then stopK (Fault ''kernel stack'')
      else
        thenK begin_op_spec
        (thenK (ilock (Some ip))
        (bindK (writei ip (replicate byteDiff 0) off byteDiff) (\<lambda>_.
        thenK (iunlock (Some ip))
        (thenK end_op_spec
        (setI ip (\<lambda>i. i\<lparr>i_size := u32 (i_size i + byteDiff)\<rparr>)))))))"

definition max_write :: nat where
  "max_write = (MAXOPBLOCKS - 1 - 1 - 2) div 2 * 512"

definition write_part :: "nat \<Rightarrow> nat \<Rightarrow> u8 list \<Rightarrow> ('e filest_scheme, int) K" where
  "write_part f ip src =
     thenK begin_op_spec
     (thenK (ilock (Some ip))
     (bindK (getF f f_off) (\<lambda>off.
     bindK (writei ip src off (length src)) (\<lambda>r.
     thenK (whenK (r > 0) (setF f (\<lambda>x. x\<lparr>f_off := u32 (f_off x + nat r)\<rparr>)))
     (thenK (iunlock (Some ip))
     (thenK end_op_spec
     (ret r)))))))"

text \<open>The loop over the parts: whether everything was written.\<close>

function write_parts :: "nat \<Rightarrow> nat \<Rightarrow> u8 list \<Rightarrow> ('e filest_scheme, bool) K" where
  "write_parts f ip src =
     (if src = [] then ret True
      else
        bindK (write_part f ip (take max_write src)) (\<lambda>r.
        if r < 0 then ret False
        else if r \<noteq> int (length (take max_write src)) then panic ''short filewrite''
        else write_parts f ip (drop max_write src)))"
  by pat_completeness auto

termination write_parts
  by (relation "measure (\<lambda>(f, ip, src). length src)") (auto simp: max_write_def)

declare write_parts.simps [simp del]

definition filewrite :: "nat \<Rightarrow> u8 list \<Rightarrow> ('e filest_scheme, int) K" where
  "filewrite f addr =
     bindK (getF f (\<lambda>x. x)) (\<lambda>ff.
     if \<not> f_writable ff then ret (-1)
     else
       thenK (whenK (f_off ff > 0)
         (the_ip (f_ip ff) (\<lambda>ip.
          bindK (getI ip i_size) (\<lambda>sz.
          whenK (f_off ff > sz) (fill_hole ip (f_off ff) sz)))))
       (if f_type ff = FD_PIPE then pipewrite (f_pipe ff) addr
        else if f_type ff = FD_INODE then
          the_ip (f_ip ff) (\<lambda>ip.
          bindK (write_parts f ip addr) (\<lambda>ok. ret (if ok then int (length addr) else -1)))
        else panic ''filewrite''))"

definition close_opt :: "nat option \<Rightarrow> ('e filest_scheme, unit) K" where
  "close_opt f = (case f of None \<Rightarrow> ret () | Some i \<Rightarrow> fileclose i)"

definition pipealloc :: "('e filest_scheme, (nat \<times> nat) option) K" where
  "pipealloc =
     bindK filealloc (\<lambda>f0.
     bindK (case f0 of None \<Rightarrow> ret None | Some _ \<Rightarrow> filealloc) (\<lambda>f1.
     bindK (if f1 = None then ret 0 else kalloc) (\<lambda>p.
     case (f0, f1) of
       (Some rf, Some wr) \<Rightarrow>
         if p = 0 then thenK (close_opt f0) (thenK (close_opt f1) (ret None))
         else
           thenK (setP p (\<lambda>q. q\<lparr>pi_readopen := True, pi_writeopen := True, pi_nwrite := 0, pi_nread := 0\<rparr>))
           (thenK (setF rf (\<lambda>x. x\<lparr>f_type := FD_PIPE, f_readable := True, f_writable := False, f_pipe := p\<rparr>))
           (thenK (setF wr (\<lambda>x. x\<lparr>f_type := FD_PIPE, f_readable := False, f_writable := True, f_pipe := p\<rparr>))
           (ret (Some (rf, wr)))))
     | _ \<Rightarrow> thenK (close_opt f0) (thenK (close_opt f1) (ret None)))))"

end
