(* ===== verification/Sysargs.thy ===== *)
theory Sysargs
  imports File
begin

text \<open>
  System call arguments (\<^verbatim>\<open>syscall.c\<close>). The kernel reaches the caller's memory through the page
  table of the running process: a page that is not present, or not writable for a store, is a page
  fault in kernel mode, on which \<^verbatim>\<open>trap\<close> panics. A string argument is the list of its bytes.
\<close>

section \<open>User memory\<close>

definition user_read :: "nat \<Rightarrow> ('e memst_scheme, u8) K" where
  "user_read va s =
     (case ubyte (kmem s) (p_pgdir (myproc s)) va of
        None \<Rightarrow> Inl (Panic ''trap'')
      | Some b \<Rightarrow> Inr (b, s))"

definition user_write :: "nat \<Rightarrow> u8 \<Rightarrow> ('e memst_scheme, unit) K" where
  "user_write va b s =
     (case mmu (kmem s) (p_pgdir (myproc s)) va of
        None \<Rightarrow> Inl (Panic ''trap'')
      | Some (x, fl) \<Rightarrow> if has_flag fl PTE_W then Inr ((), s\<lparr>kmem := (kmem s)(x := b)\<rparr>) else Inl (Panic ''trap''))"

primrec user_reads :: "nat \<Rightarrow> nat \<Rightarrow> ('e memst_scheme, u8 list) K" where
  "user_reads va 0 = ret []"
| "user_reads va (Suc n) =
     bindK (user_read va) (\<lambda>b. bindK (user_reads (u32 (va + 1)) n) (\<lambda>bs. ret (b # bs)))"

primrec user_writes :: "nat \<Rightarrow> u8 list \<Rightarrow> ('e memst_scheme, unit) K" where
  "user_writes va [] = ret ()"
| "user_writes va (b # bs) = thenK (user_write va b) (user_writes (u32 (va + 1)) bs)"

definition set_proc :: "(proc \<Rightarrow> proc) \<Rightarrow> ('e icst_scheme, unit) K" where
  "set_proc f = modK (\<lambda>s. s\<lparr>ptable := (ptable s)[curproc s := f (myproc s)]\<rparr>)"

section \<open>Arguments\<close>

text \<open>\<open>None\<close> is the result \<open>-1\<close>.\<close>

definition fetchint :: "nat \<Rightarrow> ('e memst_scheme, nat option) K" where
  "fetchint addr =
     bindK (getK (\<lambda>s. p_sz (myproc s))) (\<lambda>sz.
     if addr \<ge> sz \<or> u32 (addr + 4) > sz then ret None
     else bindK (user_reads addr 4) (\<lambda>bs. ret (Some (le_nat bs))))"

function fetchstr_loop :: "nat \<Rightarrow> nat \<Rightarrow> ('e memst_scheme, u8 list option) K" where
  "fetchstr_loop p ep =
     (if ep \<le> p then ret None
      else
        bindK (user_read p) (\<lambda>b.
        if b = 0 then ret (Some [])
        else bindK (fetchstr_loop (p + 1) ep) (\<lambda>r. ret (map_option (Cons b) r))))"
  by pat_completeness auto

termination fetchstr_loop
  by (relation "measure (\<lambda>(p, ep). ep - p)") auto

declare fetchstr_loop.simps [simp del]

definition fetchstr :: "nat \<Rightarrow> ('e memst_scheme, u8 list option) K" where
  "fetchstr addr =
     bindK (getK (\<lambda>s. p_sz (myproc s))) (\<lambda>sz.
     if addr \<ge> sz then ret None else fetchstr_loop addr sz)"

definition argint :: "nat \<Rightarrow> ('e memst_scheme, nat option) K" where
  "argint n = bindK (getK (\<lambda>s. tf_esp (p_tf (myproc s)))) (\<lambda>esp. fetchint (u32 (esp + 4 + 4 * n)))"

definition argptr :: "nat \<Rightarrow> int \<Rightarrow> ('e memst_scheme, nat option) K" where
  "argptr n sz =
     bindK (argint n) (\<lambda>r.
     case r of
       None \<Rightarrow> ret None
     | Some i \<Rightarrow>
         bindK (getK (\<lambda>s. p_sz (myproc s))) (\<lambda>psz.
         if sz < 0 \<or> i \<ge> psz \<or> u32 (i + nat sz) > psz then ret None else ret (Some i)))"

text \<open>The address of a string argument and the string.\<close>

definition argstr :: "nat \<Rightarrow> ('e memst_scheme, (nat \<times> u8 list) option) K" where
  "argstr n =
     bindK (argint n) (\<lambda>r.
     case r of
       None \<Rightarrow> ret None
     | Some addr \<Rightarrow> bindK (fetchstr addr) (\<lambda>str. ret (map_option (Pair addr) str)))"

end
