(* ===== verification/Sysfile.thy ===== *)
theory Sysfile
  imports Sysargs
begin

text \<open>
  The file system calls (\<^verbatim>\<open>sysfile.c\<close>), except \<^verbatim>\<open>sys_exec\<close>, which is with \<^verbatim>\<open>exec\<close> in theory \<open>Exec\<close>.
  Every call runs on behalf of the current process and reads its arguments from that process's
  stack; the result is the value the call returns. A buffer argument is fetched when the
  arguments are, and what a read returns is stored in the caller's memory at the end.
\<close>

section \<open>File descriptors\<close>

abbreviation O_RDONLY :: nat where "O_RDONLY \<equiv> 0"
abbreviation O_WRONLY :: nat where "O_WRONLY \<equiv> 1"
abbreviation O_RDWR :: nat where "O_RDWR \<equiv> 2"
abbreviation O_NOFOLLOW :: nat where "O_NOFOLLOW \<equiv> 3"
abbreviation O_EXTENT :: nat where "O_EXTENT \<equiv> 4"
abbreviation O_CREATE :: nat where "O_CREATE \<equiv> 512"

definition s16 :: "int \<Rightarrow> int" where
  "s16 x = (x + 32768) mod 65536 - 32768"

text \<open>\<^verbatim>\<open>sys_lseek\<close> indexes the table of open files with the descriptor it is given.\<close>

definition sys_lseek :: "('e filest_scheme, int) K" where
  "sys_lseek =
     bindK (argint 0) (\<lambda>fd.
     bindK (if fd = None then ret None else argint 1) (\<lambda>offset.
     case (fd, offset) of
       (Some fd, Some offset) \<Rightarrow>
         if fd \<ge> NOFILE then stopK (Fault ''ofile'')
         else
           bindK (getK (\<lambda>s. p_ofile (myproc s) ! fd)) (\<lambda>r.
           case r of
             None \<Rightarrow> ret (-1)
           | Some f \<Rightarrow>
               thenK (setF f (\<lambda>x. x\<lparr>f_off := u32 (f_off x + offset)\<rparr>))
               (bindK (getF f f_off) (\<lambda>off. ret (s32 off))))
     | _ \<Rightarrow> ret (-1)))"

definition argfd :: "nat \<Rightarrow> ('e filest_scheme, (nat \<times> nat) option) K" where
  "argfd n =
     bindK (argint n) (\<lambda>r.
     case r of
       None \<Rightarrow> ret None
     | Some fd \<Rightarrow>
         if s32 fd < 0 \<or> s32 fd \<ge> int NOFILE then ret None
         else bindK (getK (\<lambda>s. p_ofile (myproc s) ! fd)) (\<lambda>f. ret (map_option (Pair fd) f)))"

definition set_ofile :: "nat \<Rightarrow> nat option \<Rightarrow> ('e icst_scheme, unit) K" where
  "set_ofile fd f = set_proc (\<lambda>p. p\<lparr>p_ofile := (p_ofile p)[fd := f]\<rparr>)"

definition fdalloc :: "nat \<Rightarrow> ('e filest_scheme, nat option) K" where
  "fdalloc f =
     bindK (getK (\<lambda>s. find (\<lambda>fd. p_ofile (myproc s) ! fd = None) [0..<NOFILE])) (\<lambda>r.
     case r of
       None \<Rightarrow> ret None
     | Some fd \<Rightarrow> thenK (set_ofile fd (Some f)) (ret (Some fd)))"

definition sys_dup :: "('e filest_scheme, int) K" where
  "sys_dup =
     bindK (argfd 0) (\<lambda>a.
     case a of
       None \<Rightarrow> ret (-1)
     | Some (_, f) \<Rightarrow>
         bindK (fdalloc f) (\<lambda>r.
         case r of
           None \<Rightarrow> ret (-1)
         | Some fd \<Rightarrow> bindK (filedup f) (\<lambda>_. ret (int fd))))"

text \<open>The three arguments \<^verbatim>\<open>f\<close>, \<^verbatim>\<open>n\<close> and \<^verbatim>\<open>p\<close> of \<^verbatim>\<open>sys_read\<close> and \<^verbatim>\<open>sys_write\<close>.\<close>

definition arg_rw :: "('e filest_scheme, (nat \<times> int \<times> nat) option) K" where
  "arg_rw =
     bindK (argfd 0) (\<lambda>a.
     bindK (if a = None then ret None else argint 2) (\<lambda>n.
     bindK (if n = None then ret None else argptr 1 (s32 (the n))) (\<lambda>p.
     ret (if p = None then None else Some (snd (the a), s32 (the n), the p)))))"

definition sys_read :: "('e filest_scheme, int) K" where
  "sys_read =
     bindK arg_rw (\<lambda>a.
     case a of
       None \<Rightarrow> ret (-1)
     | Some (f, n, p) \<Rightarrow>
         bindK (fileread f n) (\<lambda>(r, bs). thenK (user_writes p bs) (ret r)))"

definition sys_write :: "('e filest_scheme, int) K" where
  "sys_write =
     bindK arg_rw (\<lambda>a.
     case a of
       None \<Rightarrow> ret (-1)
     | Some (f, n, p) \<Rightarrow> bindK (user_reads p (nat n)) (filewrite f))"

definition sys_close :: "('e filest_scheme, int) K" where
  "sys_close =
     bindK (argfd 0) (\<lambda>a.
     case a of
       None \<Rightarrow> ret (-1)
     | Some (fd, f) \<Rightarrow> thenK (set_ofile fd None) (thenK (fileclose f) (ret 0)))"

text \<open>\<^verbatim>\<open>struct stat\<close> in memory: 160 bytes, two of them padding after each \<^verbatim>\<open>short\<close>.\<close>

definition get_stat :: "u8 list \<Rightarrow> stat" where
  "get_stat bs =
     \<lparr>st_type = s16 (int (le_nat (slice 0 2 bs))), st_dev = le_nat (slice 4 4 bs), st_ino = le_nat (slice 8 4 bs),
      st_nlink = s16 (int (le_nat (slice 12 2 bs))), st_size = le_nat (slice 16 4 bs),
      st_addrs = map (\<lambda>k. le_nat (slice (20 + 4 * k) 4 bs)) [0..<12],
      st_numExtents = le_nat (slice 68 4 bs),
      st_extentz = map (\<lambda>k. \<lparr>e_length = le_nat (slice (72 + 8 * k) 4 bs),
        e_start = le_nat (slice (76 + 8 * k) 4 bs)\<rparr>) [0..<11]\<rparr>"

definition put_stat :: "u8 list \<Rightarrow> stat \<Rightarrow> u8 list" where
  "put_stat bs st =
     le_bytes 2 (nat (st_type st mod 65536)) @ slice 2 2 bs @ le_bytes 4 (st_dev st) @ le_bytes 4 (st_ino st) @
     le_bytes 2 (nat (st_nlink st mod 65536)) @ slice 14 2 bs @ le_bytes 4 (st_size st) @
     concat (map (le_bytes 4) (st_addrs st)) @ le_bytes 4 (st_numExtents st) @
     concat (map (\<lambda>e. le_bytes 4 (e_length e) @ le_bytes 4 (e_start e)) (st_extentz st))"

definition sys_fstat :: "('e filest_scheme, int) K" where
  "sys_fstat =
     bindK (argfd 0) (\<lambda>a.
     bindK (if a = None then ret None else argptr 1 160) (\<lambda>p.
     case (a, p) of
       (Some (_, f), Some st) \<Rightarrow>
         bindK (user_reads st 160) (\<lambda>bs.
         bindK (filestat f (get_stat bs)) (\<lambda>(r, st').
         thenK (user_writes st (put_stat bs st')) (ret r)))
     | _ \<Rightarrow> ret (-1)))"

section \<open>Links\<close>

definition add_nlink :: "nat \<Rightarrow> int \<Rightarrow> ('e icst_scheme, unit) K" where
  "add_nlink ip k = setI ip (\<lambda>i. i\<lparr>i_nlink := s16 (i_nlink i + k)\<rparr>)"

definition link_bad :: "nat \<Rightarrow> ('e filest_scheme, int) K" where
  "link_bad ip =
     thenK (ilock (Some ip))
     (thenK (add_nlink ip (-1))
     (thenK (iupdate ip)
     (thenK (iunlockput (Some ip))
     (thenK end_op_spec
     (ret (-1))))))"

definition link_paths :: "u8 list \<Rightarrow> u8 list \<Rightarrow> ('e filest_scheme, int) K" where
  "link_paths old new =
     thenK begin_op_spec
     (bindK (namei old) (\<lambda>r.
     case r of
       None \<Rightarrow> thenK end_op_spec (ret (-1))
     | Some ip \<Rightarrow>
         thenK (ilock (Some ip))
         (bindK (getI ip i_type) (\<lambda>ty.
         if ty = T_DIR then thenK (iunlockput (Some ip)) (thenK end_op_spec (ret (-1)))
         else
           thenK (add_nlink ip 1)
           (thenK (iupdate ip)
           (thenK (iunlock (Some ip))
           (bindK (nameiparent new (\<lambda>_. 0)) (\<lambda>(r, name).
           case r of
             None \<Rightarrow> link_bad ip
           | Some dp \<Rightarrow>
               thenK (ilock (Some dp))
               (bindK (getK (\<lambda>s. (i_dev (icache s ! dp) \<noteq> i_dev (icache s ! ip), i_inum (icache s ! ip)))) (\<lambda>(other, inum).
               bindK (if other then ret (-1) else dirlink dp name inum) (\<lambda>r.
               if r < 0 then thenK (iunlockput (Some dp)) (link_bad ip)
               else
                 thenK (iunlockput (Some dp))
                 (thenK (iput ip)
                 (thenK end_op_spec
                 (ret 0))))))))))))))"

definition sys_link :: "('e filest_scheme, int) K" where
  "sys_link =
     bindK (argstr 0) (\<lambda>old.
     bindK (if old = None then ret None else argstr 1) (\<lambda>new.
     case (old, new) of
       (Some (_, old), Some (_, new)) \<Rightarrow> link_paths old new
     | _ \<Rightarrow> ret (-1)))"

definition dirent_used :: "nat \<Rightarrow> nat \<Rightarrow> ('e icst_scheme, unit option) K" where
  "dirent_used dp off =
     bindK (read_dirent ''isdirempty: readi'' dp off) (\<lambda>de.
     ret (if de_inum de \<noteq> 0 then Some () else None))"

definition isdirempty :: "nat \<Rightarrow> ('e icst_scheme, bool) K" where
  "isdirempty dp =
     bindK (getI dp i_size) (\<lambda>sz.
     bindK (forK (drop 2 (dir_offsets sz)) (dirent_used dp)) (\<lambda>r. ret (r = None)))"

definition unlink_bad :: "nat \<Rightarrow> ('e filest_scheme, int) K" where
  "unlink_bad dp = thenK (iunlockput (Some dp)) (thenK end_op_spec (ret (-1)))"

definition unlink_entry :: "nat \<Rightarrow> nat \<Rightarrow> nat \<Rightarrow> ('e filest_scheme, int) K" where
  "unlink_entry dp ip off =
     bindK (writei dp (replicate DESIZE 0) off DESIZE) (\<lambda>w.
     if w \<noteq> int DESIZE then panic ''unlink: writei''
     else
       bindK (getI ip i_type) (\<lambda>ty.
       thenK (whenK (ty = T_DIR) (thenK (add_nlink dp (-1)) (iupdate dp)))
       (thenK (iunlockput (Some dp))
       (thenK (add_nlink ip (-1))
       (thenK (iupdate ip)
       (thenK (iunlockput (Some ip))
       (thenK end_op_spec
       (ret 0))))))))"

definition unlink_path :: "u8 list \<Rightarrow> ('e filest_scheme, int) K" where
  "unlink_path path =
     thenK begin_op_spec
     (bindK (nameiparent path (\<lambda>_. 0)) (\<lambda>(r, name).
     case r of
       None \<Rightarrow> thenK end_op_spec (ret (-1))
     | Some dp \<Rightarrow>
         thenK (ilock (Some dp))
         (if namecmp name (cstr [46]) = 0 \<or> namecmp name (cstr [46, 46]) = 0 then unlink_bad dp
          else
            bindK (dirlookup dp name) (\<lambda>found.
            case found of
              None \<Rightarrow> unlink_bad dp
            | Some (ip, off) \<Rightarrow>
                thenK (ilock (Some ip))
                (bindK (getI ip (\<lambda>i. (i_nlink i, i_type i))) (\<lambda>(nlink, ty).
                if nlink < 1 then panic ''unlink: nlink < 1''
                else
                  bindK (if ty = T_DIR then isdirempty ip else ret True) (\<lambda>empty.
                  if \<not> empty then thenK (iunlockput (Some ip)) (unlink_bad dp)
                  else unlink_entry dp ip off)))))))"

definition sys_unlink :: "('e filest_scheme, int) K" where
  "sys_unlink =
     bindK (argstr 0) (\<lambda>r.
     case r of None \<Rightarrow> ret (-1) | Some (_, path) \<Rightarrow> unlink_path path)"

section \<open>Creating and opening\<close>

text \<open>The array \<^verbatim>\<open>addrs\<close> of an inode seen as bytes, where a symbolic link keeps its target.\<close>

definition addr_bytes :: "nat list \<Rightarrow> u8 list" where
  "addr_bytes as = concat (map (le_bytes 4) as)"

definition put_target :: "u8 list \<Rightarrow> inode \<Rightarrow> inode" where
  "put_target bs i = i\<lparr>i_addrs := map (get_u32 (splice 0 bs (addr_bytes (i_addrs i)))) [0..<length (i_addrs i)]\<rparr>"

text \<open>\<^verbatim>\<open>createSymLink\<close> uses the file that \<^verbatim>\<open>filealloc\<close> returns without checking it; \<open>target\<close> is the address of
  the target string.\<close>

definition createSymLink :: "nat \<Rightarrow> nat \<Rightarrow> ('e filest_scheme, unit) K" where
  "createSymLink target ip =
     bindK filealloc (\<lambda>r.
     bindK (user_reads target DIRSIZ) (\<lambda>bs.
     thenK (setI ip (put_target bs))
     (thenK (iunlock (Some ip))
     (case r of
        None \<Rightarrow> stopK (Fault ''null file'')
      | Some f \<Rightarrow> setF f (\<lambda>x. x\<lparr>f_ip := Some ip, f_type := SYMLINK, f_off := 0\<rparr>)))))"

definition create_new :: "nat \<Rightarrow> cptr \<Rightarrow> int \<Rightarrow> int \<Rightarrow> int \<Rightarrow> nat \<Rightarrow> ('e filest_scheme, nat option) K" where
  "create_new dp name type major minor target =
     bindK (getI dp (\<lambda>d. (i_dev d, i_inum d))) (\<lambda>(dev, dinum).
     bindK (ialloc dev type) (\<lambda>ip.
     thenK (ilock (Some ip))
     (thenK (setI ip (\<lambda>i. i\<lparr>i_major := major, i_minor := minor, i_nlink := 1\<rparr>))
     (thenK (iupdate ip)
     (bindK (getI ip i_inum) (\<lambda>inum.
     thenK (whenK (type = T_DIR)
       (thenK (add_nlink dp 1)
       (thenK (iupdate dp)
       (bindK (dirlink ip (cstr [46]) inum) (\<lambda>r1.
        bindK (if r1 < 0 then ret (-1) else dirlink ip (cstr [46, 46]) dinum) (\<lambda>r2.
        if r2 < 0 then panic ''create dots'' else ret ()))))))
     (bindK (dirlink dp name inum) (\<lambda>r.
     if r < 0 then panic ''create: dirlink''
     else
       thenK (iunlockput (Some dp))
       (thenK (whenK (type = T_SYMLINK) (createSymLink target ip))
       (ret (Some ip)))))))))))"

definition create :: "u8 list \<Rightarrow> int \<Rightarrow> int \<Rightarrow> int \<Rightarrow> nat \<Rightarrow> ('e filest_scheme, nat option) K" where
  "create path type major minor target =
     bindK (nameiparent path (\<lambda>_. 0)) (\<lambda>(r, name).
     case r of
       None \<Rightarrow> ret None
     | Some dp \<Rightarrow>
         thenK (ilock (Some dp))
         (bindK (dirlookup dp name) (\<lambda>found.
         case found of
           Some (ip, _) \<Rightarrow>
             thenK (iunlockput (Some dp))
             (thenK (ilock (Some ip))
             (bindK (getI ip i_type) (\<lambda>ty.
             if type = T_FILE \<and> ty = T_FILE then ret (Some ip)
             else thenK (iunlockput (Some ip)) (ret None))))
         | None \<Rightarrow> create_new dp name type major minor target)))"

definition file_of :: "fdtype \<Rightarrow> nat \<Rightarrow> nat \<Rightarrow> file_rec \<Rightarrow> file_rec" where
  "file_of ty ip omode x = x\<lparr>f_type := ty, f_ip := Some ip, f_off := 0, f_readable := \<not> has_flag omode O_WRONLY,
     f_writable := has_flag omode O_WRONLY \<or> has_flag omode O_RDWR\<rparr>"

text \<open>A file and a descriptor for it; on failure \<open>msg\<close> is printed and the file closed again.\<close>

definition open_fd :: "nat list \<Rightarrow> ('e filest_scheme, (nat \<times> nat) option) K" where
  "open_fd msg =
     bindK filealloc (\<lambda>r.
     case r of
       None \<Rightarrow> thenK (cprintf msg []) (ret None)
     | Some f \<Rightarrow>
         bindK (fdalloc f) (\<lambda>r.
         case r of
           None \<Rightarrow> thenK (cprintf msg []) (thenK (fileclose f) (ret None))
         | Some fd \<Rightarrow> ret (Some (f, fd))))"

definition symlink_nofollow :: "nat \<Rightarrow> ('e filest_scheme, int) K" where
  "symlink_nofollow ip =
     thenK (iunlock (Some ip))
     (bindK (open_fd (text_of ''Symlink O_NOFOLLOW file open error: Something went wrong opening the target file.'')) (\<lambda>r.
     case r of
       None \<Rightarrow> thenK (iunlockput (Some ip)) (thenK end_op_spec (ret (-1)))
     | Some (f, fd) \<Rightarrow> thenK end_op_spec (thenK (setF f (file_of SYMLINK ip O_RDONLY)) (ret (int fd)))))"

definition symlink_open :: "nat \<Rightarrow> nat \<Rightarrow> nat \<Rightarrow> ('e filest_scheme, int) K" where
  "symlink_open omode ip target =
     thenK (iunlock (Some ip))
     (bindK (open_fd (text_of ''Symlink file open error: Something went wrong opening the target file.'')) (\<lambda>r.
     case r of
       None \<Rightarrow> thenK (iunlockput (Some target)) (thenK end_op_spec (ret (-1)))
     | Some (f, fd) \<Rightarrow> thenK end_op_spec (thenK (setF f (file_of FD_INODE target omode)) (ret (int fd)))))"

text \<open>\<open>left\<close> is \<open>10 - depth\<close>.\<close>

primrec openSymLink :: "nat \<Rightarrow> nat \<Rightarrow> nat \<Rightarrow> ('e filest_scheme, int) K" where
  "openSymLink 0 omode ip =
     (if has_flag omode O_NOFOLLOW then symlink_nofollow ip
      else
        bindK (getI ip link_text) (\<lambda>path.
        bindK (namei path) (\<lambda>r.
        case r of
          None \<Rightarrow>
            thenK (cprintf (text_of ''Symlink open error: Something went wrong finding the symlink target. Target file may not exist.'') [])
            (thenK (iunlock (Some ip)) (thenK end_op_spec (ret (-1))))
        | Some target \<Rightarrow>
            thenK (cprintf (text_of ''Symlink Error: Symlink cycle depth of 10 reached. Ending operation.'' @ [newline]) [])
            (thenK (iunlock (Some ip)) (thenK end_op_spec (ret (-1)))))))"
| "openSymLink (Suc left) omode ip =
     (if has_flag omode O_NOFOLLOW then symlink_nofollow ip
      else
        bindK (getI ip link_text) (\<lambda>path.
        bindK (namei path) (\<lambda>r.
        case r of
          None \<Rightarrow>
            thenK (cprintf (text_of ''Symlink open error: Something went wrong finding the symlink target. Target file may not exist.'') [])
            (thenK (iunlock (Some ip)) (thenK end_op_spec (ret (-1))))
        | Some target \<Rightarrow>
            bindK (getI target i_type) (\<lambda>ty.
            if ty = T_SYMLINK then
              thenK (iunlock (Some ip))
              (thenK (ilock (Some target))
              (openSymLink left omode target))
            else symlink_open omode ip target))))"

text \<open>The inode to open, locked; \<open>None\<close> if the call fails.\<close>

definition open_inode :: "u8 list \<Rightarrow> nat \<Rightarrow> ('e filest_scheme, nat option) K" where
  "open_inode path omode =
     (if has_flag omode O_CREATE then create path T_FILE 0 0 0
      else if has_flag omode O_EXTENT then
        bindK (create path T_EXTENT 0 0 0) (\<lambda>r.
        case r of
          None \<Rightarrow> ret None
        | Some ip \<Rightarrow>
            thenK (setI ip (\<lambda>i. i\<lparr>i_numExtents := 0, i_sisterblocks := 0, i_eOffset := 0, i_lOffset := 0\<rparr>))
            (ret (Some ip)))
      else
        bindK (namei path) (\<lambda>r.
        case r of
          None \<Rightarrow> ret None
        | Some ip \<Rightarrow>
            thenK (ilock (Some ip))
            (bindK (getI ip i_type) (\<lambda>ty.
            if ty = T_DIR \<and> omode \<noteq> O_RDONLY then thenK (iunlockput (Some ip)) (ret None)
            else ret (Some ip)))))"

definition open_path :: "u8 list \<Rightarrow> nat \<Rightarrow> ('e filest_scheme, int) K" where
  "open_path path omode =
     thenK begin_op_spec
     (bindK (open_inode path omode) (\<lambda>r.
     case r of
       None \<Rightarrow> thenK end_op_spec (ret (-1))
     | Some ip \<Rightarrow>
         bindK (getI ip i_type) (\<lambda>ty.
         if ty = T_SYMLINK then openSymLink 10 omode ip
         else
           bindK (open_fd []) (\<lambda>r.
           case r of
             None \<Rightarrow> thenK (iunlockput (Some ip)) (thenK end_op_spec (ret (-1)))
           | Some (f, fd) \<Rightarrow>
               thenK (setI ip (\<lambda>i. i\<lparr>i_eOffset := 0, i_lOffset := 0\<rparr>))
               (thenK (iunlock (Some ip))
               (thenK end_op_spec
               (thenK (setF f (file_of FD_INODE ip omode))
               (ret (int fd)))))))))"

definition sys_open :: "('e filest_scheme, int) K" where
  "sys_open =
     bindK (argstr 0) (\<lambda>path.
     bindK (if path = None then ret None else argint 1) (\<lambda>omode.
     case (path, omode) of
       (Some (_, path), Some omode) \<Rightarrow> open_path path omode
     | _ \<Rightarrow> ret (-1)))"

section \<open>Directories, devices, pipes and symbolic links\<close>

definition finish_create :: "nat option \<Rightarrow> ('e filest_scheme, int) K" where
  "finish_create r =
     (case r of
        None \<Rightarrow> thenK end_op_spec (ret (-1))
      | Some ip \<Rightarrow> thenK (iunlockput (Some ip)) (thenK end_op_spec (ret 0)))"

definition sys_mkdir :: "('e filest_scheme, int) K" where
  "sys_mkdir =
     thenK begin_op_spec
     (bindK (argstr 0) (\<lambda>a.
     bindK (case a of None \<Rightarrow> ret None | Some (_, path) \<Rightarrow> create path T_DIR 0 0 0) finish_create))"

definition sys_mknod :: "('e filest_scheme, int) K" where
  "sys_mknod =
     thenK begin_op_spec
     (bindK (argstr 0) (\<lambda>a.
     bindK (if a = None then ret None else argint 1) (\<lambda>major.
     bindK (if major = None then ret None else argint 2) (\<lambda>minor.
     bindK (case (a, major, minor) of
              (Some (_, path), Some major, Some minor) \<Rightarrow> create path T_DEV (s16 (int major)) (s16 (int minor)) 0
            | _ \<Rightarrow> ret None) finish_create))))"

definition sys_chdir :: "('e filest_scheme, int) K" where
  "sys_chdir =
     thenK begin_op_spec
     (bindK (argstr 0) (\<lambda>a.
     bindK (case a of None \<Rightarrow> ret None | Some (_, path) \<Rightarrow> namei path) (\<lambda>r.
     case r of
       None \<Rightarrow> thenK end_op_spec (ret (-1))
     | Some ip \<Rightarrow>
         thenK (ilock (Some ip))
         (bindK (getI ip i_type) (\<lambda>ty.
         if ty \<noteq> T_DIR then thenK (iunlockput (Some ip)) (thenK end_op_spec (ret (-1)))
         else
           thenK (iunlock (Some ip))
           (bindK (getK (\<lambda>s. p_cwd (myproc s))) (\<lambda>cwd.
           thenK (the_ip cwd iput)
           (thenK end_op_spec
           (thenK (set_proc (\<lambda>p. p\<lparr>p_cwd := Some ip\<rparr>))
           (ret 0))))))))))"

definition sys_pipe :: "('e filest_scheme, int) K" where
  "sys_pipe =
     bindK (argptr 0 8) (\<lambda>a.
     case a of
       None \<Rightarrow> ret (-1)
     | Some fd \<Rightarrow>
         bindK pipealloc (\<lambda>r.
         case r of
           None \<Rightarrow> ret (-1)
         | Some (rf, wr) \<Rightarrow>
             bindK (fdalloc rf) (\<lambda>fd0.
             bindK (if fd0 = None then ret None else fdalloc wr) (\<lambda>fd1.
             case (fd0, fd1) of
               (Some n0, Some n1) \<Rightarrow>
                 thenK (user_writes fd (le_bytes 4 n0 @ le_bytes 4 n1)) (ret 0)
             | _ \<Rightarrow>
                 thenK (case fd0 of None \<Rightarrow> ret () | Some n0 \<Rightarrow> set_ofile n0 None)
                 (thenK (fileclose rf)
                 (thenK (fileclose wr)
                 (ret (-1))))))))"

definition sys_symlink :: "('e filest_scheme, int) K" where
  "sys_symlink =
     bindK (argstr 0) (\<lambda>target.
     bindK (if target = None then ret None else argstr 1) (\<lambda>path.
     case (target, path) of
       (Some (taddr, target), Some (_, path)) \<Rightarrow>
         if length target > DIRSIZ \<or> length path > DIRSIZ then
           thenK (cprintf ([newline] @ text_of ''Symlink Error: Please make your path and/or target less than 14 characters.'' @ [newline]) [])
           (ret (-1))
         else
           thenK begin_op_spec
           (bindK (create path T_SYMLINK 0 0 taddr) (\<lambda>_.
           thenK end_op_spec
           (ret 0)))
     | _ \<Rightarrow>
         thenK (cprintf ([newline] @ text_of ''Symlink Error: Something went wrong with the symlink() arguments.'' @ [newline]) [])
         (ret (-1))))"

end
