(* ===== verification/Proc.thy ===== *)
theory Proc
  imports Sysfile
begin

text \<open>
  Processes (\<^verbatim>\<open>proc.c\<close>). The operations run on behalf of the process \<open>curproc\<close>, with the critical
  sections of \<^verbatim>\<open>ptable.lock\<close> atomic; waiting is the outcome \<open>Sleeps\<close> and \<^verbatim>\<open>exit\<close> the outcome
  \<open>Exits\<close>. What \<^verbatim>\<open>exit\<close> has done by the time it calls \<^verbatim>\<open>sched\<close> is \<open>exit_work\<close>. The compile-time choice of
  the scheduler is the argument \<open>kind\<close>; what a process does between two calls of \<^verbatim>\<open>swtch\<close> in a
  scheduler loop is the argument \<open>run\<close>.
\<close>

section \<open>State\<close>

datatype sched_kind = DEFAULT | FIFO | PRIORITY

record procst = filest +
  initproc :: "nat option"
  nextpid :: int
  currentHighestPriority :: int
  forkret_first :: bool

abbreviation NUM_PRIORITY_LEVELS :: int where "NUM_PRIORITY_LEVELS \<equiv> 10"
abbreviation DEFAULT_PRIORITY :: int where "DEFAULT_PRIORITY \<equiv> 5"

definition upd_proc :: "nat \<Rightarrow> (proc \<Rightarrow> proc) \<Rightarrow> ('e icst_scheme, unit) K" where
  "upd_proc i f = modK (\<lambda>s. s\<lparr>ptable := (ptable s)[i := f (ptable s ! i)]\<rparr>)"

definition getP :: "nat \<Rightarrow> (proc \<Rightarrow> 'a) \<Rightarrow> ('e icst_scheme, 'a) K" where
  "getP i g = getK (\<lambda>s. g (ptable s ! i))"

section \<open>Creating processes\<close>

definition new_proc :: "sched_kind \<Rightarrow> int \<Rightarrow> proc \<Rightarrow> proc" where
  "new_proc kind pid p =
     (let p = p\<lparr>p_state := EMBRYO, p_pid := pid, p_pStartTime := 0, p_pEndTime := 0, p_pUptime := 0\<rparr>
      in if kind = PRIORITY then p\<lparr>p_priority := DEFAULT_PRIORITY\<rparr> else p)"

definition allocproc :: "sched_kind \<Rightarrow> ('e procst_scheme, nat option) K" where
  "allocproc kind =
     bindK (getK (\<lambda>s. find (\<lambda>i. p_state (ptable s ! i) = UNUSED) [0..<NPROC])) (\<lambda>r.
     case r of
       None \<Rightarrow> ret None
     | Some i \<Rightarrow>
         bindK (getK nextpid) (\<lambda>pid.
         thenK (upd_proc i (new_proc kind pid))
         (thenK (modK (\<lambda>s. s\<lparr>nextpid := pid + 1\<rparr>))
         (bindK kalloc (\<lambda>k.
         thenK (upd_proc i (\<lambda>p. p\<lparr>p_kstack := k\<rparr>))
         (if k = 0 then thenK (upd_proc i (\<lambda>p. p\<lparr>p_state := UNUSED\<rparr>)) (ret None)
          else thenK (upd_proc i (\<lambda>p. p\<lparr>p_context := Ctx_forkret, p_ebp := 0\<rparr>)) (ret (Some i))))))))"

definition name_copy :: "u8 list \<Rightarrow> u8 list \<Rightarrow> u8 list" where
  "name_copy old new = map (safestrcpy (cstr old) (cstr new) 16) [0..<16]"

definition first_tf :: trapframe where
  "first_tf = zero_tf\<lparr>tf_cs := 27, tf_ds := 35, tf_es := 35, tf_ss := 35, tf_eflags := 512, tf_esp := PGSIZE, tf_eip := 0\<rparr>"

definition userinit :: "sched_kind \<Rightarrow> u8 list \<Rightarrow> ('e procst_scheme, unit) K" where
  "userinit kind initcode =
     bindK (allocproc kind) (\<lambda>r.
     thenK (modK (\<lambda>s. s\<lparr>initproc := r\<rparr>))
     (case r of
        None \<Rightarrow> stopK (Fault ''null process'')
      | Some p \<Rightarrow>
          bindK setupkvm (\<lambda>d.
          thenK (upd_proc p (\<lambda>q. q\<lparr>p_pgdir := d\<rparr>))
          (if d = 0 then panic ''userinit: out of memory?''
           else
             thenK (inituvm d initcode)
             (thenK (upd_proc p (\<lambda>q. q\<lparr>p_sz := PGSIZE, p_tf := first_tf,
                p_name := name_copy (p_name q) (map of_nat (text_of ''initcode''))\<rparr>))
             (bindK (namei [slash]) (\<lambda>cwd.
             thenK (upd_proc p (\<lambda>q. q\<lparr>p_cwd := cwd\<rparr>))
             (upd_proc p (\<lambda>q. q\<lparr>p_state := RUNNABLE, p_priority := DEFAULT_PRIORITY\<rparr>)))))))))"

definition growproc :: "int \<Rightarrow> ('e procst_scheme, int) K" where
  "growproc n =
     bindK (getK (\<lambda>s. (curproc s, p_sz (myproc s), p_pgdir (myproc s)))) (\<lambda>(i, sz, d).
     let new = nat ((int sz + n) mod 4294967296) in
     bindK (if n > 0 then allocuvm d sz new else if n < 0 then deallocuvm d sz new else ret sz) (\<lambda>sz'.
     if n \<noteq> 0 \<and> sz' = 0 then ret (-1)
     else
       thenK (set_proc (\<lambda>p. p\<lparr>p_sz := sz'\<rparr>))
       (thenK (switchuvm (Some i))
       (ret 0))))"

definition dup_fd :: "nat \<Rightarrow> nat \<Rightarrow> ('e procst_scheme, unit option) K" where
  "dup_fd np i =
     bindK (getK (\<lambda>s. p_ofile (myproc s) ! i)) (\<lambda>r.
     thenK (case r of
              None \<Rightarrow> ret ()
            | Some f \<Rightarrow>
                bindK (filedup f) (\<lambda>f. upd_proc np (\<lambda>p. p\<lparr>p_ofile := (p_ofile p)[i := Some f]\<rparr>)))
     (ret None))"

definition fork :: "sched_kind \<Rightarrow> ('e procst_scheme, int) K" where
  "fork kind =
     bindK (getK curproc) (\<lambda>cur.
     bindK (allocproc kind) (\<lambda>r.
     case r of
       None \<Rightarrow> ret (-1)
     | Some np \<Rightarrow>
         bindK (getK (\<lambda>s. (p_pgdir (myproc s), p_sz (myproc s)))) (\<lambda>(d, sz).
         bindK (copyuvm d sz) (\<lambda>nd.
         thenK (upd_proc np (\<lambda>p. p\<lparr>p_pgdir := nd\<rparr>))
         (if nd = 0 then
            bindK (getP np p_kstack) (\<lambda>k.
            thenK (kfree k)
            (thenK (upd_proc np (\<lambda>p. p\<lparr>p_kstack := 0, p_state := UNUSED\<rparr>))
            (ret (-1))))
          else
            bindK (getK myproc) (\<lambda>c.
            thenK (upd_proc np (\<lambda>p. p\<lparr>p_sz := p_sz c, p_parent := Some cur, p_tf := (p_tf c)\<lparr>tf_eax := 0\<rparr>\<rparr>))
            (bindK (forK [0..<NOFILE] (dup_fd np)) (\<lambda>_.
            bindK (case p_cwd c of None \<Rightarrow> stopK (Fault ''cwd'') | Some cwd \<Rightarrow> idup cwd) (\<lambda>cwd.
            thenK (upd_proc np (\<lambda>p. p\<lparr>p_cwd := Some cwd, p_name := name_copy (p_name p) (p_name c)\<rparr>))
            (bindK (getP np p_pid) (\<lambda>pid.
            thenK (upd_proc np (\<lambda>p. p\<lparr>p_state := RUNNABLE, p_priority := DEFAULT_PRIORITY\<rparr>))
            (ret pid))))))))))))"

section \<open>Ending processes\<close>

text \<open>Up to the switch to the scheduler: the checks on locks and interrupts of \<^verbatim>\<open>sched\<close> are \<open>sched_checks\<close> of theory
  \<open>Spin\<close>, whose state has the processors.\<close>

definition sched :: "('e procst_scheme, unit) K" where
  "sched =
     bindK (getK (\<lambda>s. p_state (myproc s))) (\<lambda>st.
     if st = RUNNING then panic ''sched running''
     else bindK (getK ticks) (\<lambda>t. set_proc (\<lambda>p. p\<lparr>p_pEndTime := t, p_context := Ctx_sched\<rparr>)))"

definition close_fd :: "nat \<Rightarrow> ('e procst_scheme, unit option) K" where
  "close_fd fd =
     bindK (getK (\<lambda>s. p_ofile (myproc s) ! fd)) (\<lambda>r.
     thenK (case r of
              None \<Rightarrow> ret ()
            | Some f \<Rightarrow> thenK (fileclose f) (set_ofile fd None))
     (ret None))"

definition reparent :: "nat \<Rightarrow> nat option \<Rightarrow> nat \<Rightarrow> ('e procst_scheme, unit option) K" where
  "reparent cur init i =
     bindK (getP i p_parent) (\<lambda>par.
     thenK (whenK (par = Some cur)
       (thenK (upd_proc i (\<lambda>p. p\<lparr>p_parent := init\<rparr>))
       (bindK (getP i p_state) (\<lambda>st.
        whenK (st = ZOMBIE) (modK (\<lambda>s. s\<lparr>ptable := wakeup1 (map_option Chan_proc init) (ptable s)\<rparr>))))))
     (ret None))"

definition exit_work :: "('e procst_scheme, unit) K" where
  "exit_work =
     bindK (getK (\<lambda>s. (curproc s, initproc s))) (\<lambda>(cur, init).
     if Some cur = init then panic ''init exiting''
     else
       bindK (forK [0..<NOFILE] close_fd) (\<lambda>_.
       thenK begin_op_spec
       (bindK (getK (\<lambda>s. p_cwd (myproc s))) (\<lambda>cwd.
       thenK (the_ip cwd iput)
       (thenK end_op_spec
       (thenK (set_proc (\<lambda>p. p\<lparr>p_cwd := None\<rparr>))
       (bindK (getK (\<lambda>s. p_parent (myproc s))) (\<lambda>par.
       thenK (modK (\<lambda>s. s\<lparr>ptable := wakeup1 (map_option Chan_proc par) (ptable s)\<rparr>))
       (bindK (forK [0..<NPROC] (reparent cur init)) (\<lambda>_.
       thenK (set_proc (\<lambda>p. p\<lparr>p_state := ZOMBIE\<rparr>))
       sched))))))))))"

definition exit :: "('e procst_scheme, 'a) K" where
  "exit = thenK exit_work (stopK (Exits ''exit''))"

definition reap :: "nat \<Rightarrow> ('e procst_scheme, int) K" where
  "reap i =
     bindK (getP i (\<lambda>p. (p_pid p, p_kstack p, p_pgdir p))) (\<lambda>(pid, k, d).
     thenK (kfree k)
     (thenK (upd_proc i (\<lambda>p. p\<lparr>p_kstack := 0\<rparr>))
     (thenK (freevm d)
     (thenK (upd_proc i (\<lambda>p. p\<lparr>p_pid := 0, p_parent := None, p_name := (p_name p)[0 := 0], p_killed := False,
        p_priority := 0, p_state := UNUSED\<rparr>))
     (ret pid)))))"

text \<open>One scan of the table: the process identifier of a dead child that was found.\<close>

definition wait_scan :: "nat \<Rightarrow> ('e procst_scheme, int option) K" where
  "wait_scan cur =
     forK [0..<NPROC] (\<lambda>i.
       bindK (getP i (\<lambda>p. (p_parent p, p_state p))) (\<lambda>(par, st).
       if par = Some cur \<and> st = ZOMBIE then bindK (reap i) (\<lambda>pid. ret (Some pid))
       else ret None))"

definition wait :: "('e procst_scheme, int) K" where
  "wait =
     bindK (getK curproc) (\<lambda>cur.
     bindK (getK (\<lambda>s. list_ex (\<lambda>i. p_parent (ptable s ! i) = Some cur) [0..<NPROC])) (\<lambda>havekids.
     bindK (wait_scan cur) (\<lambda>r.
     case r of
       Some pid \<Rightarrow> ret pid
     | None \<Rightarrow>
         bindK (getK (\<lambda>s. p_killed (myproc s))) (\<lambda>killed.
         if \<not> havekids \<or> killed then ret (-1) else stopK (Sleeps ''wait'')))))"

section \<open>Sleeping, waking, killing\<close>

definition sleep_enter :: "channel \<Rightarrow> ('e procst_scheme, unit) K" where
  "sleep_enter chan =
     thenK (set_proc (\<lambda>p. p\<lparr>p_chan := Some chan, p_state := SLEEPING\<rparr>)) sched"

definition sleep_leave :: "('e procst_scheme, unit) K" where
  "sleep_leave = set_proc (\<lambda>p. p\<lparr>p_chan := None\<rparr>)"

definition kill :: "int \<Rightarrow> ('e procst_scheme, int) K" where
  "kill pid =
     bindK (getK (\<lambda>s. find (\<lambda>i. p_pid (ptable s ! i) = pid) [0..<NPROC])) (\<lambda>r.
     case r of
       None \<Rightarrow> ret (-1)
     | Some i \<Rightarrow>
         thenK (upd_proc i (\<lambda>p. p\<lparr>p_killed := True, p_state := if p_state p = SLEEPING then RUNNABLE else p_state p\<rparr>))
         (ret 0))"

section \<open>Schedulers\<close>

definition account :: "nat \<Rightarrow> proc \<Rightarrow> proc" where
  "account t p =
     (let p = (if p_pEndTime p \<noteq> 0
               then p\<lparr>p_pUptime := u32 (p_pUptime p + (p_pEndTime p + 4294967296 - p_pStartTime p))\<rparr> else p)
      in p\<lparr>p_pStartTime := t, p_pEndTime := 0\<rparr>)"

definition dispatch :: "('e procst_scheme, unit) K \<Rightarrow> nat \<Rightarrow> ('e procst_scheme, unit) K" where
  "dispatch run i =
     thenK (modK (\<lambda>s. s\<lparr>curproc := i\<rparr>))
     (thenK (switchuvm (Some i))
     (thenK (upd_proc i (\<lambda>p. p\<lparr>p_state := RUNNING\<rparr>))
     (bindK (getK ticks) (\<lambda>t.
     thenK (upd_proc i (account t))
     (thenK run
     switchkvm)))))"

definition defaultScheduler :: "('e procst_scheme, unit) K \<Rightarrow> ('e procst_scheme, unit) K" where
  "defaultScheduler run =
     bindK (forK [0..<NPROC] (\<lambda>i.
       bindK (getP i p_state) (\<lambda>st.
       thenK (whenK (st = RUNNABLE) (dispatch run i))
       (ret (None :: unit option))))) (\<lambda>_. ret ())"

text \<open>The choice of \<^verbatim>\<open>priorityScheduler\<close>: the process and its priority.\<close>

fun priority_scan :: "proc list \<Rightarrow> nat \<Rightarrow> nat \<Rightarrow> int \<Rightarrow> nat \<times> int" where
  "priority_scan [] i best prio = (best, prio)"
| "priority_scan (p # ps) i best prio =
     (if p_state p = RUNNABLE \<and> p_priority p < prio \<and> p_priority p > 0
      then priority_scan ps (i + 1) i (p_priority p)
      else priority_scan ps (i + 1) best prio)"

definition priorityScheduler :: "('e procst_scheme, unit) K \<Rightarrow> ('e procst_scheme, unit) K" where
  "priorityScheduler run =
     bindK (getK ptable) (\<lambda>ps.
     let (best, prio) = priority_scan ps 0 0 NUM_PRIORITY_LEVELS in
     whenK (p_state (ps ! best) = RUNNABLE)
       (thenK (modK (\<lambda>s. s\<lparr>currentHighestPriority := prio\<rparr>))
       (dispatch run best)))"

text \<open>One round of the loop of \<^verbatim>\<open>fifoScheduler\<close> at process \<open>i\<close>, with \<^verbatim>\<open>firstProcess\<close>: the next \<open>i\<close> and
  the new \<^verbatim>\<open>firstProcess\<close>. The loop variable is set back to \<^verbatim>\<open>firstProcess\<close>.\<close>

definition fifo_round :: "('e procst_scheme, unit) K \<Rightarrow> nat \<Rightarrow> nat option \<Rightarrow> ('e procst_scheme, nat \<times> nat option) K" where
  "fifo_round run i first =
     bindK (getK ptable) (\<lambda>ps.
     if p_state (ps ! i) \<noteq> RUNNABLE then ret (i + 1, first)
     else
       let first = (if p_pid (ps ! i) > 1 then Some i else first);
           p = (case first of Some f \<Rightarrow> if p_state (ps ! f) = RUNNABLE then f else i | None \<Rightarrow> i)
       in thenK (dispatch run p) (ret (p + 1, first)))"

primrec fifo_rounds :: "nat \<Rightarrow> ('e procst_scheme, unit) K \<Rightarrow> nat \<Rightarrow> nat option \<Rightarrow> ('e procst_scheme, bool) K" where
  "fifo_rounds 0 run i first = ret (i \<ge> NPROC)"
| "fifo_rounds (Suc n) run i first =
     (if i \<ge> NPROC then ret True
      else bindK (fifo_round run i first) (\<lambda>(i, first). fifo_rounds n run i first))"

definition fifoScheduler :: "nat \<Rightarrow> ('e procst_scheme, unit) K \<Rightarrow> ('e procst_scheme, bool) K" where
  "fifoScheduler fuel run = fifo_rounds fuel run 0 None"

section \<open>Reports\<close>

primrec walk_frames :: "nat \<Rightarrow> mem \<Rightarrow> nat \<Rightarrow> nat list" where
  "walk_frames 0 m ebp = []"
| "walk_frames (Suc n) m ebp =
     (if ebp = 0 \<or> ebp < KERNBASE \<or> ebp = 4294967295 then replicate (Suc n) 0
      else ld32 m (ebp + 4) # walk_frames n m (ld32 m ebp))"

definition getcallerpcs :: "mem \<Rightarrow> nat \<Rightarrow> nat list" where
  "getcallerpcs m v = walk_frames 10 m (u32 (v + 4294967296 - 8))"

definition state_name :: "procstate \<Rightarrow> nat list" where
  "state_name st = text_of (case st of UNUSED \<Rightarrow> ''unused'' | EMBRYO \<Rightarrow> ''embryo'' | SLEEPING \<Rightarrow> ''sleep ''
     | RUNNABLE \<Rightarrow> ''runble'' | RUNNING \<Rightarrow> ''run   '' | ZOMBIE \<Rightarrow> ''zombie'')"

fun print_pcs :: "nat list \<Rightarrow> ('e conss_scheme, unit) K" where
  "print_pcs [] = ret ()"
| "print_pcs (pc # pcs) =
     (if pc = 0 then ret () else thenK (cprintf (text_of '' %p'') [Num (int pc)]) (print_pcs pcs))"

definition dump_one :: "nat \<Rightarrow> ('e memst_scheme, unit option) K" where
  "dump_one i =
     bindK (getK (\<lambda>s. (ptable s ! i, kmem s))) (\<lambda>(p, m).
     if p_state p = UNUSED then ret None
     else
       thenK (cprintf (text_of ''%d %s %s %d'')
         [Num (p_pid p), Str (Some (state_name (p_state p))), Str (Some (map unat (p_name p))), Num (p_priority p)])
       (thenK (whenK (p_state p = SLEEPING) (print_pcs (getcallerpcs m (u32 (p_ebp p + 8)))))
       (thenK (cprintf [newline] [])
       (ret None))))"

definition procdump :: "('e memst_scheme, unit) K" where
  "procdump = bindK (forK [0..<NPROC] dump_one) (\<lambda>_. ret ())"

definition yield :: "sched_kind \<Rightarrow> ('e procst_scheme, unit) K" where
  "yield kind =
     (case kind of
        DEFAULT \<Rightarrow> thenK (set_proc (\<lambda>p. p\<lparr>p_state := RUNNABLE\<rparr>)) sched
      | PRIORITY \<Rightarrow>
          bindK (getK (\<lambda>s. list_ex (\<lambda>i. p_priority (ptable s ! i) < currentHighestPriority s \<and> p_priority (ptable s ! i) > 0) [0..<NPROC])) (\<lambda>higher.
          whenK higher
            (thenK procdump
            (thenK (set_proc (\<lambda>p. p\<lparr>p_state := RUNNABLE\<rparr>))
            sched)))
      | FIFO \<Rightarrow> ret ())"

definition forkret :: "(nat \<Rightarrow> ('e procst_scheme, unit) K) \<Rightarrow> ('e procst_scheme, unit) K" where
  "forkret init_log =
     bindK (getK forkret_first) (\<lambda>first.
     whenK first
       (thenK (modK (\<lambda>s. s\<lparr>forkret_first := False\<rparr>))
       (thenK (iinit ROOTDEV)
       (init_log ROOTDEV))))"

definition set_sched_priority :: "int \<Rightarrow> ('e procst_scheme, unit) K" where
  "set_sched_priority priority =
     (if priority < 1 \<or> priority > NUM_PRIORITY_LEVELS
      then panic (CHR 0x0A # ''set_sched_priority: given priority level exceeds the bounds'')
      else set_proc (\<lambda>p. p\<lparr>p_priority := priority\<rparr>))"

definition get_sched_priority :: "int \<Rightarrow> ('e procst_scheme, int) K" where
  "get_sched_priority pid =
     getK (\<lambda>s. case find (\<lambda>i. p_pid (ptable s ! i) = pid) [0..<NPROC] of
       Some i \<Rightarrow> p_priority (ptable s ! i) | None \<Rightarrow> -1)"

fun fifo_count :: "proc list \<Rightarrow> int \<Rightarrow> int \<Rightarrow> int" where
  "fifo_count [] pid counter = -1"
| "fifo_count (p # ps) pid counter =
     (if p_pid p = pid \<and> (p_state p = RUNNABLE \<or> p_state p = RUNNING) then counter
      else fifo_count ps pid (if p_state p = RUNNABLE \<or> p_state p = RUNNING then counter + 1 else counter))"

definition fifo_position :: "int \<Rightarrow> ('e procst_scheme, int) K" where
  "fifo_position pid = getK (\<lambda>s. fifo_count (take NPROC (ptable s)) pid 0)"

text \<open>The loop of \<^verbatim>\<open>printProcessTime\<close>, with \<^verbatim>\<open>foundProcessFlag\<close> and \<^verbatim>\<open>ptime\<close>.\<close>

fun process_time :: "proc list \<Rightarrow> int \<Rightarrow> bool \<Rightarrow> int \<Rightarrow> int" where
  "process_time [] pid found ptime = ptime"
| "process_time (p # ps) pid found ptime =
     (if p_pid p = pid
      then process_time ps pid True (if p_state p = RUNNING then s32 (p_pUptime p) else 0)
      else process_time ps pid found (if found then ptime else -1))"

definition printProcessTime :: "int \<Rightarrow> ('e procst_scheme, int) K" where
  "printProcessTime pid = getK (\<lambda>s. process_time (take NPROC (ptable s)) pid False (-1))"

definition state_line :: "procstate \<Rightarrow> nat list" where
  "state_line st = text_of ''%d'' @ [9] @ text_of (case st of UNUSED \<Rightarrow> ''UNUSED'' | EMBRYO \<Rightarrow> ''EMBRYO''
     | SLEEPING \<Rightarrow> ''SLEEPING'' | RUNNABLE \<Rightarrow> ''RUNNABLE'' | RUNNING \<Rightarrow> ''RUNNING'' | ZOMBIE \<Rightarrow> ''ZOMBIE'') @ [newline]"

definition show_state :: "int \<Rightarrow> nat \<Rightarrow> ('e procst_scheme, unit option) K" where
  "show_state pid i =
     bindK (getP i (\<lambda>p. (p_pid p, p_state p))) (\<lambda>(q, st).
     thenK (whenK (q = pid) (cprintf (state_line st) [Num q])) (ret None))"

definition printProcessTable :: "int \<Rightarrow> ('e procst_scheme, unit) K" where
  "printProcessTable pid =
     thenK (cprintf ([newline] @ text_of ''PID'' @ [9] @ text_of ''STATE'' @ [newline]) [])
     (thenK (cprintf (replicate 38 45 @ [newline]) [])
     (bindK (forK [0..<NPROC] (show_state pid)) (\<lambda>_.
     bindK (getK (\<lambda>s. list_ex (\<lambda>i. p_pid (ptable s ! i) = pid) [0..<NPROC])) (\<lambda>found.
     whenK (\<not> found)
       (cprintf ([newline] @ text_of ''Process id, %d, does not exist or no longer exists.'' @ [newline]) [Num pid])))))"

end
