(* ===== verification/Exec.thy ===== *)
theory Exec
  imports Proc
begin

text \<open>
  Running a program (\<^verbatim>\<open>exec.c\<close>, \<^verbatim>\<open>sys_exec\<close> of \<^verbatim>\<open>sysfile.c\<close>, the file format of \<^verbatim>\<open>elf.h\<close>). The two structures
  read from the file are decoded from their bytes; the argument vector is the list of the
  argument strings.
\<close>

section \<open>File format\<close>

record elfhdr =
  elf_magic :: nat
  elf_entry :: nat
  elf_phoff :: nat
  elf_phnum :: nat

record proghdr =
  ph_type :: nat
  ph_off :: nat
  ph_vaddr :: nat
  ph_filesz :: nat
  ph_memsz :: nat

abbreviation ELF_MAGIC :: nat where "ELF_MAGIC \<equiv> 1179403647"
abbreviation ELF_PROG_LOAD :: nat where "ELF_PROG_LOAD \<equiv> 1"
abbreviation MAXARG :: nat where "MAXARG \<equiv> 32"

definition dec_elfhdr :: "u8 list \<Rightarrow> elfhdr" where
  "dec_elfhdr bs = \<lparr>elf_magic = le_nat (slice 0 4 bs), elf_entry = le_nat (slice 24 4 bs),
     elf_phoff = le_nat (slice 28 4 bs), elf_phnum = le_nat (slice 44 2 bs)\<rparr>"

definition dec_proghdr :: "u8 list \<Rightarrow> proghdr" where
  "dec_proghdr bs = \<lparr>ph_type = le_nat (slice 0 4 bs), ph_off = le_nat (slice 4 4 bs), ph_vaddr = le_nat (slice 8 4 bs),
     ph_filesz = le_nat (slice 16 4 bs), ph_memsz = le_nat (slice 20 4 bs)\<rparr>"

section \<open>Code\<close>

definition exec_bad :: "nat \<Rightarrow> nat option \<Rightarrow> ('e procst_scheme, int) K" where
  "exec_bad pgdir ip =
     thenK (whenK (pgdir \<noteq> 0) (freevm pgdir))
     (thenK (case ip of None \<Rightarrow> ret () | Some i \<Rightarrow> thenK (iunlockput (Some i)) end_op_spec)
     (ret (-1)))"

text \<open>One program header: the new size of the process, \<open>None\<close> for the jump to \<^verbatim>\<open>bad\<close>.\<close>

definition load_segment :: "nat \<Rightarrow> nat \<Rightarrow> nat \<Rightarrow> nat \<Rightarrow> ('e procst_scheme, nat option) K" where
  "load_segment pgdir ip off sz =
     bindK (readi ip off 32) (\<lambda>(r, bs).
     if r \<noteq> 32 then ret None
     else
       let ph = dec_proghdr bs in
       if ph_type ph \<noteq> ELF_PROG_LOAD then ret (Some sz)
       else if ph_memsz ph < ph_filesz ph then ret None
       else if u32 (ph_vaddr ph + ph_memsz ph) < ph_vaddr ph then ret None
       else
         bindK (allocuvm pgdir sz (u32 (ph_vaddr ph + ph_memsz ph))) (\<lambda>sz'.
         if sz' = 0 then ret None
         else if ph_vaddr ph mod PGSIZE \<noteq> 0 then ret None
         else
           bindK (loaduvm pgdir (ph_vaddr ph) ip (ph_off ph) (ph_filesz ph)) (\<lambda>r.
           ret (if r < 0 then None else Some sz'))))"

primrec load_segments :: "nat \<Rightarrow> nat \<Rightarrow> nat \<Rightarrow> nat \<Rightarrow> nat \<Rightarrow> ('e procst_scheme, nat option) K" where
  "load_segments 0 pgdir ip off sz = ret (Some sz)"
| "load_segments (Suc n) pgdir ip off sz =
     bindK (load_segment pgdir ip off sz) (\<lambda>r.
     case r of
       None \<Rightarrow> ret None
     | Some sz' \<Rightarrow> load_segments n pgdir ip (u32 (off + 32)) sz')"

definition and_not3 :: "nat \<Rightarrow> nat" where
  "and_not3 a = a div 4 * 4"

text \<open>The argument strings: the stack pointer and the addresses of the strings.\<close>

fun push_args :: "nat \<Rightarrow> nat \<Rightarrow> nat \<Rightarrow> u8 list list \<Rightarrow> ('e procst_scheme, (nat \<times> nat list) option) K" where
  "push_args pgdir sp argc [] = ret (Some (sp, []))"
| "push_args pgdir sp argc (arg # args) =
     (if argc \<ge> MAXARG then ret None
      else
        let sp = and_not3 (u32 (sp + 4294967296 - (length arg + 1))) in
        bindK (copyout pgdir sp (arg @ [0])) (\<lambda>r.
        if r < 0 then ret None
        else
          bindK (push_args pgdir sp (argc + 1) args) (\<lambda>r.
          ret (map_option (\<lambda>(sp', ptrs). (sp', sp # ptrs)) r))))"

definition ustack :: "nat \<Rightarrow> nat list \<Rightarrow> nat list" where
  "ustack sp ptrs = [4294967295, length ptrs, u32 (sp + 4294967296 - (length ptrs + 1) * 4)] @ ptrs @ [0]"

text \<open>The part of the path after its last slash.\<close>

fun last_part :: "u8 list \<Rightarrow> u8 list \<Rightarrow> u8 list" where
  "last_part part [] = part"
| "last_part part (c # cs) = (if c = slash then last_part cs cs else last_part part cs)"

definition exec_commit :: "u8 list \<Rightarrow> nat \<Rightarrow> nat \<Rightarrow> nat \<Rightarrow> nat \<Rightarrow> ('e procst_scheme, int) K" where
  "exec_commit path pgdir sz start sp =
     bindK (getK (\<lambda>s. (curproc s, p_pgdir (myproc s)))) (\<lambda>(i, oldpgdir).
     thenK (set_proc (\<lambda>p. p\<lparr>p_name := name_copy (p_name p) (last_part path path), p_pgdir := pgdir, p_sz := sz,
       p_tf := (p_tf p)\<lparr>tf_eip := start, tf_esp := sp\<rparr>\<rparr>))
     (thenK (switchuvm (Some i))
     (thenK (freevm oldpgdir)
     (ret 0))))"

definition exec_stack :: "u8 list \<Rightarrow> u8 list list \<Rightarrow> nat \<Rightarrow> nat \<Rightarrow> nat \<Rightarrow> ('e procst_scheme, int) K" where
  "exec_stack path argv pgdir sz0 start =
     (let sz1 = PGROUNDUP sz0 in
      bindK (allocuvm pgdir sz1 (u32 (sz1 + 2 * PGSIZE))) (\<lambda>sz.
      if sz = 0 then exec_bad pgdir None
      else
        thenK (clearpteu pgdir (u32 (sz + 4294967296 - 2 * PGSIZE)))
        (bindK (push_args pgdir sz 0 argv) (\<lambda>r.
        case r of
          None \<Rightarrow> exec_bad pgdir None
        | Some (sp, ptrs) \<Rightarrow>
            let sp' = u32 (sp + 4294967296 - (3 + length ptrs + 1) * 4) in
            bindK (copyout pgdir sp' (concat (map (le_bytes 4) (ustack sp ptrs)))) (\<lambda>r.
            if r < 0 then exec_bad pgdir None
            else exec_commit path pgdir sz start sp')))))"

definition exec :: "u8 list \<Rightarrow> u8 list list \<Rightarrow> ('e procst_scheme, int) K" where
  "exec path argv =
     thenK begin_op_spec
     (bindK (namei path) (\<lambda>r.
     case r of
       None \<Rightarrow>
         thenK end_op_spec
         (thenK (cprintf (text_of ''exec: fail'' @ [newline]) [])
         (ret (-1)))
     | Some ip \<Rightarrow>
         thenK (ilock (Some ip))
         (bindK (readi ip 0 52) (\<lambda>(r, bs).
         let elf = dec_elfhdr bs in
         if r \<noteq> 52 then exec_bad 0 (Some ip)
         else if elf_magic elf \<noteq> ELF_MAGIC then exec_bad 0 (Some ip)
         else
           bindK setupkvm (\<lambda>pgdir.
           if pgdir = 0 then exec_bad 0 (Some ip)
           else
             bindK (load_segments (elf_phnum elf) pgdir ip (elf_phoff elf) 0) (\<lambda>r.
             case r of
               None \<Rightarrow> exec_bad pgdir (Some ip)
             | Some sz \<Rightarrow>
                 thenK (iunlockput (Some ip))
                 (thenK end_op_spec
                 (exec_stack path argv pgdir sz (elf_entry elf)))))))))"

section \<open>System call\<close>

text \<open>The loop over the argument vector at \<open>uargv\<close>, from index \<open>i\<close>; \<open>n\<close> is \<open>MAXARG - i\<close>.\<close>

primrec fetch_argv :: "nat \<Rightarrow> nat \<Rightarrow> nat \<Rightarrow> ('e procst_scheme, u8 list list option) K" where
  "fetch_argv 0 uargv i = ret None"
| "fetch_argv (Suc n) uargv i =
     bindK (fetchint (u32 (uargv + 4 * i))) (\<lambda>r.
     case r of
       None \<Rightarrow> ret None
     | Some uarg \<Rightarrow>
         if uarg = 0 then ret (Some [])
         else
           bindK (fetchstr uarg) (\<lambda>r.
           case r of
             None \<Rightarrow> ret None
           | Some str \<Rightarrow>
               bindK (fetch_argv n uargv (i + 1)) (\<lambda>r. ret (map_option (Cons str) r))))"

definition sys_exec :: "('e procst_scheme, int) K" where
  "sys_exec =
     bindK (argstr 0) (\<lambda>path.
     bindK (if path = None then ret None else argint 1) (\<lambda>uargv.
     case (path, uargv) of
       (Some (_, path), Some uargv) \<Rightarrow>
         bindK (fetch_argv MAXARG uargv 0) (\<lambda>r.
         case r of None \<Rightarrow> ret (-1) | Some argv \<Rightarrow> exec path argv)
     | _ \<Rightarrow> ret (-1)))"

end
