(* ===== verification/Kbd.thy ===== *)
theory Kbd
  imports Xv6_Prelude
begin

text \<open>
  The keyboard (\<^verbatim>\<open>kbd.c\<close> with the tables of \<^verbatim>\<open>kbd.h\<close>): from scan codes to characters. The result of
  \<^verbatim>\<open>kbdgetc\<close> is the character, 0 for a key that gives none; the static variable \<^verbatim>\<open>shift\<close> is passed along.
\<close>

section \<open>Tables\<close>

abbreviation SHIFT :: nat where "SHIFT \<equiv> 1"
abbreviation CTL :: nat where "CTL \<equiv> 2"
abbreviation ALT :: nat where "ALT \<equiv> 4"
abbreviation CAPSLOCK :: nat where "CAPSLOCK \<equiv> 8"
abbreviation NUMLOCK :: nat where "NUMLOCK \<equiv> 16"
abbreviation SCROLLLOCK :: nat where "SCROLLLOCK \<equiv> 32"
abbreviation E0ESC :: nat where "E0ESC \<equiv> 64"

definition shiftcode :: "nat \<Rightarrow> nat" where
  "shiftcode d = (if d = 29 \<or> d = 157 then CTL else if d = 42 \<or> d = 54 then SHIFT
     else if d = 56 \<or> d = 184 then ALT else 0)"

definition togglecode :: "nat \<Rightarrow> nat" where
  "togglecode d = (if d = 58 then CAPSLOCK else if d = 69 then NUMLOCK else if d = 70 then SCROLLLOCK else 0)"

text \<open>The codes above 0x80, which follow an escape: enter and divide of the key pad, then the cursor keys.\<close>

definition escaped :: "nat \<Rightarrow> nat \<Rightarrow> nat \<Rightarrow> nat" where
  "escaped ent slash d =
     (if d = 156 then ent else if d = 181 then slash else if d = 200 then 226 else if d = 208 then 227
      else if d = 201 then 230 else if d = 209 then 231 else if d = 203 then 228 else if d = 205 then 229
      else if d = 151 then 224 else if d = 207 then 225 else if d = 210 then 232 else if d = 211 then 233 else 0)"

definition normalmap :: "nat \<Rightarrow> nat" where
  "normalmap d = (let keys =
     [0, 27, 49, 50, 51, 52, 53, 54, 55, 56, 57, 48, 45, 61, 8, 9,
      113, 119, 101, 114, 116, 121, 117, 105, 111, 112, 91, 93, 10, 0, 97, 115,
      100, 102, 103, 104, 106, 107, 108, 59, 39, 96, 0, 92, 122, 120, 99, 118,
      98, 110, 109, 44, 46, 47, 0, 42, 0, 32, 0, 0, 0, 0, 0, 0,
      0, 0, 0, 0, 0, 0, 0, 55, 56, 57, 45, 52, 53, 54, 43, 49,
      50, 51, 48, 46, 0, 0, 0, 0]
     in if d < length keys then keys ! d else escaped 10 47 d)"

definition shiftmap :: "nat \<Rightarrow> nat" where
  "shiftmap d = (let keys =
     [0, 27, 33, 64, 35, 36, 37, 94, 38, 42, 40, 41, 95, 43, 8, 9,
      81, 87, 69, 82, 84, 89, 85, 73, 79, 80, 123, 125, 10, 0, 65, 83,
      68, 70, 71, 72, 74, 75, 76, 58, 34, 126, 0, 124, 90, 88, 67, 86,
      66, 78, 77, 60, 62, 63, 0, 42, 0, 32, 0, 0, 0, 0, 0, 0,
      0, 0, 0, 0, 0, 0, 0, 55, 56, 57, 45, 52, 53, 54, 43, 49,
      50, 51, 48, 46, 0, 0, 0, 0]
     in if d < length keys then keys ! d else escaped 10 47 d)"

definition ctlmap :: "nat \<Rightarrow> nat" where
  "ctlmap d = (let keys =
     [0, 0, 0, 0, 0, 0, 0, 0, 0, 0, 0, 0, 0, 0, 0, 0,
      17, 23, 5, 18, 20, 25, 21, 9, 15, 16, 0, 0, 13, 0, 1, 19,
      4, 6, 7, 8, 10, 11, 12, 0, 0, 0, 0, 28, 26, 24, 3, 22,
      2, 14, 13, 0, 0, 239, 0, 0]
     in if d < length keys then keys ! d else escaped 13 239 d)"

section \<open>Code\<close>

definition charcode :: "nat \<Rightarrow> nat \<Rightarrow> nat" where
  "charcode mode d = (if mode = 0 then normalmap d else if mode = 1 then shiftmap d else ctlmap d)"

definition clear_bits :: "nat \<Rightarrow> nat \<Rightarrow> nat" where
  "clear_bits x y = x - (x AND y)"

definition swap_case :: "nat \<Rightarrow> nat" where
  "swap_case c = (if 97 \<le> c \<and> c \<le> 122 then c - 32 else if 65 \<le> c \<and> c \<le> 90 then c + 32 else c)"

text \<open>\<open>data\<close> is the byte in the keyboard's buffer.\<close>

definition kbdgetc :: "nat \<Rightarrow> nat \<Rightarrow> nat \<times> nat" where
  "kbdgetc data shift =
     (if data = 224 then (0, shift OR E0ESC)
      else if data AND 128 \<noteq> 0 then
        let data = (if shift AND E0ESC \<noteq> 0 then data else data AND 127)
        in (0, clear_bits shift (shiftcode data OR E0ESC))
      else
        let data' = (if shift AND E0ESC \<noteq> 0 then data OR 128 else data);
            shift' = (if shift AND E0ESC \<noteq> 0 then clear_bits shift E0ESC else shift);
            shift'' = (shift' OR shiftcode data') XOR togglecode data';
            c = charcode (shift'' AND (CTL OR SHIFT)) data'
        in (if shift'' AND CAPSLOCK \<noteq> 0 then swap_case c else c, shift''))"

fun kbd_chars :: "nat list \<Rightarrow> nat \<Rightarrow> nat list" where
  "kbd_chars [] shift = []"
| "kbd_chars (d # ds) shift = (case kbdgetc d shift of (c, shift') \<Rightarrow> c # kbd_chars ds shift')"

end
