(* ===== verification/Trap.thy ===== *)
theory Trap
  imports Exec Kbd
begin

text \<open>
  The process system calls (\<^verbatim>\<open>sysproc.c\<close>), the system call table (\<^verbatim>\<open>syscall.c\<close>) and the trap handler
  (\<^verbatim>\<open>trap.c\<close>). What surrounds a trap is the record \<open>trapenv\<close>: the processor, whether a process runs
  on it, the faulting address, what the keyboard and the serial port deliver, the effect of
  \<^verbatim>\<open>ideintr\<close> and what happens until \<^verbatim>\<open>yield\<close> returns.
\<close>

section \<open>Process system calls\<close>

definition sys_set_sched_priority :: "('e procst_scheme, int) K" where
  "sys_set_sched_priority =
     bindK (argint 0) (\<lambda>r.
     case r of
       None \<Rightarrow> ret (-1)
     | Some n \<Rightarrow> thenK (set_sched_priority (s32 n)) (ret 0))"

definition sys_get_sched_priority :: "('e procst_scheme, int) K" where
  "sys_get_sched_priority =
     bindK (argint 0) (\<lambda>r. case r of None \<Rightarrow> ret (-1) | Some n \<Rightarrow> get_sched_priority (s32 n))"

definition sys_fork :: "sched_kind \<Rightarrow> ('e procst_scheme, int) K" where
  "sys_fork kind = fork kind"

definition sys_fifo_position :: "('e procst_scheme, int) K" where
  "sys_fifo_position =
     bindK (argint 0) (\<lambda>r. case r of None \<Rightarrow> ret (-1) | Some n \<Rightarrow> fifo_position (s32 n))"

definition sys_exit :: "('e procst_scheme, int) K" where
  "sys_exit = thenK (exit :: ('e procst_scheme, unit) K) (ret 0)"

definition sys_wait :: "('e procst_scheme, int) K" where
  "sys_wait = wait"

definition sys_kill :: "('e procst_scheme, int) K" where
  "sys_kill = bindK (argint 0) (\<lambda>r. case r of None \<Rightarrow> ret (-1) | Some n \<Rightarrow> kill (s32 n))"

definition sys_getpid :: "('e procst_scheme, int) K" where
  "sys_getpid = getK (\<lambda>s. p_pid (myproc s))"

text \<open>The size grows or shrinks, but no page is allocated or freed.\<close>

definition sys_sbrk :: "('e procst_scheme, int) K" where
  "sys_sbrk =
     bindK (argint 0) (\<lambda>r.
     case r of
       None \<Rightarrow> ret (-1)
     | Some n \<Rightarrow>
         bindK (getK (\<lambda>s. p_sz (myproc s))) (\<lambda>addr.
         thenK (set_proc (\<lambda>p. p\<lparr>p_sz := u32 (p_sz p + n)\<rparr>))
         (ret (s32 addr))))"

text \<open>One evaluation of the loop of \<^verbatim>\<open>sys_sleep\<close>; it runs again each time the process is woken. The
  comparison with \<open>n\<close> is one of unsigned numbers.\<close>

definition sleep_round :: "nat \<Rightarrow> nat \<Rightarrow> ('e procst_scheme, int) K" where
  "sleep_round n ticks0 =
     bindK (getK (\<lambda>s. (ticks s, p_killed (myproc s)))) (\<lambda>(t, killed).
     if u32 (t + 4294967296 - ticks0) < n then
       if killed then ret (-1) else stopK (Sleeps ''ticks'')
     else ret 0)"

definition sys_sleep :: "('e procst_scheme, int) K" where
  "sys_sleep =
     bindK (argint 0) (\<lambda>r.
     case r of
       None \<Rightarrow> ret (-1)
     | Some n \<Rightarrow> bindK (getK ticks) (sleep_round n))"

definition sys_uptime :: "('e procst_scheme, int) K" where
  "sys_uptime = getK (\<lambda>s. s32 (ticks s))"

definition sys_time_scheduled :: "('e procst_scheme, int) K" where
  "sys_time_scheduled =
     bindK (argint 0) (\<lambda>r. case r of None \<Rightarrow> ret (-1) | Some n \<Rightarrow> printProcessTime (s32 n))"

definition sys_printProcessTable :: "('e procst_scheme, unit) K" where
  "sys_printProcessTable =
     bindK (argint 0) (\<lambda>r. case r of None \<Rightarrow> exit | Some n \<Rightarrow> printProcessTable (s32 n))"

section \<open>The system call table\<close>

text \<open>\<^verbatim>\<open>sys_printProcessTable\<close> is declared without a result but called through a pointer to a function
  that has one: \<open>left\<close> is what it leaves in the register \<^verbatim>\<open>eax\<close>.\<close>

definition syscalls :: "sched_kind \<Rightarrow> int \<Rightarrow> (('e procst_scheme, int) K) list" where
  "syscalls kind left =
     [sys_fork kind, sys_exit, sys_wait, sys_pipe, sys_read, sys_kill, sys_exec, sys_fstat, sys_chdir,
      sys_dup, sys_getpid, sys_sbrk, sys_sleep, sys_uptime, sys_open, sys_write, sys_mknod, sys_unlink,
      sys_link, sys_mkdir, sys_close, sys_time_scheduled, sys_set_sched_priority, sys_get_sched_priority,
      sys_fifo_position, thenK sys_printProcessTable (ret left), sys_symlink, sys_lseek]"

definition set_eax :: "int \<Rightarrow> ('e icst_scheme, unit) K" where
  "set_eax r = set_proc (\<lambda>p. p\<lparr>p_tf := (p_tf p)\<lparr>tf_eax := nat (r mod 4294967296)\<rparr>\<rparr>)"

definition syscall :: "sched_kind \<Rightarrow> int \<Rightarrow> ('e procst_scheme, unit) K" where
  "syscall kind left =
     bindK (getK myproc) (\<lambda>p.
     let num = s32 (tf_eax (p_tf p)) in
     if num > 0 \<and> num \<le> 28 then bindK (syscalls kind left ! nat (num - 1)) set_eax
     else
       thenK (cprintf (text_of ''%d %s: unknown sys call %d'' @ [newline])
         [Num (p_pid p), Str (Some (map unat (p_name p))), Num num])
       (set_eax (-1)))"

section \<open>Traps\<close>

record trapst = procst +
  kbd_shift :: nat

record 's trapenv =
  te_cpu :: nat
  te_proc :: bool
  te_cr2 :: nat
  te_scan :: "nat list"
  te_serial :: "nat list"
  te_ide :: "('s, unit) K"
  te_others :: "('s, unit) K"
  te_left :: int

abbreviation T_SYSCALL :: nat where "T_SYSCALL \<equiv> 64"
abbreviation T_PGFLT :: nat where "T_PGFLT \<equiv> 14"
abbreviation T_TIMER :: nat where "T_TIMER \<equiv> 32"
abbreviation T_KBD :: nat where "T_KBD \<equiv> 33"
abbreviation T_COM1 :: nat where "T_COM1 \<equiv> 36"
abbreviation T_IDE :: nat where "T_IDE \<equiv> 46"
abbreviation T_SPURIOUS :: nat where "T_SPURIOUS \<equiv> 63"

text \<open>\<^verbatim>\<open>consoleintr\<close> wakes the readers of the console where it moves the write index.\<close>

definition input_intr :: "nat list \<Rightarrow> ('e memst_scheme, unit) K" where
  "input_intr cs =
     bindK (getK in_w) (\<lambda>w.
     bindK (consoleintr cs) (\<lambda>dump.
     thenK (bindK (getK in_w) (\<lambda>w'. whenK (w' \<noteq> w) (wakeup Chan_input)))
     (whenK dump procdump)))"

text \<open>The characters and the state of the modifier keys after some scan codes.\<close>

definition kbdintr :: "nat list \<Rightarrow> ('e trapst_scheme, unit) K" where
  "kbdintr codes =
     bindK (getK kbd_shift) (\<lambda>shift.
     thenK (modK (\<lambda>s. s\<lparr>kbd_shift := foldl (\<lambda>sh d. snd (kbdgetc d sh)) shift codes\<rparr>))
     (input_intr (kbd_chars codes shift)))"

definition uartintr :: "nat list \<Rightarrow> ('e memst_scheme, unit) K" where
  "uartintr cs = input_intr cs"

definition timer_tick :: "nat \<Rightarrow> ('e procst_scheme, unit) K" where
  "timer_tick cpu =
     whenK (cpu = 0) (thenK (modK (\<lambda>s. s\<lparr>ticks := u32 (ticks s + 1)\<rparr>)) (wakeup Chan_ticks))"

definition page_fault :: "nat \<Rightarrow> ('e procst_scheme, unit) K" where
  "page_fault cr2 =
     bindK (getK (\<lambda>s. (curproc s, p_pgdir (myproc s), p_sz (myproc s)))) (\<lambda>(i, d, sz).
     bindK (allocPage d cr2 sz) (\<lambda>r.
     if r = 0 then panic ''allocPage: failed to allocate new page.''
     else switchuvm (Some i)))"

definition bad_trap :: "'s trapenv \<Rightarrow> trapframe \<Rightarrow> ('e procst_scheme, unit) K" where
  "bad_trap env tf =
     (if \<not> te_proc env \<or> tf_cs tf AND 3 = 0 then
        thenK (cprintf (text_of ''unexpected trap %d from cpu %d eip %x (cr2=0x%x)'' @ [newline])
          [Num (int (tf_trapno tf)), Num (int (te_cpu env)), Num (int (tf_eip tf)), Num (int (te_cr2 env))])
        (panic ''trap'')
      else if tf_trapno tf = T_PGFLT then page_fault (te_cr2 env)
      else
        bindK (getK myproc) (\<lambda>p.
        thenK (cprintf (text_of ''pid %d %s: trap %d err %d on cpu %d eip 0x%x addr 0x%x--kill proc'' @ [newline])
          [Num (p_pid p), Str (Some (map unat (p_name p))), Num (int (tf_trapno tf)), Num (int (tf_err tf)),
           Num (int (te_cpu env)), Num (int (tf_eip tf)), Num (int (te_cr2 env))])
        (set_proc (\<lambda>p. p\<lparr>p_killed := True\<rparr>))))"

definition trap_dispatch :: "'e trapst_scheme trapenv \<Rightarrow> trapframe \<Rightarrow> ('e trapst_scheme, unit) K" where
  "trap_dispatch env tf =
     (if tf_trapno tf = T_TIMER then timer_tick (te_cpu env)
      else if tf_trapno tf = T_IDE then te_ide env
      else if tf_trapno tf = T_IDE + 1 then ret ()
      else if tf_trapno tf = T_KBD then kbdintr (te_scan env)
      else if tf_trapno tf = T_COM1 then uartintr (te_serial env)
      else if tf_trapno tf = 39 \<or> tf_trapno tf = T_SPURIOUS then
        cprintf (text_of ''cpu%d: spurious interrupt at %x:%x'' @ [newline])
          [Num (int (te_cpu env)), Num (int (tf_cs tf)), Num (int (tf_eip tf))]
      else bad_trap env tf)"

definition exit_if_killed :: "bool \<Rightarrow> ('e procst_scheme, unit) K" where
  "exit_if_killed user = bindK (getK (\<lambda>s. p_killed (myproc s))) (\<lambda>killed. whenK (user \<and> killed) exit)"

definition trap :: "sched_kind \<Rightarrow> 'e trapst_scheme trapenv \<Rightarrow> trapframe \<Rightarrow> ('e trapst_scheme, unit) K" where
  "trap kind env tf =
     (let user = (te_proc env \<and> tf_cs tf AND 3 = 3) in
      if tf_trapno tf = T_SYSCALL then
        thenK (exit_if_killed True)
        (thenK (set_proc (\<lambda>p. p\<lparr>p_tf := tf\<rparr>))
        (thenK (syscall kind (te_left env))
        (exit_if_killed True)))
      else
        thenK (trap_dispatch env tf)
        (thenK (exit_if_killed user)
        (bindK (getK (\<lambda>s. p_state (myproc s))) (\<lambda>st.
        thenK (whenK (te_proc env \<and> st = RUNNING \<and> tf_trapno tf = T_TIMER)
          (thenK (yield kind) (te_others env)))
        (exit_if_killed user)))))"

end
