(* ===== verification/Small_Fs.thy ===== *)
theory Small_Fs
  imports Path
begin

text \<open>
  A small file system on which the theorems of the file system are evaluated: a disk of 60
  blocks with the log in 2..31, the inodes in 32..34, the bitmap in 35 and data from 36 on. Block
  36 holds the root directory with its entries \<^verbatim>\<open>.\<close> and \<^verbatim>\<open>..\<close>; the other blocks are free. Slot 0 of
  the inode table holds the root directory and slot 1 an empty file, inode 2. The argument is
  whatever follows the inode layer in the state.
\<close>

definition small_sb :: superblock where
  "small_sb = \<lparr>sb_size = 60, sb_nblocks = 24, sb_ninodes = 16, sb_nlog = 30, sb_logstart = 2,
     sb_inodestart = 32, sb_bmapstart = 35\<rparr>"

definition small_bitmap :: block where
  "small_bitmap = replicate 4 255 @ [31] @ replicate 507 0"

definition small_root :: block where
  "small_root = enc_dirent \<lparr>de_inum = 1, de_name = 46 # replicate 13 0\<rparr> @
     enc_dirent \<lparr>de_inum = 1, de_name = [46, 46] @ replicate 12 0\<rparr> @ replicate 480 0"

definition root_dinode :: dinode where
  "root_dinode = \<lparr>d_type = T_DIR, d_major = 0, d_minor = 0, d_nlink = 1, d_size = 32, d_addrs = 36 # replicate 12 0\<rparr>"

definition file_dinode :: dinode where
  "file_dinode = \<lparr>d_type = T_FILE, d_major = 0, d_minor = 0, d_nlink = 1, d_size = 0, d_addrs = replicate 13 0\<rparr>"

definition small_inodes :: block where
  "small_inodes = put_dinode (put_dinode zero_block 1 root_dinode) 2 file_dinode"

definition small_disk :: "nat \<Rightarrow> block" where
  "small_disk b = (if b = 32 then small_inodes else if b = 35 then small_bitmap
     else if b = 36 then small_root else zero_block)"

definition free_inode :: inode where
  "free_inode = \<lparr>i_dev = 0, i_inum = 0, i_ref = 0, i_lock = initsleeplock, i_valid = False, i_type = 0, i_major = 0,
     i_minor = 0, i_nlink = 0, i_size = 0, i_addrs = replicate 13 0,
     i_extentz = replicate 11 \<lparr>e_length = 0, e_start = 0\<rparr>, i_numExtents = 0, i_sisterblocks = 0, i_eOffset = 0,
     i_lOffset = 0\<rparr>"

definition cached :: "nat \<Rightarrow> dinode \<Rightarrow> inode" where
  "cached inum d = load_dinode d (free_inode\<lparr>i_dev := 1, i_inum := inum, i_ref := 1, i_valid := True\<rparr>)"

definition small_proc :: proc where
  "small_proc = zero_proc\<lparr>p_state := RUNNING, p_pid := 1, p_cwd := Some 0\<rparr>"

definition small_fs :: "'e \<Rightarrow> 'e icst_scheme" where
  "small_fs e = \<lparr>blk = small_disk, platter = small_disk, dsize = 60, held = {}, dirty = {}, ls_start = 2,
     ls_size = 30, ls_outstanding = 1, ls_lh = [], panicked = False, uart_out = [], crt = (\<lambda>_. 0), crt_pos = 0,
     in_buf = replicate 128 0, in_r = 0, in_w = 0, in_e = 0, fs_sb = small_sb,
     ptable = small_proc # replicate 63 zero_proc, curproc = 0, ticks = 0,
     icache = cached 1 root_dinode # cached 2 file_dinode # replicate 48 free_inode,
     devsw = replicate 10 \<lparr>dev_read = None, dev_write = None\<rparr>, \<dots> = e\<rparr>"

lemma small_fields [simp]:
  "blk (small_fs e) = small_disk" "dsize (small_fs e) = 60" "held (small_fs e) = {}" "dirty (small_fs e) = {}"
  "ls_size (small_fs e) = 30" "ls_outstanding (small_fs e) = 1" "ls_lh (small_fs e) = []"
  "fs_sb (small_fs e) = small_sb" "curproc (small_fs e) = 0"
  "icache (small_fs e) = cached 1 root_dinode # cached 2 file_dinode # replicate 48 free_inode"
  "ptable (small_fs e) = small_proc # replicate 63 zero_proc" "panicked (small_fs e) = False"
  by (simp_all add: small_fs_def)

lemma small_sb_fields [simp]:
  "sb_size small_sb = 60" "sb_ninodes small_sb = 16" "sb_nlog small_sb = 30" "sb_logstart small_sb = 2"
  "sb_inodestart small_sb = 32" "sb_bmapstart small_sb = 35"
  by (simp_all add: small_sb_def)

lemma small_cached [simp]:
  "i_dev (cached i d) = 1" "i_inum (cached i d) = i" "i_ref (cached i d) = 1" "i_lock (cached i d) = initsleeplock"
  "i_valid (cached i d)" "i_type (cached i d) = d_type d" "i_size (cached i d) = d_size d" "i_nlink (cached i d) = d_nlink d"
  "i_addrs (cached i d) = d_addrs d"
  by (simp_all add: cached_def load_dinode_def free_inode_def)

lemma dinode_of_cached [simp]: "dinode_of (cached i d) = d"
  by (simp add: cached_def)

lemma small_dinodes [simp]:
  "d_type root_dinode = 1" "d_size root_dinode = 32" "d_addrs root_dinode = 36 # replicate 12 0" "d_nlink root_dinode = 1"
  "d_type file_dinode = 2" "d_size file_dinode = 0" "d_addrs file_dinode = replicate 13 0" "d_nlink file_dinode = 1"
  by (simp_all add: root_dinode_def file_dinode_def)

lemma free_inode_fields [simp]: "i_ref free_inode = 0" "i_lock free_inode = initsleeplock"
  by (simp_all add: free_inode_def)

lemma length_small_root: "length small_root = 512"
  by (simp add: small_root_def enc_dirent_def)

lemma length_small [simp]: "length (small_disk b) = 512"
  by (simp add: small_disk_def small_inodes_def small_bitmap_def length_small_root root_dinode_def file_dinode_def)

lemma dstart_small [simp]: "dstart small_sb = 36"
  by (simp add: dstart_def)

lemma nth_small_bitmap: "i < 512 \<Longrightarrow> small_bitmap ! i = mask (if i < 4 then 8 else if i = 4 then 5 else 0)"
  by (auto simp: small_bitmap_def nth_append nth_Cons' mask_eq_exp_minus_1)

lemma bit_low_mask: "bit (mask n :: u8) k \<longleftrightarrow> k < n \<and> k < 8"
  by (auto simp: Bit_Operations.bit_mask_iff)

lemma used_small:
  assumes "b < 60"
  shows "used small_sb small_disk b \<longleftrightarrow> b \<le> 36"
proof -
  have "used small_sb small_disk b \<longleftrightarrow>
    b mod 8 < (if b div 8 < 4 then 8 else if b div 8 = 4 then 5 else 0) \<and> b mod 8 < 8"
    using assms by (simp add: used_def BBLOCK_def small_disk_def bit_free_iff nth_small_bitmap bit_low_mask)
  also have "\<dots> \<longleftrightarrow> b \<le> 36" using assms by presburger
  finally show ?thesis .
qed

lemma fs_ok_small: "fs_ok (small_fs e)"
  by (auto simp: fs_ok_def layout_ok_def used_small fits32_def)

lemma room_small: "l < 30 \<Longrightarrow> l + h \<le> 30 \<Longrightarrow> room l h (small_fs e)"
  by (simp add: room_def NBUF_def)

lemma nfree_small: "nfree small_sb small_disk = 23"
proof -
  have "{b. b < 60 \<and> \<not> used small_sb small_disk b} = {37..<60}" by (auto simp: used_small)
  then show ?thesis by (simp add: nfree_def)
qed

lemma ready_small: "l \<le> 23 \<Longrightarrow> h \<le> 7 \<Longrightarrow> fs_ready E l h (small_fs e)"
  by (simp add: fs_ready_def fs_ok_small room_small nfree_small)

lemma nth_small_root: "k < 13 \<Longrightarrow> (36 # replicate 12 0) ! k = (if k = 0 then 36 else 0 :: nat)"
  by (cases k) auto

lemma root_tree: "pos_ok p \<Longrightarrow> tree 0 (small_fs e) p = (if p = Slot 0 then 36 else 0)"
  by (cases p) (simp_all add: tree_def entry_def nth_small_root)

lemma file_tree: "pos_ok p \<Longrightarrow> tree (Suc 0) (small_fs e) p = 0"
  by (cases p) (simp_all add: tree_def entry_def)

lemma itree_small: "itree_ok 0 (small_fs e)" "itree_ok (Suc 0) (small_fs e)"
  using root_tree[of _ e] file_tree[of _ e]
  by (auto simp: itree_ok_def tree_ok_def ROOTDEV_def tree_def data_block_def used_small split: if_splits)

lemma owned_small: "owned 0 (small_fs e) = {36}" "owned (Suc 0) (small_fs e) = {}"
  using root_tree[of _ e] file_tree[of _ e] by (auto simp: owned_def split: if_splits) (metis pos_ok.simps(1) zero_less_numeral)+

lemma dir_small: "dir_ok 0 (small_fs e)"
  by (auto simp: dir_ok_def itree_small no_hole_def root_tree leaf_def)

lemma small_dents:
  "dent 0 (small_fs e) 0 = \<lparr>de_inum = 1, de_name = 46 # replicate 13 0\<rparr>"
  "dent 0 (small_fs e) (Suc 0) = \<lparr>de_inum = 1, de_name = [46, 46] @ replicate 12 0\<rparr>"
proof -
  have "file_byte 0 (small_fs e) i = small_root ! i" if "i < 32" for i
    using that root_tree[of "Slot 0" e] by (simp add: file_byte_def leaf_def small_disk_def)
  then have "file_bytes 0 (small_fs e) off 16 = take 16 (drop off small_root)" if "off + 16 \<le> 32" for off
    using that by (intro nth_equalityI) (simp_all add: length_small_root)
  from this[of 0] this[of 16]
  have "file_bytes 0 (small_fs e) 0 16 = enc_dirent \<lparr>de_inum = 1, de_name = 46 # replicate 13 0\<rparr>"
    "file_bytes 0 (small_fs e) 16 16 = enc_dirent \<lparr>de_inum = 1, de_name = [46, 46] @ replicate 12 0\<rparr>"
    by (simp_all add: small_root_def enc_dirent_def)
  then show "dent 0 (small_fs e) 0 = \<lparr>de_inum = 1, de_name = 46 # replicate 13 0\<rparr>"
    "dent 0 (small_fs e) (Suc 0) = \<lparr>de_inum = 1, de_name = [46, 46] @ replicate 12 0\<rparr>"
    by (simp_all add: dent_def)
qed

lemma small_ndents: "ndents 0 (small_fs e) = 2"
  by (simp add: ndents_def)

lemma small_no_name:
  assumes "name 0 \<noteq> 46"
  shows "find_name 0 (small_fs e) name = None"
proof -
  have "\<not> same_upto DIRSIZ name (cstr (46 # ns))" for ns
    using assms by (auto simp: same_upto_def cstr_def intro!: exI[of _ 0])
  then show ?thesis
    by (simp add: find_name_def small_ndents small_dents matches_def numeral_2_eq_2)
qed

lemma small_free_slot: "free_slot 0 (small_fs e) = 2"
  by (simp add: free_slot_def small_ndents small_dents numeral_2_eq_2)

lemma small_slot:
  assumes "i < 50"
  shows "(cached (Suc 0) root_dinode # cached 2 file_dinode # replicate 48 free_inode) ! i =
    (if i = 0 then cached (Suc 0) root_dinode else if i = 1 then cached 2 file_dinode else free_inode)"
  using assms by (auto simp: nth_Cons')

lemma icache_ok_small: "icache_ok (small_fs e)"
  unfolding icache_ok_def by (simp add: small_slot)

lemma type_zero_block: "d_type (get_dinode zero_block k) = 0"
  by (simp add: get_dinode_def dec_dinode_def zero_block_def slice_def dec_short_def short_of_def)

lemma small_dinode:
  assumes "inum < 16"
  shows "inum = 1 \<Longrightarrow> disk_dinode small_sb small_disk inum = root_dinode"
    "inum = 2 \<Longrightarrow> disk_dinode small_sb small_disk inum = file_dinode"
    "inum \<noteq> 1 \<Longrightarrow> inum \<noteq> 2 \<Longrightarrow> d_type (disk_dinode small_sb small_disk inum) = 0"
proof -
  have ok: "dinode_ok root_dinode" "dinode_ok file_dinode"
    by (simp_all add: dinode_ok_def root_dinode_def file_dinode_def fits16_def fits32_def)
  show "inum = 1 \<Longrightarrow> disk_dinode small_sb small_disk inum = root_dinode"
    "inum = 2 \<Longrightarrow> disk_dinode small_sb small_disk inum = file_dinode"
    using ok by (simp_all add: disk_dinode_def IBLOCK_def small_disk_def small_inodes_def)
  show "d_type (disk_dinode small_sb small_disk inum) = 0" if "inum \<noteq> 1" "inum \<noteq> 2"
  proof (cases "inum < 8")
    case True
    then show ?thesis using that
      by (simp add: disk_dinode_def IBLOCK_def small_disk_def small_inodes_def type_zero_block)
  next
    case False
    then have "inum div 8 = 1" using assms by presburger
    then show ?thesis by (simp add: disk_dinode_def IBLOCK_def small_disk_def type_zero_block)
  qed
qed

end
