(* ===== verification/Fs_Theorems.thy ===== *)
theory Fs_Theorems
  imports Small_Fs
begin

text \<open>
  The theorems of the file system: allocation of blocks, the contents of files, directories and
  the inode table, each evaluated on the small file system of theory \<open>Small_Fs\<close>.
\<close>

section \<open>Blocks\<close>

text \<open>(C11) \<^verbatim>\<open>balloc\<close> returns the lowest free block, zeroed, and the bitmap then has that block in use
  and is otherwise as before; it panics only when no block is free. \<^verbatim>\<open>bfree\<close> of the block takes the
  bitmap back to where it was.\<close>

theorem balloc_bfree:
  assumes "fs_ready {disk_full} 3 1 s"
  shows "case find (\<lambda>b. \<not> used (fs_sb s) (blk s) b) [0..<sb_size (fs_sb s)] of
      None \<Rightarrow> balloc ROOTDEV s = Inl (Panic ''balloc: out of blocks'')
    | Some b \<Rightarrow> \<exists>t u. balloc ROOTDEV s = Inr (b, t) \<and> blk t b = zero_block \<and>
        (\<forall>x < sb_size (fs_sb s). used (fs_sb s) (blk t) x \<longleftrightarrow> used (fs_sb s) (blk s) x \<or> x = b) \<and>
        (\<forall>x. x \<noteq> b \<and> x \<notin> bitmap (fs_sb s) \<longrightarrow> blk t x = blk s x) \<and>
        bfree ROOTDEV b t = Inr ((), u) \<and>
        (\<forall>x < sb_size (fs_sb s). used (fs_sb s) (blk u) x \<longleftrightarrow> used (fs_sb s) (blk s) x)"
proof (cases "find (\<lambda>b. \<not> used (fs_sb s) (blk s) b) [0..<sb_size (fs_sb s)]")
  case None
  then show ?thesis using balloc_ok[OF fs_ready_alloc, of "{disk_full}" 1 0 s] assms by (simp add: eval_nat_numeral)
next
  case (Some b)
  let ?t = "alloced (fs_sb s) b s"
  from find_Some_upt[OF Some] have b: "b < sb_size (fs_sb s)" "\<not> used (fs_sb s) (blk s) b" by simp_all
  have ok: "fs_ok s" using assms by (simp add: fs_ready_def)
  have bal: "balloc ROOTDEV s = Inr (b, ?t)"
    using balloc_ok[OF fs_ready_alloc, of "{disk_full}" 1 0 s] assms Some by (simp add: eval_nat_numeral)
  have "fs_ready {disk_full} 1 1 ?t"
    using balloc_fs[of "{disk_full}" 1 0 s] assms bal by (simp add: ends_def eval_nat_numeral)
  from bfree_ok[OF fs_ready_alloc, of "{disk_full}" 0 0 ?t b] this b
    alloced_ok(3)[OF fs_okD(1,2)[OF ok] b]
  have bf: "bfree ROOTDEV b ?t = Inr ((), unmark (fs_sb s) b ?t)" by simp
  have "used (fs_sb s) (blk (unmark (fs_sb s) b ?t)) x \<longleftrightarrow> used (fs_sb s) (blk s) x" if "x < sb_size (fs_sb s)" for x
    using used_unmark[OF alloced_ok(5)[OF fs_okD(1,2)[OF ok] b] b(1)] alloced_ok(3)[OF fs_okD(1,2)[OF ok] b that] b by auto
  with Some bal bf alloced_ok(2,3,4)[OF fs_okD(1,2)[OF ok] b] show ?thesis by auto
qed

theorem balloc_bfree_witness:
  "\<exists>t u. balloc ROOTDEV (small_fs ()) = Inr (37, t) \<and> blk t 37 = zero_block \<and> bfree ROOTDEV 37 t = Inr ((), u) \<and>
     \<not> used small_sb (blk u) 37"
proof -
  have "find (\<lambda>b. \<not> used small_sb small_disk b) [0..<60] = find (\<lambda>b. 36 < b) [0..<60]"
    by (rule find_cong) (auto simp: used_small)
  also have "\<dots> = Some 37" by (simp add: upt_conv_Cons)
  finally show ?thesis
    using balloc_bfree[OF ready_small, of "()"] by (auto simp: used_small)
qed

section \<open>File contents\<close>

text \<open>The files with an inode in the slots \<open>F\<close>: their block trees are well formed and share no block.\<close>

definition files_ok :: "nat set \<Rightarrow> 'e icst_scheme \<Rightarrow> bool" where
  "files_ok F s \<longleftrightarrow> (\<forall>ip \<in> F. itree_ok ip s) \<and>
     (\<forall>ip \<in> F. \<forall>jp \<in> F. ip \<noteq> jp \<longrightarrow> owned ip s \<inter> owned jp s = {})"

lemma owned_data: "itree_ok ip s \<Longrightarrow> x \<in> owned ip s \<Longrightarrow> data_block s x"
  using itree_okD(4) by (auto simp: owned_def)

lemma owned_cong: "(\<And>p. pos_ok p \<Longrightarrow> tree ip t p = tree ip s p) \<Longrightarrow> owned ip t = owned ip s"
  by (auto simp: owned_def)

text \<open>What a write keeps of the invariant, from what it does to one file.\<close>

lemma changed_files:
  assumes F: "files_ok F s" "ip \<in> F" and ch: "changed ip s t"
  shows "files_ok F t"
proof -
  have same: "same_file jp s t" if "jp \<in> F" "jp \<noteq> ip" for jp
    using changed_isolated[OF ch that(2)] F that by (auto simp: files_ok_def)
  then have own: "owned jp t = owned jp s" if "jp \<in> F" "jp \<noteq> ip" for jp
    using that by (intro owned_cong) (auto simp: same_file_def)
  have new: "x \<notin> owned jp s" if "jp \<in> F" "jp \<noteq> ip" "x \<in> owned ip t" for jp x
  proof
    assume x: "x \<in> owned jp s"
    with F that have "data_block s x" "x \<notin> owned ip s" by (auto simp: files_ok_def intro: owned_data)
    with changedD(5)[OF ch that(3)] show False by blast
  qed
  show ?thesis
    unfolding files_ok_def
  proof (intro conjI ballI impI)
    fix jp assume "jp \<in> F"
    then show "itree_ok jp t" using same changedD(3)[OF ch] by (cases "jp = ip") (auto simp: same_file_def)
  next
    fix i j assume ij: "i \<in> F" "j \<in> F" "i \<noteq> j"
    show "owned i t \<inter> owned j t = {}"
    proof (cases "i = ip \<or> j = ip")
      case True
      then show ?thesis using ij own new by blast
    next
      case False
      then show ?thesis using ij own F by (auto simp: files_ok_def)
    qed
  qed
qed

lemma flushed_files:
  assumes "fs_ok s" "files_ok F s" "ip \<in> F" "i_inum (icache s ! ip) < sb_ninodes (fs_sb s)"
  shows "files_ok F (flushed ip s)"
proof -
  have it: "itree_ok jp s" if "jp \<in> F" for jp using that assms(2) by (simp add: files_ok_def)
  have "owned jp (flushed ip s) = owned jp s" if "jp \<in> F" for jp
    using flushed_ok(4)[OF assms(1) it[OF assms(3)] assms(4) it[OF that]] by (rule owned_cong)
  then show ?thesis
    using assms(2) it flushed_ok(3)[OF assms(1) it[OF assms(3)] assms(4)] by (auto simp: files_ok_def)
qed

lemma upd_files:
  assumes "files_ok F s" "i_addrs (f (icache s ! ip)) = i_addrs (icache s ! ip)"
    "i_dev (f (icache s ! ip)) = i_dev (icache s ! ip)"
  shows "files_ok F (upd_ino ip f s)"
proof -
  have "owned jp (upd_ino ip f s) = owned jp s" for jp
    using tree_upd_ino[of f s ip jp] assms(2) by (intro owned_cong) simp
  then show ?thesis using assms by (simp add: files_ok_def itree_ok_upd_ino)
qed

lemma wrote_files:
  assumes w: "wrote ip src off n s u" and F: "files_ok F s" "ip \<in> F"
    and ino: "i_inum (icache s ! ip) < sb_ninodes (fs_sb s)"
    and t: "t = (if n > 0 \<and> off + n > i_size (icache s ! ip)
         then flushed ip (upd_ino ip (\<lambda>i. i\<lparr>i_size := off + n\<rparr>) u) else u)"
  shows "files_ok F t"
proof -
  have ch: "changed ip s u" using w by (simp add: wrote_def)
  have fu: "files_ok F u" by (rule changed_files[OF F ch])
  have ip: "ip < length (icache s)" using F by (auto simp: files_ok_def itree_ok_def)
  have "i_inum (icache u ! ip) < sb_ninodes (fs_sb u)"
    using changed_fields(1,7)[OF ch] ino ip by auto
  then have "files_ok F (flushed ip (upd_ino ip (\<lambda>i. i\<lparr>i_size := off + n\<rparr>) u))"
    using changedD(2)[OF ch] changed_fields(6)[OF ch] ip F(2)
    by (intro flushed_files upd_files[OF fu]) auto
  with fu t show ?thesis by simp
qed


text \<open>(C8) Writing to one file keeps the invariant of the file system and all other files: with the block
  trees of the files \<open>F\<close> well formed and disjoint, they are so after \<^verbatim>\<open>writei\<close>, and every other file has
  the same inode, the same blocks and the same bytes.\<close>

theorem writei_isolated:
  assumes "fs_ready E (6 * nblocks off n + 1) 2 s" "files_ok F s" "ip \<in> F" "held s = {}" "plain (icache s ! ip)"
    and "i_inum (icache s ! ip) < sb_ninodes (fs_sb s)"
    and "off \<le> i_size (icache s ! ip)" "off + n \<le> MAXFILE * BSIZE" "n \<le> length src"
  shows "ends E (writei ip src off n) s (\<lambda>r t. fs_ok t \<and> files_ok F t \<and>
    (\<forall>jp \<in> F - {ip}. same_file jp s t))"
proof (rule ends_mono[OF writei_plain[of E off n 0 s ip src]])
  fix r t
  assume "r = int n \<and> (\<exists>u. wrote ip src off n s u \<and>
    t = (if n > 0 \<and> off + n > i_size (icache s ! ip)
         then flushed ip (upd_ino ip (\<lambda>i. i\<lparr>i_size := off + n\<rparr>) u) else u) \<and> fs_ready E 0 (Suc (Suc 0)) t)"
  then obtain u where w: "wrote ip src off n s u" and rt: "fs_ready E 0 (Suc (Suc 0)) t" and
    t: "t = (if n > 0 \<and> off + n > i_size (icache s ! ip)
         then flushed ip (upd_ino ip (\<lambda>i. i\<lparr>i_size := off + n\<rparr>) u) else u)" by blast
  have it: "itree_ok ip s" using assms(2,3) by (simp add: files_ok_def)
  have "write_effect ip src off n s t" by (rule write_effectI[OF w it assms(4,7,6,8) t])
  then have "\<forall>jp \<in> F - {ip}. same_file jp s t"
    using assms(2,3) by (auto simp: write_effect_def files_ok_def)
  then show "fs_ok t \<and> files_ok F t \<and> (\<forall>jp \<in> F - {ip}. same_file jp s t)"
    using rt wrote_files[OF w assms(2,3,6) t] by (simp add: fs_ready_def)
qed (use assms in \<open>simp_all add: numeral_2_eq_2 files_ok_def\<close>)

lemma files_small: "files_ok {0, 1} (small_fs e)"
  by (auto simp: files_ok_def itree_small owned_small)

lemma plain_small: "plain (icache (small_fs e) ! Suc 0)" "plain (icache (small_fs e) ! 0)"
  by (simp_all add: plain_def)


theorem writei_isolated_witness:
  "runs (writei 1 [1, 2, 3] 0 3) (small_fs ()) (\<lambda>r t. files_ok {0, 1} t \<and> same_file 0 (small_fs ()) t)"
  using writei_isolated[of "{}" 0 3 "small_fs ()" "{0, 1}" 1 "[1, 2, 3]"] plain_small files_small[of "()"]
  by (auto simp: nblocks_def ready_small ends_runs elim!: runs_mono)

section \<open>Directories\<close>

text \<open>(C10) A name that \<^verbatim>\<open>dirlink\<close> has entered is found by \<^verbatim>\<open>dirlookup\<close>, which returns the inode it was
  entered for; every other name is found where it was found before, or not at all as before.\<close>

theorem dirlink_dirlookup:
  assumes "fs_ready E 7 2 s" "held s = {}" "dir_ok dp s" "find_name dp s name = None"
    and "i_inum (icache s ! dp) < sb_ninodes (fs_sb s)" "(ndents dp s + 1) * DESIZE \<le> MAXFILE * BSIZE"
    and "0 < inum" "inum < 65536"
  shows "ends E (dirlink dp name inum) s (\<lambda>r t. r = 0 \<and> dir_ok dp t \<and>
    dirlookup dp name t = bindK (iget ROOTDEV inum) (\<lambda>ip. ret (Some (ip, free_slot dp s * DESIZE))) t \<and>
    (\<forall>other. \<not> matches other (new_dirent name inum) \<longrightarrow> find_name dp t other = find_name dp s other))"
proof (rule ends_mono[OF dirlink_ok[OF assms(1-6)]])
  fix r t
  let ?k = "free_slot dp s" and ?de = "new_dirent name inum"
  assume "r = 0 \<and> fs_ready E 0 2 t \<and> write_effect dp (enc_dirent ?de) (?k * DESIZE) DESIZE s t"
  then have r: "r = 0" "room 0 (Suc 1) t" "fs_ok t" "held t = {}"
    and w: "write_effect dp (enc_dirent ?de) (?k * DESIZE) DESIZE s t"
    by (auto simp: fs_ready_def write_effect_def numeral_2_eq_2)
  have len: "length (enc_dirent ?de) = DESIZE" by (simp add: enc_dirent_def)
  note d = dent_written[OF assms(3) free_slot_le assms(6) len w]
  note l = linked_lookup[OF assms(3,6) w]
  have "found_at dp ?k t = bindK (iget ROOTDEV inum) (\<lambda>ip. ret (Some (ip, ?k * DESIZE))) t"
    using d(3) assms(8) by (simp add: found_at_def bindK_def ret_def new_dirent_def split: sum.split)
  then show "r = 0 \<and> dir_ok dp t \<and>
    dirlookup dp name t = bindK (iget ROOTDEV inum) (\<lambda>ip. ret (Some (ip, ?k * DESIZE))) t \<and>
    (\<forall>other. \<not> matches other ?de \<longrightarrow> find_name dp t other = find_name dp s other)"
    using r d(1) dirlookup_ok[OF r(2-4) d(1), of name] l(1)[OF assms(4)] l(2) assms(7,8) by simp
qed

theorem dirlink_dirlookup_witness:
  "runs (dirlink 0 (cstr [97]) 2) (small_fs ()) (\<lambda>r t. r = 0 \<and>
     dirlookup 0 (cstr [97]) t = bindK (iget ROOTDEV 2) (\<lambda>ip. ret (Some (ip, 32))) t)"
  using dirlink_dirlookup[of "{}" "small_fs ()" 0 "cstr [97]" 2]
    dir_small[of "()"] small_no_name[of "cstr [97]" "()"]
  by (auto simp: ready_small ends_runs small_ndents small_free_slot cstr_def elim!: runs_mono)

end
