(* ===== verification/Itable.thy ===== *)
theory Itable
  imports Small_Fs
begin

text \<open>
  Theorems on the table of inodes in memory: no inode has two slots, whatever the sequence of
  operations, and what \<^verbatim>\<open>iupdate\<close> writes is what \<^verbatim>\<open>ilock\<close> loads.
\<close>

section \<open>What operations keep\<close>

text \<open>What the invariant of the table is about: device, number and reference count of each slot. Code
  that only works on the contents of an inode keeps them.\<close>

definition keys :: "'e icst_scheme \<Rightarrow> (nat \<times> nat \<times> int) list" where
  "keys s = map (\<lambda>i. (i_dev i, i_inum i, i_ref i)) (icache s)"

lemma icache_ok_keys:
  "icache_ok s \<longleftrightarrow> length (keys s) = NINODE \<and> (\<forall>i < NINODE. 0 \<le> snd (snd (keys s ! i))) \<and>
     (\<forall>i < NINODE. \<forall>j < NINODE. 0 < snd (snd (keys s ! i)) \<and> 0 < snd (snd (keys s ! j)) \<and>
        fst (keys s ! i) = fst (keys s ! j) \<and> fst (snd (keys s ! i)) = fst (snd (keys s ! j)) \<longrightarrow> i = j)"
  unfolding icache_ok_def keys_def by auto

lemma keys_upd:
  assumes "\<And>i. i_dev (f i) = i_dev i" "\<And>i. i_inum (f i) = i_inum i" "\<And>i. i_ref (f i) = i_ref i"
  shows "keys (upd_ino ip f s) = keys s"
proof (rule nth_equalityI)
  fix i assume "i < length (keys (upd_ino ip f s))"
  then show "keys (upd_ino ip f s) ! i = keys s ! i"
    using assms by (cases "i = ip") (simp_all add: keys_def)
qed (simp add: keys_def)

definition keeps :: "('e icst_scheme, 'a) K \<Rightarrow> bool" where
  "keeps m \<longleftrightarrow> (\<forall>s. ends UNIV m s (\<lambda>_ t. keys t = keys s))"

named_theorems keeps

lemma keeps_bindK [keeps]:
  fixes m :: "('e icst_scheme, 'a) K"
  assumes m: "keeps m" and f: "\<And>x. keeps (f x)"
  shows "keeps (bindK m f)"
  unfolding keeps_def ends_bindK
proof
  fix s
  from m have "ends UNIV m s (\<lambda>_ t. keys t = keys s)" by (simp add: keeps_def)
  then show "ends UNIV m s (\<lambda>x t. ends UNIV (f x) t (\<lambda>_ u. keys u = keys s))"
  proof (rule ends_mono)
    fix x and t :: "'e icst_scheme" assume eq: "keys t = keys s"
    have "ends UNIV (f x) t (\<lambda>_ u. keys u = keys t)" using f[of x] by (simp add: keeps_def)
    then show "ends UNIV (f x) t (\<lambda>_ u. keys u = keys s)" by (simp add: eq)
  qed
qed

lemma keeps_thenK [keeps]: "keeps m \<Longrightarrow> keeps n \<Longrightarrow> keeps (thenK m n)"
  by (simp add: thenK_def keeps_bindK)

lemma keeps_basic [keeps]: "keeps (ret x)" "keeps (stopK e)" "keeps (getK g)" "keeps (getI ip h)"
  by (simp_all add: getI_def keeps_def)

lemma keeps_whenK [keeps]: "keeps m \<Longrightarrow> keeps (whenK c m)"
  by (simp add: keeps_def ends_whenK)

lemma keeps_forK [keeps]: "(\<And>x. keeps (body x)) \<Longrightarrow> keeps (forK xs body)"
  by (induction xs) (auto intro!: keeps split: option.split)

lemma keeps_store [keeps]:
  "keeps (fs_bread dev b)" "keeps (bdata b)" "keeps (set_bdata b d)" "keeps (brelse_spec b)" "keeps (log_write_spec b)"
  by (auto simp: keeps_def fs_bread_def bread_spec_def bdata_def set_bdata_def set_data_def brelse_spec_def log_write_spec_def
      ends_def kdefs keys_def)

lemma keeps_setI [keeps]:
  assumes "\<And>i. i_dev (f i) = i_dev i" "\<And>i. i_inum (f i) = i_inum i" "\<And>i. i_ref (f i) = i_ref i"
  shows "keeps (setI ip f)"
  by (simp add: keeps_def setI_def keys_upd[OF assms])

lemma keeps_if [keeps]: "(c \<Longrightarrow> keeps m) \<Longrightarrow> (\<not> c \<Longrightarrow> keeps n) \<Longrightarrow> keeps (if c then m else n)"
  by simp

lemma keeps_prod [keeps]: "(\<And>a b. keeps (f a b)) \<Longrightarrow> keeps (case x of (a, b) \<Rightarrow> f a b)"
  by (simp split: prod.split)

lemma keeps_lock [keeps]: "keeps (lock_ino ip)"
  by (auto simp: keeps_def ends_def lock_ino_def keys_upd split: sum.split)

lemma keeps_contents:
  "keeps (iupdate ip)" "keeps (bfree dev b)" "keeps (ilock p)" "keeps (iunlock p)"
  unfolding iupdate_def bfree_def ilock_def iunlock_def
  by (auto intro!: keeps split: option.split simp: load_dinode_def)

lemma keeps_itrunc: "keeps (itrunc ip)"
  unfolding itrunc_def trunc_direct_def trunc_entry_def by (intro keeps keeps_contents) simp_all

definition iput_first :: "nat \<Rightarrow> ('e icst_scheme, unit) K" where
  "iput_first ip =
     thenK (lock_ino ip)
     (bindK (getI ip (\<lambda>n. i_valid n \<and> i_nlink n = 0)) (\<lambda>dead.
     thenK (whenK dead
       (bindK (getI ip i_ref) (\<lambda>r.
        whenK (r = 1)
          (thenK (itrunc ip)
          (thenK (setI ip (\<lambda>n. n\<lparr>i_type := 0\<rparr>))
          (thenK (iupdate ip)
          (setI ip (\<lambda>n. n\<lparr>i_valid := False\<rparr>))))))))
     (setI ip (\<lambda>n. n\<lparr>i_lock := releasesleep (i_lock n)\<rparr>))))"

lemma iput_split: "iput ip = thenK (iput_first ip) (setI ip (\<lambda>n. n\<lparr>i_ref := i_ref n - 1\<rparr>))"
  unfolding iput_def iput_first_def by (rule ext) (simp add: thenK_def bindK_def split: sum.split)

lemma keeps_iput_first: "keeps (iput_first ip)"
  unfolding iput_first_def by (intro keeps keeps_contents keeps_itrunc) simp_all

section \<open>The invariant\<close>

text \<open>The operations on the table, with what the callers guarantee: a reference that is duplicated or
  dropped is one that is held.\<close>

inductive iop :: "'e icst_scheme \<Rightarrow> 'e icst_scheme \<Rightarrow> bool" where
  op_iget: "iget dev inum s = Inr (ip, t) \<Longrightarrow> iop s t"
| op_idup: "0 < i_ref (icache s ! ip) \<Longrightarrow> idup ip s = Inr (r, t) \<Longrightarrow> iop s t"
| op_iput: "0 < i_ref (icache s ! ip) \<Longrightarrow> iput ip s = Inr (r, t) \<Longrightarrow> iop s t"
| op_ilock: "ilock p s = Inr (r, t) \<Longrightarrow> iop s t"
| op_iunlock: "iunlock p s = Inr (r, t) \<Longrightarrow> iop s t"
| op_iupdate: "iupdate ip s = Inr (r, t) \<Longrightarrow> iop s t"
| op_itrunc: "itrunc ip s = Inr (r, t) \<Longrightarrow> iop s t"

inductive_cases iopE: "iop s t"

lemma keepsD: "keeps m \<Longrightarrow> m s = Inr (x, t) \<Longrightarrow> keys t = keys s"
  by (auto simp: keeps_def ends_def split: sum.splits prod.splits)

lemma icache_ok_cong: "keys t = keys s \<Longrightarrow> icache_ok s \<Longrightarrow> icache_ok t"
  by (simp add: icache_ok_keys)

lemma iop_ok:
  assumes "iop s t" "icache_ok s"
  shows "icache_ok t"
  using assms(1)
proof cases
  case (op_iget dev inum ip)
  then show ?thesis using iget_cases(2)[OF assms(2)] by blast
next
  case (op_idup ip r)
  then show ?thesis using assms(2) by (auto simp: idup_def setI_def kdefs intro!: icache_ok_upd)
next
  case (op_iput ip r)
  then obtain u where u: "iput_first ip s = Inr ((), u)" "t = upd_ino ip (\<lambda>n. n\<lparr>i_ref := i_ref n - 1\<rparr>) u"
    by (auto simp: iput_split setI_def kdefs split: sum.splits)
  have k: "keys u = keys s" by (rule keepsD[OF keeps_iput_first u(1)])
  then have iu: "icache_ok u" using assms(2) by (rule icache_ok_cong)
  show ?thesis
  proof (cases "ip < NINODE")
    case True
    then have "i_ref (icache u ! ip) = i_ref (icache s ! ip)"
      using arg_cong[OF k, of "\<lambda>ks. snd (snd (ks ! ip))"] iu assms(2) by (simp add: keys_def icache_ok_def)
    then show ?thesis using op_iput(1) by (auto simp: u(2) intro!: icache_ok_upd[OF iu])
  next
    case False
    then show ?thesis using iu by (auto simp: u(2) upd_ino_def icache_ok_def)
  qed
qed (use assms(2) keeps_contents keeps_itrunc in \<open>blast intro: icache_ok_cong keepsD\<close>)+

text \<open>(C12) Whatever sequence of operations on the table of inodes runs, no inode of the disk is in two slots
  in use and no reference count is negative. In particular \<^verbatim>\<open>iget\<close> for the same inode gives the same slot.\<close>

theorem inode_table_unique:
  assumes "iop\<^sup>*\<^sup>* s t" "icache_ok s" "iget dev inum t = Inr (ip, u)"
  shows "icache_ok u \<and> (\<exists>v. iget dev inum u = Inr (ip, v) \<and> i_ref (icache v ! ip) = i_ref (icache u ! ip) + 1)"
proof -
  have ok: "icache_ok t" using assms(1,2) by (induction rule: rtranclp_induct) (auto intro: iop_ok)
  note g = iget_cases[OF ok assms(3)]
  have r: "0 < i_ref (icache u ! ip)" using g(1,3) ok by (auto simp: icache_ok_def)
  let ?P = "\<lambda>i. i_ref (icache u ! i) > 0 \<and> i_dev (icache u ! i) = dev \<and> i_inum (icache u ! i) = inum"
  obtain jp where jp: "find ?P [0..<NINODE] = Some jp"
    using g(1,4,5) r by (cases "find ?P [0..<NINODE]") (auto simp: find_None_iff)
  then have "jp < NINODE" "?P jp" by (auto simp: find_Some_iff)
  then have "jp = ip" using g(1,2,4,5) r by (auto simp: icache_ok_def)
  then have "iget dev inum u = Inr (ip, upd_ino ip (\<lambda>i. i\<lparr>i_ref := i_ref i + 1\<rparr>) u)"
    using jp by (simp add: iget_def)
  then show ?thesis using g(1,2) by (auto simp: icache_ok_def)
qed

theorem inode_table_unique_witness:
  "\<exists>t u. idup 1 (small_fs ()) = Inr (1, t) \<and> iget 1 2 t = Inr (1, u) \<and> icache_ok u \<and>
     (\<exists>v. iget 1 2 u = Inr (1, v) \<and> i_ref (icache v ! 1) = 4)"
proof -
  let ?t = "upd_ino 1 (\<lambda>i. i\<lparr>i_ref := i_ref i + 1\<rparr>) (small_fs ())"
  have t: "idup 1 (small_fs ()) = Inr (1, ?t)" by (simp add: idup_def setI_def kdefs)
  have st: "iop\<^sup>*\<^sup>* (small_fs ()) ?t" using op_idup[OF _ t] by auto
  have "find (\<lambda>i. i_ref (icache ?t ! i) > 0 \<and> i_dev (icache ?t ! i) = 1 \<and> i_inum (icache ?t ! i) = 2) [0..<NINODE] = Some 1"
    by (simp add: upt_conv_Cons)
  then have "iget 1 2 ?t = Inr (1, upd_ino 1 (\<lambda>i. i\<lparr>i_ref := i_ref i + 1\<rparr>) ?t)"
    by (simp add: iget_def)
  with t inode_table_unique[OF st icache_ok_small this] show ?thesis by auto
qed

section \<open>Writing and loading\<close>

text \<open>(C13) What \<^verbatim>\<open>iupdate\<close> writes to the disk is what \<^verbatim>\<open>ilock\<close> loads: after \<^verbatim>\<open>iupdate\<close>, locking a slot for the same
  inode that does not hold valid contents brings back type, link count, size and block addresses. The
  other inodes on the disk are unchanged.\<close>

theorem iupdate_ilock:
  assumes "room 1 1 s" "ip < length (icache s)" "i_dev (icache s ! ip) = ROOTDEV"
    and "ino_readable (i_inum (icache s ! ip)) s" "length (blk s (IBLOCK (i_inum (icache s ! ip)) (fs_sb s))) = BSIZE"
    and "dinode_ok (dinode_of (icache s ! ip))" "i_type (icache s ! ip) \<noteq> 0"
    and "i_dev j = ROOTDEV" "i_inum j = i_inum (icache s ! ip)" "1 \<le> i_ref j" "\<not> sl_locked (i_lock j)" "\<not> i_valid j"
  shows "\<exists>t u. iupdate ip s = Inr ((), t) \<and> ilock (Some ip) (t\<lparr>icache := (icache t)[ip := j]\<rparr>) = Inr ((), u) \<and>
    dinode_of (icache u ! ip) = dinode_of (icache s ! ip) \<and>
    (\<forall>k. k \<noteq> i_inum (icache s ! ip) \<longrightarrow> disk_dinode (fs_sb s) (blk t) k = disk_dinode (fs_sb s) (blk s) k)"
proof -
  let ?t = "flushed ip s"
  let ?u = "?t\<lparr>icache := (icache ?t)[ip := j]\<rparr>"
  have t: "iupdate ip s = Inr ((), ?t)" using iupdate_ok[of 0 0 s ip] assms(1,3,4) by simp
  have r: "room 0 (Suc 0) ?t" using assms(1) by (simp add: flushed_def Let_def room_lput)
  then have r': "room 0 (Suc 0) ?u" by (simp add: room_def)
  let ?d = "disk_dinode (fs_sb ?u) (blk ?u) (i_inum (icache ?u ! ip))"
  have d: "?d = dinode_of (icache s ! ip)"
    using disk_flushed[OF assms(5,6)] assms(2,9) by (simp add: flushed_def Let_def)
  have "ino_readable (i_inum (icache ?u ! ip)) ?u" using assms(2,4,9) by (simp add: ino_readable_def)
  from ilock_load[OF _ _ _ _ _ r' this refl] assms(2,7,8,10-12) d
  have "ilock (Some ip) ?u = Inr ((), upd_ino ip (\<lambda>i. (load_dinode ?d (taken (fs_pid ?u) i))\<lparr>i_valid := True\<rparr>) ?u)"
    by (simp add: dinode_of_def)
  moreover have "dinode_of (i\<lparr>i_valid := True\<rparr>) = dinode_of i" for i by (simp add: dinode_of_def)
  ultimately show ?thesis using t d assms(2) disk_flushed[OF assms(5,6)] by auto
qed

theorem iupdate_ilock_witness:
  "\<exists>t u. iupdate 1 (small_fs ()) = Inr ((), t) \<and>
     ilock (Some 1) (t\<lparr>icache := (icache t)[1 := free_inode\<lparr>i_dev := 1, i_inum := 2, i_ref := 1\<rparr>]\<rparr>) = Inr ((), u) \<and>
     i_type (icache u ! 1) = T_FILE \<and> i_nlink (icache u ! 1) = 1"
proof -
  let ?i = "icache (small_fs ()) ! 1"
  have "dinode_of ?i = file_dinode" by (simp add: cached_def)
  then obtain t u where "iupdate 1 (small_fs ()) = Inr ((), t)"
    "ilock (Some 1) (t\<lparr>icache := (icache t)[1 := free_inode\<lparr>i_dev := 1, i_inum := 2, i_ref := 1\<rparr>]\<rparr>) = Inr ((), u)"
    "dinode_of (icache u ! 1) = file_dinode"
    using iupdate_ilock[of "small_fs ()" 1 "free_inode\<lparr>i_dev := 1, i_inum := 2, i_ref := 1\<rparr>"]
    by (auto simp: room_small ROOTDEV_def ino_readable_def IBLOCK_def initsleeplock_def free_inode_def
        file_dinode_def dinode_ok_def fits16_def fits32_def)
  then show ?thesis by (intro exI[of _ t] exI[of _ u]) (simp add: dinode_of_def file_dinode_def)
qed

end
