(* ===== verification/Namei.thy ===== *)
theory Namei
  imports Small_Fs
begin

text \<open>
  Path resolution against the directory tree on the disk. The reference is \<open>walk\<close>, a recursion over
  the components of a path that looks only at the blocks of the disk; \<^verbatim>\<open>namei\<close> goes through the
  table of inodes, locks, loads, reads directories and drops references on the way.
\<close>

section \<open>The directory tree on the disk\<close>

text \<open>A state in which slot 0 holds the inode \<open>inum\<close> as it is on the disk.\<close>

definition view :: "'e icst_scheme \<Rightarrow> nat \<Rightarrow> 'e icst_scheme" where
  "view s inum = s\<lparr>icache := [load_dinode (disk_dinode (fs_sb s) (blk s) inum) (free_inode\<lparr>i_dev := ROOTDEV\<rparr>)]\<rparr>"

definition disk_lookup :: "'e icst_scheme \<Rightarrow> nat \<Rightarrow> cptr \<Rightarrow> nat option" where
  "disk_lookup s inum name =
     map_option (\<lambda>k. de_inum (dent 0 (view s inum) k)) (find_name 0 (view s inum) name)"

definition disk_type :: "'e icst_scheme \<Rightarrow> nat \<Rightarrow> int" where
  "disk_type s inum = d_type (disk_dinode (fs_sb s) (blk s) inum)"

fun walk :: "'e icst_scheme \<Rightarrow> nat \<Rightarrow> u8 list list \<Rightarrow> nat option" where
  "walk s inum [] = Some inum"
| "walk s inum (w # ws) =
     (if disk_type s inum \<noteq> T_DIR then None
      else case disk_lookup s inum (cstr w) of None \<Rightarrow> None | Some j \<Rightarrow> walk s j ws)"

text \<open>Every inode in use has a link, and every entry of a directory leads to an inode in use.\<close>

definition inode_used :: "'e icst_scheme \<Rightarrow> nat \<Rightarrow> bool" where
  "inode_used s inum \<longleftrightarrow> inum < sb_ninodes (fs_sb s) \<and> disk_type s inum \<noteq> 0"

definition dirs_ok :: "'e icst_scheme \<Rightarrow> bool" where
  "dirs_ok s \<longleftrightarrow> (\<forall>inum. inode_used s inum \<longrightarrow> d_nlink (disk_dinode (fs_sb s) (blk s) inum) \<noteq> 0 \<and>
     (disk_type s inum = T_DIR \<longrightarrow> dir_ok 0 (view s inum) \<and>
        (\<forall>name j. disk_lookup s inum name = Some j \<longrightarrow> inode_used s j)))"

text \<open>The contents of the slots in use are those on the disk.\<close>

definition sync :: "'e icst_scheme \<Rightarrow> bool" where
  "sync s \<longleftrightarrow> (\<forall>k < NINODE. 0 < i_ref (icache s ! k) \<and> i_valid (icache s ! k) \<longrightarrow>
     dinode_of (icache s ! k) = disk_dinode (fs_sb s) (blk s) (i_inum (icache s ! k)))"

definition unlocked :: "'e icst_scheme \<Rightarrow> bool" where
  "unlocked s \<longleftrightarrow> (\<forall>k < NINODE. \<not> sl_locked (i_lock (icache s ! k)))"

definition quiet :: "'e icst_scheme \<Rightarrow> bool" where
  "quiet s \<longleftrightarrow> room 0 1 s \<and> fs_ok s \<and> held s = {} \<and> icache_ok s \<and> sync s \<and> unlocked s \<and> dirs_ok s \<and>
     (\<exists>a < NINODE. \<exists>b < NINODE. a \<noteq> b \<and> i_ref (icache s ! a) = 0 \<and> i_ref (icache s ! b) = 0)"

text \<open>The state in the middle of a resolution that began in \<open>s\<close>: only the table of inodes has changed, and
  the reference counts are those of \<open>s\<close> except for one more reference to the slot \<open>ip\<close>.\<close>

definition refs_plus :: "'e icst_scheme \<Rightarrow> 'e icst_scheme \<Rightarrow> nat option \<Rightarrow> bool" where
  "refs_plus s t r \<longleftrightarrow> (\<exists>ic. t = s\<lparr>icache := ic\<rparr>) \<and> icache_ok t \<and> sync t \<and> unlocked t \<and>
     (\<forall>k < NINODE. i_ref (icache t ! k) = i_ref (icache s ! k) + (if r = Some k then 1 else 0))"

definition at_inode :: "'e icst_scheme \<Rightarrow> 'e icst_scheme \<Rightarrow> nat \<Rightarrow> nat \<Rightarrow> bool" where
  "at_inode s t ip inum \<longleftrightarrow> refs_plus s t (Some ip) \<and> ip < NINODE \<and>
     i_dev (icache t ! ip) = ROOTDEV \<and> i_inum (icache t ! ip) = inum"

lemma view_fields [simp]:
  "blk (view s i) = blk s" "fs_sb (view s i) = fs_sb s" "i_addrs (icache (view s i) ! 0) = d_addrs (disk_dinode (fs_sb s) (blk s) i)"
  "i_size (icache (view s i) ! 0) = d_size (disk_dinode (fs_sb s) (blk s) i)"
  "i_type (icache (view s i) ! 0) = disk_type s i" "i_dev (icache (view s i) ! 0) = ROOTDEV" "length (icache (view s i)) = 1"
  by (simp_all add: view_def load_dinode_def disk_type_def)

text \<open>A slot that holds the inode of the disk has the same directory.\<close>

lemma slot_view:
  assumes "dinode_of (icache t ! ip) = disk_dinode (fs_sb s) (blk s) inum" "blk t = blk s" "fs_sb t = fs_sb s"
  shows "tree ip t p = tree 0 (view s inum) p" "dent ip t k = dent 0 (view s inum) k"
    "find_name ip t name = find_name 0 (view s inum) name"
    "i_type (icache t ! ip) = disk_type s inum" "i_nlink (icache t ! ip) = d_nlink (disk_dinode (fs_sb s) (blk s) inum)"
    "i_size (icache t ! ip) = d_size (disk_dinode (fs_sb s) (blk s) inum)"
proof -
  have f: "i_addrs (icache t ! ip) = d_addrs (disk_dinode (fs_sb s) (blk s) inum)"
    "i_size (icache t ! ip) = d_size (disk_dinode (fs_sb s) (blk s) inum)"
    using assms(1)[symmetric] by (simp_all add: dinode_of_def)
  show t: "tree ip t p = tree 0 (view s inum) p" for p using f assms(2) by (simp add: tree_def)
  show d: "dent ip t k = dent 0 (view s inum) k" for k
    using assms(2) by (simp add: dent_def file_bytes_def file_byte_def[abs_def] Let_def t cong: if_cong)
  show "find_name ip t name = find_name 0 (view s inum) name"
    using f by (simp add: find_name_def ndents_def d)
  show "i_type (icache t ! ip) = disk_type s inum" "i_nlink (icache t ! ip) = d_nlink (disk_dinode (fs_sb s) (blk s) inum)"
    "i_size (icache t ! ip) = d_size (disk_dinode (fs_sb s) (blk s) inum)"
    using assms(1)[symmetric] by (simp_all add: dinode_of_def disk_type_def)
qed

lemma slot_dir_ok:
  assumes "dinode_of (icache t ! ip) = disk_dinode (fs_sb s) (blk s) inum" "t = s\<lparr>icache := ic\<rparr>"
    and "ip < length ic" "i_dev (icache t ! ip) = ROOTDEV"
  shows "dir_ok ip t = dir_ok 0 (view s inum)"
proof -
  have b: "blk t = blk s" "fs_sb t = fs_sb s" using assms(2) by simp_all
  note v = slot_view[OF assms(1) b]
  have db: "data_block t = data_block (view s inum)"
    using b by (simp add: data_block_def[abs_def])
  have ad: "i_addrs (icache t ! ip) = i_addrs (icache (view s inum) ! 0)"
    using assms(1)[symmetric] by (simp add: dinode_of_def)
  have "tree_ok t (i_addrs (icache t ! ip)) = tree_ok (view s inum) (i_addrs (icache (view s inum) ! 0))"
    unfolding tree_ok_def using b by (simp add: ad db)
  then show ?thesis
    using assms(2-4) v by (simp add: dir_ok_def itree_ok_def no_hole_def)
qed

section \<open>The steps\<close>

text \<open>The slot \<open>ip\<close> locked, on top of a state between two steps.\<close>

definition locked_at :: "'e icst_scheme \<Rightarrow> 'e icst_scheme \<Rightarrow> nat \<Rightarrow> nat \<Rightarrow> bool" where
  "locked_at s t ip inum \<longleftrightarrow> (\<exists>t0 i. at_inode s t0 ip inum \<and> t = t0\<lparr>icache := (icache t0)[ip := i]\<rparr> \<and>
     dinode_of i = disk_dinode (fs_sb s) (blk s) inum \<and> i_valid i \<and> i_lock i = \<lparr>sl_locked = True, sl_pid = fs_pid s\<rparr> \<and>
     i_dev i = ROOTDEV \<and> i_inum i = inum \<and> i_ref i = i_ref (icache t0 ! ip))"

lemma at_inodeD:
  assumes "at_inode s t ip inum" "quiet s"
  shows "\<exists>ic. t = s\<lparr>icache := ic\<rparr>" "ip < length (icache t)" "length (icache t) = NINODE" "icache_ok t" "sync t"
    "unlocked t" "1 \<le> i_ref (icache t ! ip)" "room 0 1 t" "fs_ok t" "held t = {}" "fs_pid t = fs_pid s"
    "blk t = blk s" "fs_sb t = fs_sb s"
proof -
  obtain ic where t: "t = s\<lparr>icache := ic\<rparr>" using assms(1) by (auto simp: at_inode_def refs_plus_def)
  show "\<exists>ic. t = s\<lparr>icache := ic\<rparr>" using t by blast
  show ok: "icache_ok t" "sync t" "unlocked t" using assms(1) by (auto simp: at_inode_def refs_plus_def)
  have ip: "ip < NINODE" "i_ref (icache t ! ip) = i_ref (icache s ! ip) + 1"
    using assms(1) by (simp_all add: at_inode_def refs_plus_def)
  have "icache_ok s" using assms(2) by (simp add: quiet_def)
  then have "0 \<le> i_ref (icache s ! ip)" using ip(1) by (simp add: icache_ok_def)
  with ip show "1 \<le> i_ref (icache t ! ip)" by simp
  show len: "length (icache t) = NINODE" using ok(1) by (simp add: icache_ok_def)
  with ip show "ip < length (icache t)" by simp
  show "room 0 1 t" "fs_ok t" "held t = {}" "fs_pid t = fs_pid s" "blk t = blk s" "fs_sb t = fs_sb s"
    using assms(2) by (auto simp: t quiet_def room_def fs_ok_def)
qed

lemma ilock_at:
  assumes at: "at_inode s t ip inum" and q: "quiet s" and u: "inode_used s inum"
  shows "\<exists>t'. ilock (Some ip) t = Inr ((), t') \<and> locked_at s t' ip inum"
proof -
  note d = at_inodeD[OF at q]
  let ?d = "disk_dinode (fs_sb s) (blk s) inum" and ?i = "icache t ! ip"
  have n: "ip < NINODE" "i_dev ?i = ROOTDEV" "i_inum ?i = inum" using at by (simp_all add: at_inode_def)
  have unl: "\<not> sl_locked (i_lock ?i)" using d(6) n by (simp add: unlocked_def)
  have fin: ?thesis if "ilock (Some ip) t = Inr ((), upd_ino ip f t)" "dinode_of (f ?i) = ?d" "i_valid (f ?i)"
    "i_lock (f ?i) = \<lparr>sl_locked = True, sl_pid = fs_pid s\<rparr>" "i_dev (f ?i) = i_dev ?i" "i_inum (f ?i) = i_inum ?i"
    "i_ref (f ?i) = i_ref ?i" for f
    using that at n unfolding locked_at_def
    by (intro exI[of _ "upd_ino ip f t"] conjI exI[of _ t] exI[of _ "f ?i"]) (simp_all add: upd_ino_def)
  show ?thesis
  proof (cases "i_valid ?i")
    case True
    have "dinode_of ?i = ?d" using d(5,7,12,13) True n by (simp add: sync_def)
    then show ?thesis
      using True d(11) by (intro fin[OF ilock_cached[OF d(2,7) unl]]) (simp_all add: taken_def dinode_of_def)
  next
    case False
    have "ino_readable inum t"
      using ino_readable_fs[OF d(9,10)] u d(13) by (simp add: inode_used_def)
    then have lk: "ilock (Some ip) t = Inr ((), upd_ino ip (\<lambda>i. (load_dinode ?d (taken (fs_pid t) i))\<lparr>i_valid := True\<rparr>) t)"
      using ilock_load[OF d(2,7) unl False n(2), of 0 0 ?d] d(8,12,13) n(3) u by (simp add: inode_used_def disk_type_def)
    show ?thesis
      by (rule fin[OF lk]) (simp_all add: d(11) taken_def dinode_of_def load_dinode_def)
  qed
qed

lemma iunlockput_held:
  assumes ip: "ip < length (icache t)" and lk: "i_lock (icache t ! ip) = \<lparr>sl_locked = True, sl_pid = fs_pid t\<rparr>"
    and r: "1 \<le> i_ref (icache t ! ip)" and n: "i_nlink (icache t ! ip) \<noteq> 0"
  shows "iunlockput (Some ip) t = Inr ((), upd_ino ip (\<lambda>i. i\<lparr>i_lock := initsleeplock, i_ref := i_ref i - 1\<rparr>) t)"
proof -
  have un: "iunlock (Some ip) t = Inr ((), upd_ino ip (\<lambda>i. i\<lparr>i_lock := initsleeplock\<rparr>) t)"
    using ip lk r by (intro iunlock_ok) (simp_all add: holdingsleep_def)
  let ?u = "upd_ino ip (\<lambda>i. i\<lparr>i_lock := initsleeplock\<rparr>) t"
  have lo: "lock_ino ip ?u = Inr ((), upd_ino ip (taken (fs_pid ?u)) ?u)"
    using ip by (intro lock_ino_free) (simp add: initsleeplock_def)
  show ?thesis
    using ip n un lo
    by (simp add: iunlockput_def iput_def thenK_def bindK_def getI_def getK_def whenK_def setI_def modK_def ret_def
        upd_ino_def taken_def releasesleep_def initsleeplock_def)
qed

lemma iget_any:
  assumes ok: "icache_ok t" and free: "k < NINODE" "i_ref (icache t ! k) = 0"
  shows "\<exists>nx i. iget dev j t = Inr (nx, t\<lparr>icache := (icache t)[nx := i]\<rparr>) \<and> nx < NINODE \<and> i_dev i = dev \<and> i_inum i = j \<and>
    i_ref i = i_ref (icache t ! nx) + 1 \<and> i_lock i = i_lock (icache t ! nx) \<and> dinode_of i = dinode_of (icache t ! nx) \<and>
    (0 < i_ref (icache t ! nx) \<longrightarrow> i_valid i = i_valid (icache t ! nx) \<and> i_dev (icache t ! nx) = dev \<and> i_inum (icache t ! nx) = j) \<and>
    (i_valid i \<longrightarrow> 0 < i_ref (icache t ! nx))"
proof -
  let ?P = "\<lambda>i. i_ref (icache t ! i) > 0 \<and> i_dev (icache t ! i) = dev \<and> i_inum (icache t ! i) = j"
  let ?Z = "\<lambda>i. i_ref (icache t ! i) = 0"
  show ?thesis
  proof (cases "find ?P [0..<NINODE]")
    case (Some nx)
    then have "nx < NINODE" "?P nx" by (auto simp: find_Some_iff)
    with Some show ?thesis
      by (intro exI[of _ nx] exI[of _ "(icache t ! nx)\<lparr>i_ref := i_ref (icache t ! nx) + 1\<rparr>"])
        (simp add: iget_def upd_ino_def dinode_of_def Let_def)
  next
    case None
    obtain nx where z: "find ?Z [0..<NINODE] = Some nx"
      using free by (cases "find ?Z [0..<NINODE]") (auto simp: find_None_iff)
    then have "nx < NINODE" "?Z nx" by (auto simp: find_Some_iff)
    with None z show ?thesis
      by (intro exI[of _ nx] exI[of _ "(icache t ! nx)\<lparr>i_dev := dev, i_inum := j, i_ref := 1, i_valid := False\<rparr>"])
        (simp add: iget_def upd_ino_def dinode_of_def Let_def)
  qed
qed

lemma locked_atD:
  assumes "locked_at s t ip inum" "quiet s"
  shows "\<exists>ic. t = s\<lparr>icache := ic\<rparr>" "ip < NINODE" "length (icache t) = NINODE" "icache_ok t" "sync t"
    "dinode_of (icache t ! ip) = disk_dinode (fs_sb s) (blk s) inum"
    "i_lock (icache t ! ip) = \<lparr>sl_locked = True, sl_pid = fs_pid t\<rparr>"
    "i_dev (icache t ! ip) = ROOTDEV" "i_inum (icache t ! ip) = inum"
    "k < NINODE \<Longrightarrow> i_ref (icache t ! k) = i_ref (icache s ! k) + (if k = ip then 1 else 0)"
    "k < NINODE \<Longrightarrow> k \<noteq> ip \<Longrightarrow> \<not> sl_locked (i_lock (icache t ! k))"
    "room 0 1 t" "fs_ok t" "held t = {}" "blk t = blk s" "fs_sb t = fs_sb s"
proof -
  obtain t0 i where at: "at_inode s t0 ip inum" and t: "t = t0\<lparr>icache := (icache t0)[ip := i]\<rparr>"
    and i: "dinode_of i = disk_dinode (fs_sb s) (blk s) inum" "i_lock i = \<lparr>sl_locked = True, sl_pid = fs_pid s\<rparr>"
      "i_dev i = ROOTDEV" "i_inum i = inum" "i_ref i = i_ref (icache t0 ! ip)"
    using assms(1) by (auto simp: locked_at_def)
  note d = at_inodeD[OF at assms(2)]
  have a: "i_dev (icache t0 ! ip) = ROOTDEV" "i_inum (icache t0 ! ip) = inum" "ip < NINODE"
    "\<And>k. k < NINODE \<Longrightarrow> i_ref (icache t0 ! k) = i_ref (icache s ! k) + (if k = ip then 1 else 0)"
    using at by (auto simp: at_inode_def refs_plus_def)
  have t': "t = upd_ino ip (\<lambda>_. i) t0" by (simp add: t upd_ino_def)
  show "\<exists>ic. t = s\<lparr>icache := ic\<rparr>" using d(1) t by auto
  show "ip < NINODE" "length (icache t) = NINODE" using a d(3) t by simp_all
  show "icache_ok t" unfolding t' using d(4,7) i a by (intro icache_ok_upd) auto
  show "sync t" using d(3,5,12,13) i a(3) by (auto simp: t sync_def nth_list_update)
  show "dinode_of (icache t ! ip) = disk_dinode (fs_sb s) (blk s) inum"
    "i_dev (icache t ! ip) = ROOTDEV" "i_inum (icache t ! ip) = inum"
    using i d(2) by (simp_all add: t)
  show "i_lock (icache t ! ip) = \<lparr>sl_locked = True, sl_pid = fs_pid t\<rparr>" using i d(2,11) by (simp add: t)
  show "k < NINODE \<Longrightarrow> i_ref (icache t ! k) = i_ref (icache s ! k) + (if k = ip then 1 else 0)"
    using i(5) a(4)[of k] d(2) by (cases "k = ip") (simp_all add: t)
  show "k < NINODE \<Longrightarrow> k \<noteq> ip \<Longrightarrow> \<not> sl_locked (i_lock (icache t ! k))" using d(6) by (simp add: t unlocked_def)
  show "room 0 1 t" "fs_ok t" "held t = {}" "blk t = blk s" "fs_sb t = fs_sb s"
    using d(8,9,10,12,13) by (auto simp: t room_def fs_ok_def)
qed

lemma drop_locked:
  assumes lk: "locked_at s t ip inum" and q: "quiet s" and u: "inode_used s inum"
  shows "\<exists>t'. iunlockput (Some ip) t = Inr ((), t') \<and> refs_plus s t' None"
proof -
  note d = locked_atD[OF lk q]
  let ?f = "\<lambda>i. i\<lparr>i_lock := initsleeplock, i_ref := i_ref i - 1\<rparr>"
  have r: "0 \<le> i_ref (icache s ! k)" if "k < NINODE" for k
    using q that by (simp add: quiet_def icache_ok_def)
  have n: "i_nlink (icache t ! ip) \<noteq> 0"
    using slot_view(5)[OF d(6,15,16)] q u by (simp add: quiet_def dirs_ok_def)
  have put: "iunlockput (Some ip) t = Inr ((), upd_ino ip ?f t)"
    using d(2,3) d(10)[of ip] r[of ip] n by (intro iunlockput_held[OF _ d(7)]) auto
  have ok: "icache_ok (upd_ino ip ?f t)"
    using d(2) d(10)[of ip] r[of ip] by (intro icache_ok_upd[OF d(4)]) auto
  have sy: "sync (upd_ino ip ?f t)" using d(2,3,5) d(10)[of ip] r[of ip]
    by (auto simp: sync_def nth_list_update dinode_of_def)
  have ul: "unlocked (upd_ino ip ?f t)"
    using d(2,3) d(11) by (auto simp: unlocked_def nth_list_update initsleeplock_def)
  have rf: "i_ref (icache (upd_ino ip ?f t) ! k) = i_ref (icache s ! k)" if "k < NINODE" for k
    using d(2,3) d(10)[of k] that by (cases "k = ip") simp_all
  obtain ic where "t = s\<lparr>icache := ic\<rparr>" using d(1) by blast
  then have "\<exists>ic. upd_ino ip ?f t = s\<lparr>icache := ic\<rparr>" by (auto simp: upd_ino_def)
  then show ?thesis using put ok sy ul rf by (auto simp: refs_plus_def)
qed

lemma next_free:
  assumes lk: "locked_at s t ip inum" and q: "quiet s"
  obtains k where "k < NINODE" "i_ref (icache t ! k) = 0"
proof -
  obtain a b where "a < NINODE" "b < NINODE" "a \<noteq> b" "i_ref (icache s ! a) = 0" "i_ref (icache s ! b) = 0"
    using q by (auto simp: quiet_def)
  then show thesis using that[of a] that[of b] locked_atD(10)[OF lk q] by (cases "a = ip") auto
qed

lemma step_to:
  assumes lk: "locked_at s t ip inum" and q: "quiet s" and u: "inode_used s inum"
  shows "\<exists>nx t1 t2. iget ROOTDEV j t = Inr (nx, t1) \<and> iunlockput (Some ip) t1 = Inr ((), t2) \<and> at_inode s t2 nx j"
proof -
  note d = locked_atD[OF lk q]
  obtain k where k: "k < NINODE" "i_ref (icache t ! k) = 0" by (rule next_free[OF lk q])
  obtain nx i where g: "iget ROOTDEV j t = Inr (nx, t\<lparr>icache := (icache t)[nx := i]\<rparr>)" "nx < NINODE"
    "i_dev i = ROOTDEV" "i_inum i = j" "i_ref i = i_ref (icache t ! nx) + 1" "i_lock i = i_lock (icache t ! nx)"
    "dinode_of i = dinode_of (icache t ! nx)"
    "0 < i_ref (icache t ! nx) \<longrightarrow> i_valid i = i_valid (icache t ! nx) \<and> i_dev (icache t ! nx) = ROOTDEV \<and> i_inum (icache t ! nx) = j"
    "i_valid i \<longrightarrow> 0 < i_ref (icache t ! nx)"
    using iget_any[OF d(4) k, of ROOTDEV j] by blast
  let ?t1 = "t\<lparr>icache := (icache t)[nx := i]\<rparr>" and ?f = "\<lambda>i. i\<lparr>i_lock := initsleeplock, i_ref := i_ref i - 1\<rparr>"
  let ?t2 = "upd_ino ip ?f ?t1"
  have r: "0 \<le> i_ref (icache s ! k)" if "k < NINODE" for k
    using q that by (simp add: quiet_def icache_ok_def)
  have ok1: "icache_ok ?t1" by (rule iget_cases(2)[OF d(4) g(1)])
  have ref1: "i_ref (icache ?t1 ! k) = i_ref (icache s ! k) + (if k = ip then 1 else 0) + (if k = nx then 1 else 0)"
    if "k < NINODE" for k
    using that g(2,5) d(3) d(10)[OF that] by (cases "k = nx") simp_all
  have slot1: "dinode_of (icache ?t1 ! k) = dinode_of (icache t ! k)" "i_lock (icache ?t1 ! k) = i_lock (icache t ! k)" for k
    using g(6,7) d(3) g(2) by (cases "k = nx"; simp)+
  have n: "i_nlink (icache ?t1 ! ip) \<noteq> 0"
    using slot_view(5)[of ?t1 ip s inum] slot1(1)[of ip] d(6,15,16) q u by (simp add: quiet_def dirs_ok_def)
  have put: "iunlockput (Some ip) ?t1 = Inr ((), ?t2)"
    using d(2,3,7) ref1[of ip] r[of ip] slot1(2)[of ip] n by (intro iunlockput_held) auto
  have "at_inode s ?t2 nx j"
    unfolding at_inode_def refs_plus_def
  proof (intro conjI allI impI)
    obtain ic where "t = s\<lparr>icache := ic\<rparr>" using d(1) by blast
    then show "\<exists>ic. ?t2 = s\<lparr>icache := ic\<rparr>" by (auto simp: upd_ino_def)
    show "icache_ok ?t2"
      using d(2) ref1[of ip] r[of ip] by (intro icache_ok_upd[OF ok1]) auto
    show "unlocked ?t2"
      using d(2,3) d(11) slot1(2) by (auto simp: unlocked_def nth_list_update initsleeplock_def)
    show "nx < NINODE" by (rule g(2))
    show "i_dev (icache ?t2 ! nx) = ROOTDEV" "i_inum (icache ?t2 ! nx) = j"
      using g(2,3,4) d(2,3) by (cases "nx = ip"; simp)+
    show "i_ref (icache ?t2 ! k) = i_ref (icache s ! k) + (if Some nx = Some k then 1 else 0)" if "k < NINODE" for k
      using ref1[OF that] d(2,3) by (cases "k = ip") auto
    show "sync ?t2"
      unfolding sync_def
    proof (intro allI impI)
      fix k assume k: "k < NINODE" "0 < i_ref (icache ?t2 ! k) \<and> i_valid (icache ?t2 ! k)"
      have e: "dinode_of (icache ?t2 ! k) = dinode_of (icache t ! k)"
        using slot1(1)[of k] d(2,3) by (cases "k = ip") (simp_all add: dinode_of_def)
      have v: "i_valid (icache ?t1 ! k)" "i_inum (icache ?t2 ! k) = i_inum (icache ?t1 ! k)"
        using k d(2,3) by (cases "k = ip"; simp)+
      have "0 < i_ref (icache t ! k) \<and> i_valid (icache t ! k) \<and> i_inum (icache ?t1 ! k) = i_inum (icache t ! k)"
      proof (cases "k = nx")
        case True
        then show ?thesis using g v d(3) by simp
      next
        case False
        then show ?thesis using k v d(2,3) d(10)[of k] r[of k] ref1[of k] by (cases "k = ip") auto
      qed
      then show "dinode_of (icache ?t2 ! k) = disk_dinode (fs_sb ?t2) (blk ?t2) (i_inum (icache ?t2 ! k))"
        using d(5) k e v by (simp add: sync_def)
    qed
  qed
  then show ?thesis using g(1) put by blast
qed

section \<open>Resolution\<close>

lemma same_upto_trans: "same_upto n p p' \<Longrightarrow> same_upto n p q = same_upto n p' q"
  by (induction n arbitrary: p p' q) (auto simp: same_upto_Suc)

lemma name_word:
  assumes "skipelem path name = Some (rest, name')" "0 \<notin> set path"
  obtains w where "components path = w # components rest" "same_upto DIRSIZ name' (cstr w)"
proof -
  obtain w where w: "components path = w # components rest"
    "\<forall>i < min (length w) DIRSIZ. name' i = w ! i" "length w < DIRSIZ \<longrightarrow> name' (length w) = 0"
    using skipelem_Some[OF assms(1)] by blast
  have "same_upto DIRSIZ name' (cstr w)"
    unfolding same_upto_def
  proof (intro allI impI)
    fix i assume i: "i < DIRSIZ" "\<forall>j < i. name' j \<noteq> 0"
    show "name' i = cstr w i"
    proof (cases "i < length w")
      case True
      with w(2) i show ?thesis by (simp add: cstr_def)
    next
      case False
      then have "length w = i" using w(3) i by (metis linorder_cases order.strict_trans)
      with w(3) i show ?thesis by (simp add: cstr_def)
    qed
  qed
  with w(1) show thesis by (rule that)
qed

lemma find_name_word: "same_upto DIRSIZ name (cstr w) \<Longrightarrow> find_name dp s name = find_name dp s (cstr w)"
  by (simp add: find_name_def matches_def same_upto_trans[of DIRSIZ name "cstr w"])

definition resolved :: "'e icst_scheme \<Rightarrow> nat option \<Rightarrow> nat option \<Rightarrow> 'e icst_scheme \<Rightarrow> bool" where
  "resolved s j r t = (case j of
     None \<Rightarrow> r = None \<and> refs_plus s t None
   | Some inum \<Rightarrow> (\<exists>ip. r = Some ip \<and> at_inode s t ip inum))"

lemma namex_step:
  assumes lk: "locked_at s t ip inum" and q: "quiet s" and u: "inode_used s inum" and ty: "disk_type s inum = T_DIR"
    and w: "same_upto DIRSIZ name (cstr w)"
  shows "case disk_lookup s inum (cstr w) of
      None \<Rightarrow> \<exists>t'. dirlookup ip name t = Inr (None, t) \<and> iunlockput (Some ip) t = Inr ((), t') \<and> refs_plus s t' None
    | Some j \<Rightarrow> \<exists>nx off t1 t2. dirlookup ip name t = Inr (Some (nx, off), t1) \<and> iunlockput (Some ip) t1 = Inr ((), t2) \<and>
        at_inode s t2 nx j \<and> inode_used s j"
proof -
  note d = locked_atD[OF lk q]
  note v = slot_view[OF d(6,15,16)]
  obtain ic where ic: "t = s\<lparr>icache := ic\<rparr>" using d(1) by blast
  have dv: "dir_ok 0 (view s inum)" using q u ty by (simp add: quiet_def dirs_ok_def)
  have dir: "dir_ok ip t" using d(2,3) ic dv slot_dir_ok[OF d(6) ic _ d(8)] by simp
  have rm: "room 0 (Suc 0) t" using d(12) by simp
  note look = dirlookup_ok[OF rm d(13,14) dir, of name]
  have fn: "find_name ip t name = find_name 0 (view s inum) (cstr w)"
    using v(3) find_name_word[OF w] by simp
  show ?thesis
  proof (cases "find_name 0 (view s inum) (cstr w)")
    case None
    with look fn drop_locked[OF lk q u] show ?thesis by (simp add: disk_lookup_def)
  next
    case (Some k)
    let ?j = "de_inum (dent 0 (view s inum) k)"
    have j: "disk_lookup s inum (cstr w) = Some ?j" using Some by (simp add: disk_lookup_def)
    then have uj: "inode_used s ?j" using q u ty unfolding quiet_def dirs_ok_def by blast
    obtain nx t1 t2 where "iget ROOTDEV ?j t = Inr (nx, t1)" "iunlockput (Some ip) t1 = Inr ((), t2)" "at_inode s t2 nx ?j"
      using step_to[OF lk q u, of ?j] by blast
    then show ?thesis using j uj look fn Some v(2)[of k] by (simp add: found_at_def)
  qed
qed

lemma namex_loop_ok:
  assumes q: "quiet s"
  shows "at_inode s t ip inum \<Longrightarrow> inode_used s inum \<Longrightarrow> 0 \<notin> set path \<Longrightarrow>
    runs (namex_loop ip path False name) t (\<lambda>(r, nm) t'. resolved s (walk s inum (components path)) r t')"
proof (induction path arbitrary: t ip inum name rule: length_induct)
  case (1 path)
  note IH = 1(1) and at = 1(2) and u = 1(3) and z = 1(4)
  show ?case
  proof (cases "skipelem path name")
    case None
    then show ?thesis
      using at skipelem_None[of path name] by (simp add: namex_loop.simps[of ip path] resolved_def)
  next
    case (Some x)
    then obtain rest name' where sk: "skipelem path name = Some (rest, name')" by (cases x) auto
    obtain w where w: "components path = w # components rest" "same_upto DIRSIZ name' (cstr w)"
      by (rule name_word[OF sk z])
    have zr: "0 \<notin> set rest" "length rest < length path"
      using z skipelem_shorter[OF sk] sk
      by (auto simp: skipelem_def Let_def split: if_splits dest!: set_dropWhileD)
    obtain t1 where t1: "ilock (Some ip) t = Inr ((), t1)" "locked_at s t1 ip inum"
      using ilock_at[OF at q u] by blast
    have ty: "i_type (icache t1 ! ip) = disk_type s inum"
      by (rule slot_view(4)[OF locked_atD(6,15,16)[OF t1(2) q]])
    show ?thesis
    proof (cases "disk_type s inum = T_DIR")
      case False
      obtain t2 where "iunlockput (Some ip) t1 = Inr ((), t2)" "refs_plus s t2 None"
        using drop_locked[OF t1(2) q u] by blast
      with False sk t1(1) ty w(1) show ?thesis
        by (simp add: namex_loop.simps[of ip path] wp getI_def runs_eq[of "ilock (Some ip)"] runs_eq[of "iunlockput (Some ip)"] resolved_def)
    next
      case True
      note step = namex_step[OF t1(2) q u True w(2)]
      show ?thesis
      proof (cases "disk_lookup s inum (cstr w)")
        case None
        with step obtain t2 where "dirlookup ip name' t1 = Inr (None, t1)" "iunlockput (Some ip) t1 = Inr ((), t2)"
          "refs_plus s t2 None" by auto
        with None True sk t1(1) ty w(1) show ?thesis
          by (simp add: namex_loop.simps[of ip path] wp getI_def runs_eq[of "ilock (Some ip)"] runs_eq[of "iunlockput (Some ip)"]
              runs_eq[of "dirlookup ip name'"] resolved_def)
      next
        case (Some j)
        with step obtain nx off t2 t3 where s3: "dirlookup ip name' t1 = Inr (Some (nx, off), t2)"
          "iunlockput (Some ip) t2 = Inr ((), t3)" "at_inode s t3 nx j" "inode_used s j" by auto
        from IH[rule_format, OF zr(2) s3(3,4) zr(1)] Some True sk t1(1) ty w(1) s3(1,2) show ?thesis
          by (simp add: namex_loop.simps[of ip path] wp getI_def runs_eq[of "ilock (Some ip)"] runs_eq[of "iunlockput (Some ip)"]
              runs_eq[of "dirlookup ip name'"])
      qed
    qed
  qed
qed

lemma start_root:
  assumes q: "quiet s"
  shows "\<exists>ip t. iget ROOTDEV j s = Inr (ip, t) \<and> at_inode s t ip j"
proof -
  have ok: "icache_ok s" "sync s" "unlocked s" using q by (simp_all add: quiet_def)
  obtain k where k: "k < NINODE" "i_ref (icache s ! k) = 0" using q by (auto simp: quiet_def)
  obtain nx i where g: "iget ROOTDEV j s = Inr (nx, s\<lparr>icache := (icache s)[nx := i]\<rparr>)" "nx < NINODE"
    "i_dev i = ROOTDEV" "i_inum i = j" "i_ref i = i_ref (icache s ! nx) + 1" "i_lock i = i_lock (icache s ! nx)"
    "dinode_of i = dinode_of (icache s ! nx)"
    "0 < i_ref (icache s ! nx) \<longrightarrow> i_valid i = i_valid (icache s ! nx) \<and> i_dev (icache s ! nx) = ROOTDEV \<and> i_inum (icache s ! nx) = j"
    "i_valid i \<longrightarrow> 0 < i_ref (icache s ! nx)"
    using iget_any[OF ok(1) k, of ROOTDEV j] by blast
  let ?t = "s\<lparr>icache := (icache s)[nx := i]\<rparr>"
  have len: "nx < length (icache s)" using g(2) ok(1) by (simp add: icache_ok_def)
  have "sync ?t" using ok(2) g len by (auto simp: sync_def nth_list_update)
  moreover have "unlocked ?t" using ok(3) g len by (auto simp: unlocked_def nth_list_update)
  moreover have "icache_ok ?t" by (rule iget_cases(2)[OF ok(1) g(1)])
  ultimately have "at_inode s ?t nx j"
    using g len by (auto simp: at_inode_def refs_plus_def nth_list_update)
  with g(1) show ?thesis by blast
qed

lemma start_cwd:
  assumes q: "quiet s" and d: "d < NINODE" "0 < i_ref (icache s ! d)" "i_dev (icache s ! d) = ROOTDEV"
  shows "\<exists>t. idup d s = Inr (d, t) \<and> at_inode s t d (i_inum (icache s ! d))"
proof -
  have ok: "icache_ok s" "sync s" "unlocked s" using q by (simp_all add: quiet_def)
  let ?f = "\<lambda>i. i\<lparr>i_ref := i_ref i + 1\<rparr>"
  have len: "d < length (icache s)" using d(1) ok(1) by (simp add: icache_ok_def)
  have "icache_ok (upd_ino d ?f s)" using d by (intro icache_ok_upd[OF ok(1)]) auto
  moreover have "sync (upd_ino d ?f s)" using ok(2) d len by (auto simp: sync_def nth_list_update dinode_of_def)
  moreover have "unlocked (upd_ino d ?f s)" using ok(3) d len by (auto simp: unlocked_def nth_list_update)
  moreover have "\<exists>ic. upd_ino d ?f s = s\<lparr>icache := ic\<rparr>" by (auto simp: upd_ino_def)
  ultimately have "at_inode s (upd_ino d ?f s) d (i_inum (icache s ! d))"
    using d len by (auto simp: at_inode_def refs_plus_def nth_list_update)
  then show ?thesis by (simp add: idup_def setI_def kdefs)
qed

text \<open>The inode a path starts from.\<close>

definition start_inum :: "'e icst_scheme \<Rightarrow> u8 list \<Rightarrow> nat" where
  "start_inum s path = (if path \<noteq> [] \<and> hd path = slash then ROOTINO
     else i_inum (icache s ! the (p_cwd (myproc s))))"

text \<open>(C9) \<^verbatim>\<open>namei\<close> returns the inode that the directories on the disk give for the path, starting from the root
  or from the current directory, or null where they give none: a component is missing or is not a
  directory. It changes nothing but the table of inodes, and there it leaves one more reference to the
  inode it returns and no other: every directory it passes is released, on the failing paths as well.\<close>

theorem namei_walks:
  assumes "quiet s" "0 \<notin> set path" "inode_used s (start_inum s path)"
    and "p_cwd (myproc s) = Some d" "d < NINODE" "0 < i_ref (icache s ! d)" "i_dev (icache s ! d) = ROOTDEV"
  shows "runs (namei path) s (\<lambda>r t. resolved s (walk s (start_inum s path) (components path)) r t)"
proof -
  let ?start = "if path \<noteq> [] \<and> hd path = slash then iget ROOTDEV ROOTINO
    else bindK (getK (\<lambda>s. p_cwd (myproc s))) (\<lambda>cwd. case cwd of None \<Rightarrow> stopK (Fault ''cwd'') | Some d \<Rightarrow> idup d)"
  obtain ip t where t: "?start s = Inr (ip, t)" "at_inode s t ip (start_inum s path)"
  proof (cases "path \<noteq> [] \<and> hd path = slash")
    case True
    with start_root[OF assms(1), of ROOTINO] that show ?thesis by (auto simp: start_inum_def)
  next
    case False
    obtain t where u: "idup d s = Inr (d, t)" "at_inode s t d (i_inum (icache s ! d))"
      using start_cwd[OF assms(1,5-7)] by blast
    have "?start s = Inr (d, t)" unfolding if_not_P[OF False] using u(1) assms(4) by (simp add: bindK_getK)
    moreover have "start_inum s path = i_inum (icache s ! d)"
      unfolding start_inum_def if_not_P[OF False] using assms(4) by simp
    ultimately show ?thesis using that u(2) by metis
  qed
  have "namex path False (\<lambda>_. 0) s = namex_loop ip path False (\<lambda>_. 0) t"
    unfolding namex_def by (rule bindK_eq[of ?start, OF t(1)])
  moreover obtain r nm t' where "namex_loop ip path False (\<lambda>_. 0) t = Inr ((r, nm), t')"
    "resolved s (walk s (start_inum s path) (components path)) r t'"
    by (rule runsE[OF namex_loop_ok[OF assms(1) t(2) assms(3,2), of "\<lambda>_. 0"]]) auto
  ultimately show ?thesis by (simp add: namei_def wp runs_eq[of "namex path False (\<lambda>_. 0)"])
qed

lemma small_view:
  shows "find_name 0 (view (small_fs e) 1) name = find_name 0 (small_fs e) name"
    "dent 0 (view (small_fs e) 1) k = dent 0 (small_fs e) k" "dir_ok 0 (view (small_fs e) 1)"
proof -
  have d: "dinode_of (icache (small_fs e) ! 0) = disk_dinode (fs_sb (small_fs e)) (blk (small_fs e)) 1"
    using small_dinode(1)[of 1] by (simp add: cached_def)
  note v = slot_view[OF d refl refl]
  show "find_name 0 (view (small_fs e) 1) name = find_name 0 (small_fs e) name"
    "dent 0 (view (small_fs e) 1) k = dent 0 (small_fs e) k" using v(2,3) by simp_all
  have "small_fs e = (small_fs e)\<lparr>icache := icache (small_fs e)\<rparr>" by simp
  from slot_dir_ok[OF d this] dir_small[of e] show "dir_ok 0 (view (small_fs e) 1)"
    by (simp add: ROOTDEV_def)
qed

lemma small_used: "inode_used (small_fs e) inum \<longleftrightarrow> inum = 1 \<or> inum = 2"
  using small_dinode[of inum] by (auto simp: inode_used_def disk_type_def)

lemma small_lookup: "disk_lookup (small_fs e) 1 name = Some j \<Longrightarrow> j = 1"
proof -
  have "find_name 0 (small_fs e) name = Some k \<Longrightarrow> de_inum (dent 0 (small_fs e) k) = 1" for k
    by (auto simp: find_name_def small_ndents numeral_2_eq_2 small_dents split: if_splits)
  moreover assume "disk_lookup (small_fs e) 1 name = Some j"
  ultimately show "j = 1" unfolding disk_lookup_def small_view by auto
qed

lemma dirs_ok_small: "dirs_ok (small_fs e)"
  using small_lookup[of e] small_view(3)[of e] small_dinode(1)[of 1] small_dinode(2)[of 2]
  unfolding dirs_ok_def small_used disk_type_def
  by auto

lemma quiet_small: "quiet (small_fs e)"
proof -
  have "sync (small_fs e)"
    using small_dinode(1)[of 1] small_dinode(2)[of 2] by (simp add: sync_def small_slot)
  moreover have "unlocked (small_fs e)" by (simp add: unlocked_def small_slot initsleeplock_def)
  moreover have "i_ref (icache (small_fs e) ! 2) = 0" "i_ref (icache (small_fs e) ! 3) = 0" by (simp_all add: small_slot)
  ultimately show ?thesis
    unfolding quiet_def using dirs_ok_small[of e]
    by (intro conjI exI[of _ 2] exI[of _ 3]) (simp_all add: room_small fs_ok_small icache_ok_small)
qed

theorem namei_walks_witness:
  "runs (namei [47, 46, 46]) (small_fs ()) (\<lambda>r t. \<exists>ip. r = Some ip \<and> at_inode (small_fs ()) t ip 1) \<and>
   runs (namei [97]) (small_fs ()) (\<lambda>r t. r = None \<and> refs_plus (small_fs ()) t None)"
proof -
  have cwd: "p_cwd (myproc (small_fs ())) = Some 0" by (simp add: small_proc_def)
  have ty: "disk_type (small_fs ()) 1 = T_DIR" using small_dinode(1)[of 1] by (simp add: disk_type_def)
  have start: "start_inum (small_fs ()) p = 1" for p by (simp add: start_inum_def small_proc_def ROOTINO_def)
  have comp: "components [47, 46, 46] = [[46, 46]]" "components [97] = [[97]]"
    by (simp_all add: components_def)
  have "matches (cstr [46, 46]) (dent 0 (small_fs ()) 1)"
    by (simp add: small_dents matches_def same_upto_def cstr_def nth_Cons')
  then have "disk_lookup (small_fs ()) 1 (cstr [46, 46]) = Some 1"
    unfolding disk_lookup_def small_view by (auto simp: find_name_def small_ndents numeral_2_eq_2 small_dents)
  then have w: "walk (small_fs ()) 1 [[46, 46]] = Some 1" using ty by simp
  have "disk_lookup (small_fs ()) 1 (cstr [97]) = None"
    unfolding disk_lookup_def small_view using small_no_name[of "cstr [97]" "()"] by (simp add: cstr_def)
  then have n: "walk (small_fs ()) 1 [[97]] = None" using ty by simp
  note nw = namei_walks[OF quiet_small _ _ cwd, unfolded start small_used]
  from nw[of "[47, 46, 46]"] nw[of "[97]"] show ?thesis
    unfolding comp w n resolved_def by (simp add: ROOTDEV_def)
qed

end
