(* ===== verification/Small_Mem.thy ===== *)
theory Small_Mem
  imports Uvm Small_Fs
begin

text \<open>
  Concrete states of the kernel memory for the theorems above it: the small file system of theory
  \<open>Small_Fs\<close> with \<open>n\<close> free pages from 4 MB of physical memory on, as \<^verbatim>\<open>freerange\<close> leaves them. The
  kernel's data begins at 1 MB and one page.
\<close>

definition page_list :: "nat \<Rightarrow> nat list" where
  "page_list n = map (\<lambda>i. 2151677952 + 4096 * i) [0..<n]"

definition small_mem :: "nat \<Rightarrow> 'e \<Rightarrow> 'e memst_scheme" where
  "small_mem n e = fold freed (page_list n) (small_fs (memst_ext (\<lambda>_. 0) 0 2151677952 2148536320 0 0 e))"

lemma fold_freed_shape: "\<exists>m f. fold freed ps s = s\<lparr>kmem := m, kfreelist := f\<rparr>"
proof (induction ps arbitrary: s)
  case Nil
  show ?case by (intro exI[of _ "kmem s"] exI[of _ "kfreelist s"]) simp
next
  case (Cons p ps)
  from Cons.IH[of "freed p s"] obtain m f where "fold freed ps (freed p s) = (freed p s)\<lparr>kmem := m, kfreelist := f\<rparr>"
    by blast
  then show ?case by (intro exI[of _ m] exI[of _ f]) (simp add: freed_def[of p s])
qed

lemma fold_freed_ok:
  "kmem_ok xs s \<Longrightarrow> distinct ps \<Longrightarrow> set ps \<inter> set xs = {} \<Longrightarrow> \<forall>p \<in> set ps. free_page (kend s) p \<Longrightarrow>
   kmem_ok (rev ps @ xs) (fold freed ps s)"
proof (induction ps arbitrary: s xs)
  case (Cons p ps)
  from Cons.prems have "kmem_ok (p # xs) (freed p s)" by (intro kfree_push(2)) auto
  from Cons.IH[OF this] Cons.prems show ?case by simp
qed simp

lemma page_list_ok:
  assumes "n \<le> 50000"
  shows "distinct (page_list n)" "length (page_list n) = n" "p \<in> set (page_list n) \<Longrightarrow> free_page 2151677952 p"
proof -
  show "distinct (page_list n)" "length (page_list n) = n"
    by (auto simp: page_list_def distinct_map inj_on_def)
  assume "p \<in> set (page_list n)"
  then obtain i where i: "i < n" "p = 2151677952 + 4096 * i" by (auto simp: page_list_def)
  have "p mod 4096 = 0" using i by (simp add: mod_add_eq)
  moreover have "p < 2361393152" using i assms by simp
  moreover have "V2P p = p - 2147483648"
    using calculation(2) i u32_wrap[of "p - 2147483648"] by (simp add: V2P_def)
  ultimately show "free_page 2151677952 p" using i by (simp add: free_page_def)
qed

lemma small_mem_fields [simp]:
  "kend (small_mem n e) = 2151677952" "kdata (small_mem n e) = 2148536320"
  "ptable (small_mem n e) = small_proc # replicate 63 zero_proc" "curproc (small_mem n e) = 0"
  using fold_freed_shape[of "page_list n" "small_fs (memst_ext (\<lambda>_. 0) 0 2151677952 2148536320 0 0 e)"]
  by (auto simp: small_mem_def small_fs_def)

lemma kmem_small:
  assumes "n \<le> 50000"
  shows "kmem_ok (rev (page_list n)) (small_mem n e)"
proof -
  let ?s = "small_fs (memst_ext (\<lambda>_. 0) 0 2151677952 2148536320 0 0 e)"
  have "kmem_ok [] ?s" by (simp add: kmem_ok_def small_fs_def)
  from fold_freed_ok[OF this page_list_ok(1)[OF assms]] page_list_ok(3)[OF assms] show ?thesis
    by (simp add: small_mem_def) (simp add: small_fs_def)
qed

lemma kdata_small: "kdata_ok (kdata (small_mem n e))"
  by (simp add: kdata_ok_def P2V_def u32_def)

end
