(* ===== verification/Mem_Theorems.thy ===== *)
theory Mem_Theorems
  imports Small_Mem Sysargs
begin

text \<open>
  The theorems of the memory system: the page allocator under any sequence of operations and any use of
  the pages it has handed out, the kernel's part of every page table, growing, copying and writing
  the memory of a process.
\<close>

section \<open>The page allocator\<close>

text \<open>The allocator with its clients: \<open>H\<close> are the pages in their hands, into which they write what they
  like.\<close>

inductive kstep :: "'e memst_scheme \<times> nat set \<Rightarrow> 'e memst_scheme \<times> nat set \<Rightarrow> bool" where
  k_alloc: "kalloc s = Inr (r, t) \<Longrightarrow> r \<noteq> 0 \<Longrightarrow> kstep (s, H) (t, insert r H)"
| k_none: "kalloc s = Inr (0, t) \<Longrightarrow> kstep (s, H) (t, H)"
| k_free: "v \<in> H \<Longrightarrow> kfree v s = Inr ((), t) \<Longrightarrow> kstep (s, H) (t, H - {v})"
| k_use: "(\<And>x. (\<And>v. v \<in> H \<Longrightarrow> \<not> in_page v x) \<Longrightarrow> m x = kmem s x) \<Longrightarrow> kstep (s, H) (s\<lparr>kmem := m\<rparr>, H)"

definition kinv :: "nat \<Rightarrow> nat list \<Rightarrow> 'e memst_scheme \<times> nat set \<Rightarrow> bool" where
  "kinv n xs p = (case p of (s, H) \<Rightarrow> kmem_ok xs s \<and> set xs \<inter> H = {} \<and> finite H \<and>
     (\<forall>v \<in> H. free_page (kend s) v) \<and> length xs + card H = n)"

lemma kinv_step:
  assumes "kstep p q" "kinv n xs p"
  shows "\<exists>ys. kinv n ys q"
  using assms
proof (induction arbitrary: xs rule: kstep.induct)
  case (k_alloc s r t H)
  then obtain ys where xs: "xs = r # ys" "t = s\<lparr>kfreelist := ld32 (kmem s) r\<rparr>"
    using kalloc_empty[of s] kalloc_pop(1)[of _ _ s] by (cases xs) (auto simp: kinv_def)
  with k_alloc have "kmem_ok ys t" by (auto simp: kinv_def dest: kalloc_pop(2))
  with k_alloc xs show ?case by (intro exI[of _ ys]) (auto simp: kinv_def kmem_ok_def)
next
  case (k_none s t H)
  then have "t = s"
    using kalloc_empty[of s] kalloc_pop(1)[of _ _ s] by (cases xs) (auto simp: kinv_def kmem_ok_def)
  with k_none show ?case by auto
next
  case (k_free v H s t)
  then have v: "free_page (kend s) v" "v \<notin> set xs" "kmem_ok xs s" by (auto simp: kinv_def)
  with k_free have "t = freed v s" "kmem_ok (v # xs) t" using kfree_push[OF v(3,1,2)] by auto
  moreover have "card H = Suc (card (H - {v}))" using k_free by (intro card.remove) (auto simp: kinv_def)
  ultimately show ?case using k_free by (intro exI[of _ "v # xs"]) (auto simp: kinv_def)
next
  case (k_use H m s)
  have same: "m y = kmem s y" if "x \<in> set xs" "in_page x y" for x y
  proof (rule k_use(1))
    fix v assume v: "v \<in> H"
    have "set xs \<inter> H = {}" "\<forall>x \<in> set xs. free_page (kend s) x" "\<forall>v \<in> H. free_page (kend s) v"
      using k_use(2) by (simp_all add: kinv_def kmem_ok_def)
    with v that(1) have "x mod PGSIZE = 0" "v mod PGSIZE = 0" "x \<noteq> v" by (auto simp: free_page_def)
    from pages_apart[OF this that(2)] show "\<not> in_page v y" .
  qed
  have "kmem_ok xs (s\<lparr>kmem := m\<rparr>)"
  proof (rule kmem_ok_frame[of xs s])
    show "kmem_ok xs s" using k_use(2) by (simp add: kinv_def)
  qed (simp_all add: same)
  with k_use(2) show ?case by (intro exI[of _ xs]) (auto simp: kinv_def)
qed

text \<open>(C14) From a free list of \<open>n\<close> pages, whatever the clients do with the pages they hold: \<^verbatim>\<open>kalloc\<close> never
  returns a page that is in use, it returns null exactly when all \<open>n\<close> pages are in use (no page is lost), and
  \<^verbatim>\<open>kfree\<close> of a page in use never panics.\<close>

theorem page_allocator_safe:
  assumes "kmem_ok xs s" "kstep\<^sup>*\<^sup>* (s, {}) (t, H)"
  shows "(\<exists>r u. kalloc t = Inr (r, u) \<and> (if card H = length xs then r = 0 \<and> u = t
      else r \<noteq> 0 \<and> r \<notin> H \<and> r mod PGSIZE = 0 \<and> (\<forall>v \<in> H. \<forall>x. in_page r x \<longrightarrow> \<not> in_page v x))) \<and>
    (\<forall>v \<in> H. \<exists>u. kfree v t = Inr ((), u))"
proof -
  have "\<exists>ys. kinv (length xs) ys (t, H)"
    using assms(2)
  proof (induction rule: rtranclp_induct)
    case base
    show ?case using assms(1) by (intro exI[of _ xs]) (simp add: kinv_def)
  next
    case (step p q)
    then show ?case using kinv_step by blast
  qed
  then obtain ys where k: "kmem_ok ys t" "set ys \<inter> H = {}" "\<forall>v \<in> H. free_page (kend t) v" "length ys + card H = length xs"
    by (auto simp: kinv_def)
  have "\<exists>u. kfree v t = Inr ((), u)" if "v \<in> H" for v
    using kfree_push(1)[OF k(1), of v] k that by auto
  moreover have "\<exists>r u. kalloc t = Inr (r, u) \<and> (if card H = length xs then r = 0 \<and> u = t
      else r \<noteq> 0 \<and> r \<notin> H \<and> r mod PGSIZE = 0 \<and> (\<forall>v \<in> H. \<forall>x. in_page r x \<longrightarrow> \<not> in_page v x))"
  proof (cases ys)
    case Nil
    then show ?thesis using k kalloc_empty[of t] by simp
  next
    case (Cons r zs)
    have al: "r mod PGSIZE = 0" "r \<noteq> 0" using k(1) Cons by (auto simp: kmem_ok_def free_page_def)
    have rH: "r \<notin> H" using k(2) Cons by auto
    have ap: "\<not> in_page v x" if "v \<in> H" "in_page r x" for v x
    proof -
      have "v mod PGSIZE = 0" "r \<noteq> v" using k(3) that(1) rH by (auto simp: free_page_def)
      from pages_apart[OF al(1) this that(2)] show ?thesis .
    qed
    have "card H \<noteq> length xs" using k(4) Cons by simp
    moreover have "kalloc t = Inr (r, t\<lparr>kfreelist := ld32 (kmem t) r\<rparr>)" using kalloc_pop(1)[of r zs t] k(1) Cons by simp
    moreover have "\<forall>v \<in> H. \<forall>x. in_page r x \<longrightarrow> \<not> in_page v x" using ap by blast
    ultimately show ?thesis
      using al rH by (intro exI[of _ r] exI[of _ "t\<lparr>kfreelist := ld32 (kmem t) r\<rparr>"]) simp
  qed
  ultimately show ?thesis by blast
qed

lemma small_pages: "rev (page_list 3) = [2151686144, 2151682048, 2151677952]"
  by (simp add: page_list_def upt_conv_Cons)

theorem page_allocator_safe_witness:
  "\<exists>t. kalloc (small_mem 3 ()) = Inr (2151686144, t) \<and> (\<exists>r u. kalloc t = Inr (r, u) \<and> r \<noteq> 0 \<and> r \<noteq> 2151686144) \<and>
     (\<exists>u. kfree 2151686144 t = Inr ((), u))"
proof -
  have ok: "kmem_ok [2151686144, 2151682048, 2151677952] (small_mem 3 ())"
    using kmem_small[of 3 "()"] by (simp add: small_pages)
  from kalloc_pop(1)[OF ok] obtain t where t: "kalloc (small_mem 3 ()) = Inr (2151686144, t)" by blast
  have "kstep\<^sup>*\<^sup>* (small_mem 3 (), {}) (t, {2151686144})" using k_alloc[OF t, of "{}"] by auto
  from page_allocator_safe[OF ok this] t show ?thesis by auto
qed

section \<open>Page tables\<close>

text \<open>The physical address and the rights of a virtual address.\<close>

definition phys :: "mem \<Rightarrow> nat \<Rightarrow> nat \<Rightarrow> (nat \<times> bool \<times> bool) option" where
  "phys m d va = map_option (\<lambda>e. (PTE_ADDR e + va mod PGSIZE, has_flag e PTE_W, has_flag e PTE_U)) (entry_of m d va)"

lemma has_flag_low:
  assumes "f < 4096"
  shows "has_flag (4096 * j + f) PTE_W = has_flag f PTE_W" "has_flag (4096 * j + f) PTE_U = has_flag f PTE_U"
proof -
  have "(4096 * j + f) AND b = f AND b" if "b < 4096" for b :: nat
  proof -
    have "take_bit 12 b = b" using that by (simp add: take_bit_eq_mod)
    then have "(4096 * j + f) AND b = take_bit 12 (4096 * j + f) AND take_bit 12 b"
      by (metis and.assoc and.commute take_bit_and take_bit_eq_mask)
    also have "take_bit 12 (4096 * j + f) = take_bit 12 f" by (simp add: take_bit_eq_mod)
    finally show ?thesis by (metis \<open>take_bit 12 b = b\<close> and.assoc and.commute take_bit_and take_bit_eq_mask)
  qed
  from this[of 2] this[of 4]
  show "has_flag (4096 * j + f) PTE_W = has_flag f PTE_W" "has_flag (4096 * j + f) PTE_U = has_flag f PTE_U"
    by (simp_all add: has_flag_def)
qed

lemma flags_of [simp]:
  "\<not> has_flag 1 PTE_W" "has_flag 3 PTE_W" "\<not> has_flag 1 PTE_U" "\<not> has_flag 3 PTE_U" "has_flag 7 PTE_W" "has_flag 7 PTE_U"
  by (simp_all add: has_flag_def)

text \<open>(C15) The page table that \<^verbatim>\<open>setupkvm\<close> builds: nothing below \<^verbatim>\<open>KERNBASE\<close>; the physical memory at
  \<^verbatim>\<open>KERNBASE\<close>, writable except for the kernel's text and read-only data; the devices at their own addresses; and no
  address that user code can reach.\<close>

theorem setupkvm_maps:
  assumes "kmem_ok xs s" "1025 \<le> length xs" "kdata_ok (kdata s)"
  shows "\<exists>d t. setupkvm s = Inr (d, t) \<and> d \<noteq> 0 \<and> (\<forall>va < 4294967296. phys (kmem t) d va =
    (if KERNBASE \<le> va \<and> va < KERNBASE + PHYSTOP
     then Some (va - KERNBASE, \<not> (KERNBASE + 1048576 \<le> va \<and> va < kdata s), False)
     else if 4261412864 \<le> va then Some (va, True, False) else None))"
proof -
  obtain d zs ys t where st: "setupkvm s = Inr (d, t)" "d \<noteq> 0"
    and e: "\<And>va. va < 4294967296 \<Longrightarrow> entry_of (kmem t) d va = kpart (kdata s div PGSIZE) (va div PGSIZE)"
    by (rule setupkvm_ok[OF assms]) blast
  obtain kd where kd: "kdata s = 4096 * kd" using assms(3) by (auto simp: kdata_ok_def)
  have pte: "PTE_ADDR (4096 * j + f) = 4096 * j" if "f < 4096" for j f
    using PTE_add[of "4096 * j" f] that by simp
  have "phys (kmem t) d va =
    (if KERNBASE \<le> va \<and> va < KERNBASE + PHYSTOP
     then Some (va - KERNBASE, \<not> (KERNBASE + 1048576 \<le> va \<and> va < kdata s), False)
     else if 4261412864 \<le> va then Some (va, True, False) else None)" if va: "va < 4294967296" for va
  proof -
    define j r where "j = va div 4096" and "r = va mod 4096"
    have v: "va = 4096 * j + r" "r < 4096" by (simp_all add: j_def r_def)
    have c: "KERNBASE \<le> va \<longleftrightarrow> 524288 \<le> j" "va < KERNBASE + PHYSTOP \<longleftrightarrow> j < 581632" "4261412864 \<le> va \<longleftrightarrow> 1040384 \<le> j"
      "KERNBASE + 1048576 \<le> va \<longleftrightarrow> 524544 \<le> j" "va < kdata s \<longleftrightarrow> j < kd" "j < 1048576"
      using v va kd by auto
    have p: "phys (kmem t) d va = map_option (\<lambda>e. (PTE_ADDR e + r, has_flag e PTE_W, has_flag e PTE_U)) (kpart kd j)"
      using e[OF va] kd by (simp add: phys_def j_def r_def)
    define q where "q = j - 524288"
    have k: "kpart kd j = (if 524288 \<le> j \<and> j < 581632 then Some (4096 * q + (if 524544 \<le> j \<and> j < kd then 1 else 3))
        else if 1040384 \<le> j then Some (4096 * j + 3) else None)"
      using c(6) by (simp add: kpart_def q_def)
    have "va - KERNBASE = 4096 * q + r" if "524288 \<le> j" using that v by (simp add: q_def)
    with p k c(1-5) v(1) show ?thesis by (simp add: pte has_flag_low del: One_nat_def)
  qed
  with st show ?thesis by blast
qed

theorem setupkvm_maps_witness:
  "\<exists>d t. setupkvm (small_mem 1100 ()) = Inr (d, t) \<and> phys (kmem t) d 2148532224 = Some (1048576, False, False) \<and>
     phys (kmem t) d 4096 = None"
proof -
  have "length (rev (page_list 1100)) = 1100" using page_list_ok(2)[of 1100] by simp
  then obtain d t where st: "setupkvm (small_mem 1100 ()) = Inr (d, t)"
    and p: "\<forall>va < 4294967296. phys (kmem t) d va =
      (if KERNBASE \<le> va \<and> va < KERNBASE + PHYSTOP
       then Some (va - KERNBASE, \<not> (KERNBASE + 1048576 \<le> va \<and> va < 2148536320), False)
       else if 4261412864 \<le> va then Some (va, True, False) else None)"
    using setupkvm_maps[OF kmem_small[of 1100 "()"] _ kdata_small] by auto
  from p[rule_format, of 2148532224] p[rule_format, of 4096] st show ?thesis by auto
qed

section \<open>The memory of a process\<close>

lemma free_small32: "kmem_ok (zs @ ys) s \<Longrightarrow> \<forall>x \<in> set zs. x mod 4096 = 0 \<and> x < 4294967296"
  by (simp add: kmem_ok_def free_page_def)

lemma new_rangeD:
  assumes "new_range d a b flags C zs fr s t" "va < 4294967296"
  shows "a \<le> va div PGSIZE \<Longrightarrow> va div PGSIZE < b \<Longrightarrow> fr (va div PGSIZE) \<in> set zs"
    "a \<le> va div PGSIZE \<Longrightarrow> va div PGSIZE < b \<Longrightarrow>
      entry_of (kmem t) d va = Some (V2P (fr (va div PGSIZE)) + flags (va div PGSIZE))"
    "\<not> (a \<le> va div PGSIZE \<and> va div PGSIZE < b) \<Longrightarrow> entry_of (kmem t) d va = entry_of (kmem s) d va"
  using assms unfolding new_range_def by simp_all blast

text \<open>(C16) Growing the memory of a process with \<^verbatim>\<open>allocuvm\<close> gives zeroed pages that the process may read and
  write, up to the new size, and changes no other translation of the page table; the pages come from the free list
  and what remains there is still a free list.\<close>

theorem allocuvm_grows:
  assumes "vm_ok d xs s" "oldsz \<le> newsz" "newsz < KERNBASE" "2 * (pgup newsz - pgup oldsz) \<le> length xs"
    and "\<And>va. va < 4294967296 \<Longrightarrow> pgup oldsz \<le> va div PGSIZE \<Longrightarrow> va div PGSIZE < pgup newsz \<Longrightarrow> entry_of (kmem s) d va = None"
  shows "\<exists>t zs ys. allocuvm d oldsz newsz s = Inr (newsz, t) \<and> xs = zs @ ys \<and> vm_ok d ys t \<and>
    (\<forall>va < 4294967296. if pgup oldsz \<le> va div PGSIZE \<and> va div PGSIZE < pgup newsz
       then ubyte (kmem t) d va = Some 0 \<and> map_option snd (phys (kmem t) d va) = Some (True, True)
       else entry_of (kmem t) d va = entry_of (kmem s) d va)"
proof -
  obtain t fr zs ys where t: "allocuvm d oldsz newsz s = Inr (newsz, t)" "xs = zs @ ys" "vm_step d zs ys s t"
    and r: "new_range d (pgup oldsz) (pgup newsz) (\<lambda>_. 7) (\<lambda>_ _. 0) zs fr s t"
    using allocuvm_ok[OF assms] by blast
  have zs: "\<forall>x \<in> set zs. x mod 4096 = 0 \<and> x < 4294967296"
    using assms(1) t(2) free_small32[of zs ys s] by (simp add: vm_ok_def)
  have "if pgup oldsz \<le> va div PGSIZE \<and> va div PGSIZE < pgup newsz
       then ubyte (kmem t) d va = Some 0 \<and> map_option snd (phys (kmem t) d va) = Some (True, True)
       else entry_of (kmem t) d va = entry_of (kmem s) d va" if va: "va < 4294967296" for va
  proof (cases "pgup oldsz \<le> va div PGSIZE \<and> va div PGSIZE < pgup newsz")
    case True
    have e: "entry_of (kmem t) d va = Some (V2P (fr (va div PGSIZE)) + 7)" "fr (va div PGSIZE) \<in> set zs"
      using new_rangeD(1,2)[OF r va] True by simp_all
    have "fr (va div PGSIZE) mod 4096 = 0" using e(2) zs by blast
    then obtain q where q: "V2P (fr (va div PGSIZE)) = 4096 * q" by (rule V2P_page)
    have "has_flag (4096 * q + 7) PTE_W" "has_flag (4096 * q + 7) PTE_U" using has_flag_low[of 7 q] by simp_all
    with True e q new_range_byte(1)[OF r zs va] show ?thesis by (simp add: phys_def)
  next
    case False
    with new_rangeD(3)[OF r va] show ?thesis by (simp only: if_False simp_thms)
  qed
  with t vm_stepD(1)[OF t(3)] show ?thesis by blast
qed

text \<open>A process with \<open>k\<close> fresh pages, on 4000 pages of memory.\<close>

lemma small_space:
  obtains d ys t where "setupkvm (small_mem 4000 e) = Inr (d, t)" "d \<noteq> 0" "vm_ok d ys t" "2900 \<le> length ys"
    "\<And>va. va < KERNBASE \<Longrightarrow> entry_of (kmem t) d va = None" "\<exists>m f. t = (small_mem 4000 e)\<lparr>kmem := m, kfreelist := f\<rparr>"
proof -
  have len: "length (rev (page_list 4000)) = 4000" using page_list_ok(2)[of 4000] by simp
  then have l: "1025 \<le> length (rev (page_list 4000))" by simp
  have k: "kmem_ok (rev (page_list 4000)) (small_mem 4000 e)" by (rule kmem_small) simp
  obtain d zs ys t where st: "setupkvm (small_mem 4000 e) = Inr (d, t)" "d \<noteq> 0"
    and xs: "rev (page_list 4000) = d # zs @ ys" and ok: "vm_ok d ys t"
    and sh: "\<exists>m f. t = (small_mem 4000 e)\<lparr>kmem := m, kfreelist := f\<rparr>"
    and en: "\<And>va. va < 4294967296 \<Longrightarrow> entry_of (kmem t) d va = kpart (kdata (small_mem 4000 e) div PGSIZE) (va div PGSIZE)"
    and zs: "length zs \<le> 1024"
    by (rule setupkvm_ok[OF k l kdata_small]) blast
  have "2900 \<le> length ys" using len zs arg_cong[OF xs, of length] by simp
  moreover have "entry_of (kmem t) d va = None" if "va < KERNBASE" for va
  proof -
    have "va div PGSIZE < 524288" using that by (simp add: less_mult_imp_div_less)
    with that en[of va] show ?thesis by (simp add: kpart_def)
  qed
  ultimately show thesis using that[OF st ok _ _ sh] by blast
qed

theorem allocuvm_grows_witness:
  "\<exists>d t u. setupkvm (small_mem 4000 ()) = Inr (d, t) \<and> allocuvm d 0 8192 t = Inr (8192, u) \<and>
     ubyte (kmem u) d 5000 = Some 0 \<and> entry_of (kmem u) d 8192 = None"
proof -
  obtain d ys t where s: "setupkvm (small_mem 4000 ()) = Inr (d, t)" "vm_ok d ys t" "2900 \<le> length ys"
    and none: "\<And>va. va < KERNBASE \<Longrightarrow> entry_of (kmem t) d va = None"
    by (rule small_space[of "()"]) blast
  have p: "pgup 8192 = 2" "pgup 0 = 0" by (simp_all add: pgup_def)
  have "entry_of (kmem t) d va = None" if "va div PGSIZE < 2" for va
    by (rule none) (use that in \<open>simp add: div_less_iff_less_mult\<close>)
  then obtain u where u: "allocuvm d 0 8192 t = Inr (8192, u)"
    and e: "\<forall>va < 4294967296. if pgup 0 \<le> va div PGSIZE \<and> va div PGSIZE < pgup 8192
       then ubyte (kmem u) d va = Some 0 \<and> map_option snd (phys (kmem u) d va) = Some (True, True)
       else entry_of (kmem u) d va = entry_of (kmem t) d va"
    using allocuvm_grows[OF s(2), of 0 8192] s(3) by (auto simp: p)
  from e[rule_format, of 5000] e[rule_format, of 8192] none[of 8192] u s(1) show ?thesis by (auto simp: p)
qed

lemma new_range_frames:
  assumes r: "new_range d 0 n (\<lambda>_. 7) C zs fr s t" and st: "vm_step d zs ys s t" and ok: "kmem_ok (zs @ ys) s" and n: "n \<le> 524288"
  shows "user_map (kmem t) d n" "user_ok (kmem t) d n ys"
proof -
  have zs: "\<forall>x \<in> set zs. x mod 4096 = 0 \<and> x < 4294967296" by (rule free_small32[OF ok])
  have z: "\<forall>x \<in> set zs. x \<noteq> 0" "set zs \<inter> set ys = {}" using ok by (auto simp: kmem_ok_def free_page_def)
  have pt: "pt_ok (kmem t) d" "set ys \<inter> pt_pages (kmem t) d = {}" using vm_stepD(1)[OF st] by (simp_all add: vm_ok_def)
  have e: "entry_of (kmem t) d (4096 * j) = Some (V2P (fr j) + 7)" "fr j \<in> set zs" "fr j \<notin> pt_pages (kmem t) d" if "j < n" for j
    using new_rangeD(1,2)[OF r, of "4096 * j"] r that n by (simp_all add: new_range_def)
  have f: "P2V (PTE_ADDR (V2P (fr j) + 7)) = fr j" if "j < n" for j
  proof -
    have "fr j mod 4096 = 0" "fr j < 4294967296" using e(2)[OF that] zs by blast+
    with PTE_add[OF V2P_aligned, of "fr j" 7] P2V_V2P[of "fr j"] show ?thesis by simp
  qed
  have fl: "has_flag (V2P (fr j) + 7) PTE_U" if "j < n" for j
  proof -
    have "fr j mod 4096 = 0" using e(2)[OF that] zs by blast
    then obtain q where "V2P (fr j) = 4096 * q" by (rule V2P_page)
    then show ?thesis using has_flag_low(2)[of 7 q] by simp
  qed
  have fr: "frame (kmem t) d j = fr j" if "j < n" for j using e(1)[OF that] f[OF that] by (simp add: frame_def)
  have "inj_on (frame (kmem t) d) {..<n}"
    using r fr by (auto simp: new_range_def inj_on_def)
  then show "user_map (kmem t) d n"
    using pt(1) n e fl fr z(1) by (simp add: user_map_def)
  have "user_frames (kmem t) d n \<subseteq> set zs" using e f by (auto simp: user_frames_def)
  then show "user_ok (kmem t) d n ys" using pt e(1) z(2) by (auto simp: user_ok_def)
qed

lemma frames_apart:
  assumes u: "user_ok m0 pd n xs" and r: "r \<in> set xs" "r mod PGSIZE = 0" "map_option fst (mmu m d va) = Some (r + va mod PGSIZE)"
    and va': "va' < 4096 * n" "mmu m pd va' = mmu m0 pd va'"
  shows "map_option fst (mmu m d va) \<noteq> map_option fst (mmu m pd va')"
proof
  assume eq: "map_option fst (mmu m d va) = map_option fst (mmu m pd va')"
  have j: "va' div PGSIZE < n" using va'(1) by (simp add: less_mult_imp_div_less mult.commute)
  then obtain e where e: "entry_of m0 pd (4096 * (va' div PGSIZE)) = Some e" using u by (auto simp: user_ok_def)
  then have "mmu m0 pd va' = Some (P2V (PTE_ADDR e) + va' mod PGSIZE, PTE_FLAGS e)"
    using entry_of_page[of "4096 * (va' div PGSIZE)" va'] by (simp add: mmu_def)
  with va'(2) eq r(3) have x: "r + va mod PGSIZE = P2V (PTE_ADDR e) + va' mod PGSIZE" by simp
  have "P2V (PTE_ADDR e) \<in> user_frames m0 pd n" using e j by (auto simp: user_frames_def)
  then have "r \<noteq> P2V (PTE_ADDR e)" using r(1) u by (auto simp: user_ok_def)
  moreover have "in_page r (r + va mod PGSIZE)" "in_page (P2V (PTE_ADDR e)) (r + va mod PGSIZE)"
    by (simp add: in_page_def) (simp add: x in_page_def)
  ultimately show False using pages_apart[of r "P2V (PTE_ADDR e)"] r(2) by simp
qed

text \<open>A process with two pages.\<close>

lemma small_user:
  obtains d ys t where "vm_ok d ys t" "user_map (kmem t) d 2" "user_ok (kmem t) d 2 ys" "2800 \<le> length ys"
    "\<exists>m f. t = (small_mem 4000 e)\<lparr>kmem := m, kfreelist := f\<rparr>" "\<forall>va < 8192. ubyte (kmem t) d va = Some 0"
proof -
  obtain d ys t where s: "vm_ok d ys t" "2900 \<le> length ys"
    and none: "\<And>va. va < KERNBASE \<Longrightarrow> entry_of (kmem t) d va = None"
    and sh: "\<exists>m f. t = (small_mem 4000 e)\<lparr>kmem := m, kfreelist := f\<rparr>"
    by (rule small_space[of e]) blast
  have p: "pgup 8192 = 2" "pgup 0 = 0" by (simp_all add: pgup_def)
  have nn: "entry_of (kmem t) d va = None" if "va div PGSIZE < 2" for va
    by (rule none) (use that in \<open>simp add: div_less_iff_less_mult\<close>)
  obtain u fr zs ys' where u: "ys = zs @ ys'" "vm_step d zs ys' t u"
    and r: "new_range d 0 2 (\<lambda>_. 7) (\<lambda>_ _. 0) zs fr t u" and l: "length zs \<le> 4"
    using allocuvm_ok[OF s(1), of 0 8192] s(2) nn by (simp add: p) blast
  have k: "kmem_ok (zs @ ys') t" using s(1) u(1) by (simp add: vm_ok_def)
  have "ubyte (kmem u) d va = Some 0" if "va < 8192" for va
    using new_range_byte(1)[OF r free_small32[OF k], of va] that by (simp add: div_less_iff_less_mult)
  moreover have "2800 \<le> length ys'" using s(2) u(1) l by simp
  moreover obtain m f where "u = t\<lparr>kmem := m, kfreelist := f\<rparr>" using vm_stepD(2)[OF u(2)] by blast
  with sh have "\<exists>m f. u = (small_mem 4000 e)\<lparr>kmem := m, kfreelist := f\<rparr>" by (elim exE) (rule exI[of _ m], rule exI[of _ f], simp)
  ultimately show thesis
    using that[OF vm_stepD(1)[OF u(2)]] new_range_frames[OF r u(2) k] by simp
qed

text \<open>(C17) The address space that \<^verbatim>\<open>copyuvm\<close> makes for \<^verbatim>\<open>fork\<close>: below the size of the parent every
  byte and every right is the parent's, the parent sees what it saw before, and no byte of memory is shared by the
  two, so that neither can observe a later store of the other.\<close>

theorem copyuvm_copies:
  assumes "kmem_ok xs s" "kdata_ok (kdata s)" "user_ok (kmem s) pd (pgup sz) xs" "sz < KERNBASE" "1025 + 2 * pgup sz \<le> length xs"
  shows "\<exists>d t. copyuvm pd sz s = Inr (d, t) \<and> d \<noteq> 0 \<and> (\<forall>va < 4096 * pgup sz. \<exists>b. ubyte (kmem s) pd va = Some b \<and>
    ubyte (kmem t) d va = Some b \<and> ubyte (kmem t) pd va = Some b \<and>
    map_option snd (mmu (kmem t) d va) = map_option snd (mmu (kmem s) pd va) \<and>
    (\<forall>va' < 4096 * pgup sz. map_option fst (mmu (kmem t) d va) \<noteq> map_option fst (mmu (kmem t) pd va')))"
proof -
  obtain d t where t: "copyuvm pd sz s = Inr (d, t)" "d \<noteq> 0"
    and c: "\<forall>va < 4096 * pgup sz. (\<exists>r \<in> set xs. map_option fst (mmu (kmem t) d va) = Some (r + va mod PGSIZE)) \<and>
       ubyte (kmem s) pd va \<noteq> None \<and> ubyte (kmem t) d va = ubyte (kmem s) pd va \<and>
       map_option snd (mmu (kmem t) d va) = map_option snd (mmu (kmem s) pd va) \<and>
       mmu (kmem t) pd va = mmu (kmem s) pd va \<and> ubyte (kmem t) pd va = ubyte (kmem s) pd va"
    using copyuvm_ok[OF assms] by blast
  have al: "r mod PGSIZE = 0" if "r \<in> set xs" for r using that assms(1) by (simp add: kmem_ok_def free_page_def)
  have ap: "map_option fst (mmu (kmem t) d va) \<noteq> map_option fst (mmu (kmem t) pd va')"
    if va: "va < 4096 * pgup sz" "va' < 4096 * pgup sz" for va va'
  proof -
    obtain r where r: "r \<in> set xs" "map_option fst (mmu (kmem t) d va) = Some (r + va mod PGSIZE)" using c va(1) by blast
    show ?thesis by (rule frames_apart[OF assms(3) r(1) al[OF r(1)] r(2) va(2)]) (use c va(2) in blast)
  qed
  with t c show ?thesis by (intro exI[of _ d] exI[of _ t]) auto
qed

theorem copyuvm_copies_witness:
  "\<exists>pd s d t. copyuvm pd 8192 (s :: unit memst_scheme) = Inr (d, t) \<and> ubyte (kmem t) d 5000 = Some 0 \<and>
     map_option fst (mmu (kmem t) d 5000) \<noteq> map_option fst (mmu (kmem t) pd 5000)"
proof -
  obtain pd ys s where s: "vm_ok pd ys s" "user_ok (kmem s) pd 2 ys" "2800 \<le> length ys"
    "\<exists>m f. s = (small_mem 4000 ())\<lparr>kmem := m, kfreelist := f\<rparr>" and z: "\<forall>va < 8192. ubyte (kmem s) pd va = Some 0"
    by (rule small_user[of "()"]) blast
  have p: "pgup 8192 = 2" by (simp add: pgup_def)
  have k: "kmem_ok ys s" "kdata_ok (kdata s)" using s(1,4) kdata_small[of 4000 "()"] by (auto simp: vm_ok_def)
  have len: "1025 + 2 * pgup 8192 \<le> length ys" "user_ok (kmem s) pd (pgup 8192) ys" using s(2,3) by (simp_all add: p)
  obtain d t where t: "copyuvm pd 8192 s = Inr (d, t)"
    and c: "\<forall>va < 4096 * pgup 8192. \<exists>b. ubyte (kmem s) pd va = Some b \<and>
      ubyte (kmem t) d va = Some b \<and> ubyte (kmem t) pd va = Some b \<and>
      map_option snd (mmu (kmem t) d va) = map_option snd (mmu (kmem s) pd va) \<and>
      (\<forall>va' < 4096 * pgup 8192. map_option fst (mmu (kmem t) d va) \<noteq> map_option fst (mmu (kmem t) pd va'))"
    using copyuvm_copies[OF k len(2) _ len(1)] by auto
  have "ubyte (kmem t) d 5000 = Some 0" "map_option fst (mmu (kmem t) d 5000) \<noteq> map_option fst (mmu (kmem t) pd 5000)"
    using c[rule_format, of 5000] z[rule_format, of 5000] by (auto simp: p)
  with t show ?thesis by blast
qed

end
