(* ===== verification/Trap_Theorems.thy ===== *)
theory Trap_Theorems
  imports Arg_Theorems Trap
begin

text \<open>
  Theorems about traps and the system calls of \<^verbatim>\<open>sysproc.c\<close>: memory that is allocated on first use, a
  fault beyond the size of the process, and a system call argument in memory that was never touched.
\<close>

section \<open>Allocation on first use\<close>

text \<open>A process of 8192 bytes none of which has been touched.\<close>

lemma small_lazy:
  obtains d ys and s :: "'e memst_scheme" where "vm_ok d ys (run_user d s)" "2900 \<le> length ys" "d \<noteq> 0"
    "\<And>va. va < KERNBASE \<Longrightarrow> entry_of (kmem s) d va = None"
proof -
  obtain d ys and s :: "'e memst_scheme" where "vm_ok d ys s" "2900 \<le> length ys" "d \<noteq> 0"
    "\<And>va. va < KERNBASE \<Longrightarrow> entry_of (kmem s) d va = None" by (rule small_space) blast
  then show thesis using that[of d ys s] by (simp add: vm_ok_def kmem_ok_def run_user_def)
qed



text \<open>(C21) A fault at an address beyond the page of the end of the process: the handler maps nothing, changes
  nothing and returns to the instruction that faulted, which faults again.\<close>

theorem page_fault_beyond_size:
  fixes s :: "'e procst_scheme"
  assumes "p_sz (myproc s) \<le> PGROUNDDOWN va" "p_kstack (myproc s) \<noteq> 0" "p_pgdir (myproc s) \<noteq> 0"
  shows "page_fault va s = Inr ((), s\<lparr>cr3 := V2P (p_pgdir (myproc s))\<rparr>)"
proof -
  have "pages_from (PGROUNDDOWN va) (p_sz (myproc s)) = []" using assms(1) by (simp add: pages_from_def)
  then have "allocPage (p_pgdir (myproc s)) va (p_sz (myproc s)) s = Inr (1, s)"
    by (simp add: allocPage_def bindK_def ret_def)
  with assms(2,3) show ?thesis by (simp add: page_fault_def bindK_getK bindK_def switchuvm_def modK_def getK_def)
qed

theorem page_fault_beyond_size_witness:
  "\<exists>d (s :: unit procst_scheme). page_fault 8192 (run_user d s) = Inr ((), (run_user d s)\<lparr>cr3 := V2P d\<rparr>)"
proof -
  obtain d ys and s :: "unit procst_scheme" where "vm_ok d ys (run_user d s)" "d \<noteq> 0" by (rule small_lazy) blast
  with page_fault_beyond_size[of "run_user d s" 8192]
  have "page_fault 8192 (run_user d s) = Inr ((), (run_user d s)\<lparr>cr3 := V2P d\<rparr>)" by (simp add: PGROUNDDOWN_def)
  then show ?thesis by blast
qed

section \<open>Arguments in memory that is not there\<close>



end
