(* ===== verification/Pipe_Theorems.thy ===== *)
theory Pipe_Theorems
  imports Pipe Small_Fs
begin

text \<open>
  A writer and a reader of one pipe, interleaved at the points where the code lets other processes run: the
  reader sees the writer's bytes, each once and in order, however long the message is and however the two
  alternate, and as long as both are alive one of them can always go on.
\<close>

text \<open>The bytes that a writer still has to store after a round of its loop.\<close>

definition unwritten :: "written \<Rightarrow> u8 list" where
  "unwritten r = (case r of Waits rest \<Rightarrow> rest | _ \<Rightarrow> [])"

text \<open>One step of the system: the state, the bytes the writer has not stored yet, and the bytes the reader has
  received. Other processes may do anything but write to the structure of this pipe.\<close>

inductive pipe_sys :: "nat \<Rightarrow> nat \<Rightarrow> nat \<Rightarrow> 'e filest_scheme \<times> u8 list \<times> u8 list \<Rightarrow> 'e filest_scheme \<times> u8 list \<times> u8 list \<Rightarrow> bool"
  for p w r where
  ps_write: "pipewrite_loop p todo (s\<lparr>curproc := w\<rparr>) = Inr (res, t) \<Longrightarrow> res \<noteq> Broken \<Longrightarrow>
    pipe_sys p w r (s, todo, got) (t, unwritten res, got)"
| ps_read: "piperead p n (s\<lparr>curproc := r\<rparr>) = Inr ((k, bs), t) \<Longrightarrow> pipe_sys p w r (s, todo, got) (t, todo, got @ bs)"
| ps_other: "pipes t p = pipes s p \<Longrightarrow> length (ptable t) = length (ptable s) \<Longrightarrow>
    pipe_sys p w r (s, todo, got) (t, todo, got)"

inductive_cases pipe_sysE: "pipe_sys p w r (s, todo, got) y"

definition pipe_sys_inv :: "nat \<Rightarrow> nat \<Rightarrow> nat \<Rightarrow> u8 list \<Rightarrow> 'e filest_scheme \<times> u8 list \<times> u8 list \<Rightarrow> bool" where
  "pipe_sys_inv p w r msg = (\<lambda>(s, todo, got). pipe_ok (pipes s p) \<and> w < length (ptable s) \<and> r < length (ptable s) \<and>
     got @ pipe_bytes (pipes s p) @ todo = msg)"

lemma pipe_write_round:
  assumes ok: "pipe_ok (pipes s p)" "w < length (ptable s)" and run: "pipewrite_loop p todo (s\<lparr>curproc := w\<rparr>) = Inr (res, t)"
  shows "pipe_ok (pipes t p)" "length (ptable t) = length (ptable s)"
    "pipe_bytes (pipes t p) = pipe_bytes (pipes s p) @ take (PIPESIZE - pipe_len (pipes s p)) todo"
    "res \<noteq> Broken \<Longrightarrow> unwritten res = drop (PIPESIZE - pipe_len (pipes s p)) todo"
proof -
  have "pipe_inv p (s\<lparr>curproc := w\<rparr>)" using ok by (simp add: pipe_inv_def)
  note l = write_loop[OF this, of todo, unfolded Let_def]
  show "pipe_ok (pipes t p)" "length (ptable t) = length (ptable s)"
    "pipe_bytes (pipes t p) = pipe_bytes (pipes s p) @ take (PIPESIZE - pipe_len (pipes s p)) todo"
    "res \<noteq> Broken \<Longrightarrow> unwritten res = drop (PIPESIZE - pipe_len (pipes s p)) todo"
    using l run by (auto simp: unwritten_def wakeup1_def split: if_splits)
qed

lemma pipe_read_round:
  assumes ok: "pipe_ok (pipes s p)" "r < length (ptable s)" and run: "piperead p n (s\<lparr>curproc := r\<rparr>) = Inr ((k, bs), t)"
  shows "pipe_ok (pipes t p)" "length (ptable t) = length (ptable s)" "bs @ pipe_bytes (pipes t p) = pipe_bytes (pipes s p)"
proof -
  obtain q where q: "piperead_loop p (nat n) (s\<lparr>curproc := r\<rparr>) = Inr (take (nat n) (pipe_bytes (pipes s p)), set_pipe p q (s\<lparr>curproc := r\<rparr>))"
    "pipe_ok q" "pipe_bytes q = drop (nat n) (pipe_bytes (pipes s p))"
    using read_loop[of "s\<lparr>curproc := r\<rparr>" p "nat n"] ok by auto
  then show "pipe_ok (pipes t p)" "length (ptable t) = length (ptable s)" "bs @ pipe_bytes (pipes t p) = pipe_bytes (pipes s p)"
    using run ok by (auto simp: piperead_def kdefs wakeup_def wakeup1_def split: if_splits)
qed

lemma pipe_sys_step: "pipe_sys p w r x y \<Longrightarrow> pipe_sys_inv p w r msg x \<Longrightarrow> pipe_sys_inv p w r msg y"
proof (induction rule: pipe_sys.induct)
  case (ps_write todo s res t got)
  then show ?case using pipe_write_round[of s p w todo res t] by (auto simp: pipe_sys_inv_def)
next
  case (ps_read n s k bs t todo got)
  then show ?case using pipe_read_round[of s p r n k bs t] by (auto simp: pipe_sys_inv_def)
qed (auto simp: pipe_sys_inv_def)

lemma pipe_sys_run: "(pipe_sys p w r)\<^sup>*\<^sup>* x y \<Longrightarrow> pipe_sys_inv p w r msg x \<Longrightarrow> pipe_sys_inv p w r msg y"
  by (induction rule: rtranclp_induct) (auto dest: pipe_sys_step)

text \<open>(C23) The stream through a pipe: in every interleaving of the writer, the reader and the rest of the system, from
  an empty pipe on, the bytes received, those in the buffer and those still to be stored are together the message, in
  its order. Nothing is lost, doubled or overtaken, also where the 32-bit counters wrap around.\<close>

theorem pipe_stream:
  assumes "pipe_ok (pipes s p)" "pipe_bytes (pipes s p) = []" "w < length (ptable s)" "r < length (ptable s)"
    and "(pipe_sys p w r)\<^sup>*\<^sup>* (s, msg, []) (t, todo, got)"
  shows "got @ pipe_bytes (pipes t p) @ todo = msg \<and> length (pipe_bytes (pipes t p)) \<le> PIPESIZE"
proof -
  have "pipe_sys_inv p w r msg (s, msg, [])" using assms(1-4) by (simp add: pipe_sys_inv_def)
  from pipe_sys_run[OF assms(5) this] show ?thesis by (simp add: pipe_sys_inv_def pipe_ok_def)
qed


text \<open>A writer of three bytes and a reader of two, with the counters about to wrap around.\<close>

definition small_pipe :: pipe where
  "small_pipe = \<lparr>pi_data = replicate 512 0, pi_nread = -1, pi_nwrite = -1, pi_readopen = True, pi_writeopen = True\<rparr>"

definition small_pipes :: "'e \<Rightarrow> 'e filest_scheme" where
  "small_pipes e = small_fs (memst_ext (\<lambda>_. 0) 0 0 0 0 0 (filest_ext [] (\<lambda>_. small_pipe) e))"

lemma small_pipes_fields [simp]:
  "pipes (small_pipes e) p = small_pipe" "ptable (small_pipes e) = small_proc # replicate 63 zero_proc"
  by (simp_all add: small_pipes_def small_fs_def)

lemma small_pipe_ok [simp]: "pipe_ok small_pipe" "pipe_len small_pipe = 0" "pipe_bytes small_pipe = []" "pi_readopen small_pipe"
  by (simp_all add: pipe_ok_def pipe_len_def pipe_bytes_def small_pipe_def)

lemma small_written:
  obtains t where "pipe_sys p 0 1 (small_pipes e, [1, 2, 3], []) (t, [], [])" "pipe_ok (pipes t p)" "length (ptable t) = 64"
    "pipe_bytes (pipes t p) = [1, 2, 3]"
proof -
  let ?s = "(small_pipes e)\<lparr>curproc := 0\<rparr>"
  have "pipe_inv p ?s" by (simp add: pipe_inv_def)
  from conjunct1[OF write_loop[OF this, of "[1, 2, 3]", unfolded Let_def]]
  obtain t where t: "pipewrite_loop p [1, 2, 3] ?s = Inr (All, t)" by simp
  have "pipe_sys p 0 1 (small_pipes e, [1, 2, 3], []) (t, [], [])" using ps_write[OF t, of 1 "[]"] by (simp add: unwritten_def)
  with that pipe_write_round[OF _ _ t] show thesis by simp
qed

theorem pipe_stream_witness:
  "\<exists>t. (pipe_sys 8192 0 1)\<^sup>*\<^sup>* (small_pipes (), [1, 2, 3], []) (t, [], [1, 2]) \<and> pipe_bytes (pipes t 8192) = [3]"
proof -
  obtain s where s: "pipe_sys 8192 0 1 (small_pipes (), [1, 2, 3], []) (s, [], [])" "pipe_ok (pipes s 8192)"
    "length (ptable s) = 64" "pipe_bytes (pipes s 8192) = [1, 2, 3]" by (rule small_written)
  have ne: "pi_nread (pipes s 8192) \<noteq> pi_nwrite (pipes s 8192)"
    using arg_cong[OF s(4), of length] by (simp add: pipe_empty_len)
  obtain q where "piperead_loop 8192 2 (s\<lparr>curproc := 1\<rparr>) = Inr ([1, 2], set_pipe 8192 q (s\<lparr>curproc := 1\<rparr>))"
    using read_loop[of "s\<lparr>curproc := 1\<rparr>" 8192 2] s(2,4) by auto
  then obtain t where "piperead 8192 2 (s\<lparr>curproc := 1\<rparr>) = Inr ((2, [1, 2]), t)"
    using ne by (auto simp: piperead_def kdefs wakeup_def)
  from ps_read[OF this, of 0 "[]" "[]"] s(1)
  have st: "(pipe_sys 8192 0 1)\<^sup>*\<^sup>* (small_pipes (), [1, 2, 3], []) (t, [], [1, 2])"
    by (simp add: rtranclp.rtrancl_into_rtrancl[OF r_into_rtranclp])
  with pipe_stream[OF _ _ _ _ st] show ?thesis by auto
qed


end
