(* ===== verification/Console_Theorems.thy ===== *)
theory Console_Theorems
  imports Small_Fs
begin

text \<open>
  Theorems about the console. Numbers print to their decimal or hexadecimal digits; the input buffer with its
  three wrapping indices is a line editor; and a line that is typed is what \<^verbatim>\<open>consoleread\<close> returns.
\<close>

section \<open>Printing numbers\<close>

definition digit_value :: "nat \<Rightarrow> nat" where
  "digit_value c = (if c < 58 then c - 48 else c - 87)"

definition digits_value :: "nat \<Rightarrow> nat list \<Rightarrow> nat" where
  "digits_value base cs = foldl (\<lambda>n c. n * base + digit_value c) 0 cs"

definition number_value :: "nat \<Rightarrow> nat list \<Rightarrow> int" where
  "number_value base cs = (case cs of c # cs' \<Rightarrow> if c = 45 then - int (digits_value base cs') else int (digits_value base cs) | [] \<Rightarrow> 0)"

lemma digits_value_snoc: "digits_value base (cs @ [c]) = digits_value base cs * base + digit_value c"
  by (simp add: digits_value_def)

lemma digit_value_digit: "d < 16 \<Longrightarrow> digit_value (digit d) = d" "d < 16 \<Longrightarrow> digit d \<noteq> 45"
  by (auto simp: digit_value_def digit_def)

lemma print_digits_value:
  assumes "2 \<le> base" "base \<le> 16" "x < base ^ Suc n"
  shows "\<exists>ds. print_digits (Suc n) base x = Some ds \<and> digits_value base (rev ds) = x \<and> ds \<noteq> [] \<and> length ds \<le> Suc n \<and>
    hd (rev ds) \<noteq> 45"
  using assms(3)
proof (induction n arbitrary: x)
  case 0
  then have "x div base = 0" "x mod base = x" "x < 16" using assms by simp_all
  then show ?case by (simp add: digits_value_def digit_value_digit)
next
  case (Suc n)
  have b: "x mod base < 16" using assms(1,2) mod_less_divisor[of base x] by linarith
  show ?case
  proof (cases "x div base = 0")
    case True
    then show ?thesis using b assms(1) by (simp add: digits_value_def digit_value_digit div_eq_0_iff)
  next
    case False
    have "x div base < base ^ Suc n" using Suc.prems by (simp add: less_mult_imp_div_less mult.commute)
    from Suc.IH[OF this] obtain ds where ds: "print_digits (Suc n) base (x div base) = Some ds"
      "digits_value base (rev ds) = x div base" "ds \<noteq> []" "length ds \<le> Suc n" "hd (rev ds) \<noteq> 45" by blast
    have "print_digits (Suc (Suc n)) base x = Some (digit (x mod base) # ds)"
      using False ds(1) by (simp only: print_digits.simps(2)[of "Suc n"]) simp
    then show ?thesis
      using ds(2-5) b by (intro exI[of _ "digit (x mod base) # ds"]) (simp add: digits_value_snoc digit_value_digit)
  qed
qed

lemma print_digits_more: "print_digits n base x = Some ds \<Longrightarrow> n \<le> m \<Longrightarrow> print_digits m base x = Some ds"
proof (induction n base x arbitrary: ds m rule: print_digits.induct)
  case (2 n base x)
  from 2(3) obtain k where k: "m = Suc k" "n \<le> k" by (cases m) auto
  show ?case
  proof (cases "x div base = 0")
    case False
    with 2(2) obtain ds' where "print_digits n base (x div base) = Some ds'" "ds = digit (x mod base) # ds'" by auto
    with 2(1)[OF False this(1) k(2)] False k(1) show ?thesis by simp
  qed (use 2(2) k(1) in simp)
qed simp

text \<open>(C27) \<^verbatim>\<open>printint\<close> on every 32-bit argument: its buffer of 16 characters is never overrun, and what it prints
  reads back as the number, for signed decimal numbers the most negative one included, and for hexadecimal ones as
  the unsigned value.\<close>

theorem printint_reads_back:
  assumes "- 2147483648 \<le> xx" "xx < 4294967296"
  shows "\<exists>ds hs. printint xx 16 False = Some hs \<and> number_value 16 hs = xx mod 4294967296 \<and> length hs \<le> 8 \<and>
    (xx < 2147483648 \<longrightarrow> printint xx 10 True = Some ds \<and> number_value 10 ds = xx \<and> length ds \<le> 11)"
proof -
  have nv: "number_value base (rev ds) = int (digits_value base (rev ds))" if "ds \<noteq> []" "hd (rev ds) \<noteq> 45" for base ds
    using that by (cases "rev ds") (auto simp: number_value_def)
  note more = print_digits_more[where m = 16]
  define x where "x = nat (xx mod 4294967296)"
  have "x < 16 ^ Suc 7" unfolding x_def by simp
  from print_digits_value[OF _ _ this] obtain hs where hs: "print_digits (Suc 7) 16 x = Some hs" "digits_value 16 (rev hs) = x"
    "hs \<noteq> []" "length hs \<le> 8" "hd (rev hs) \<noteq> 45" by auto
  have h: "printint xx 16 False = Some (rev hs)" "number_value 16 (rev hs) = xx mod 4294967296"
    using more[OF hs(1)] nv[OF hs(3,5)] hs(2) by (simp_all add: printint_def x_def)
  define y where "y = nat ((if xx < 0 then - xx else xx) mod 4294967296)"
  have "y < 10 ^ Suc 9" unfolding y_def by simp
  from print_digits_value[OF _ _ this] obtain ds where ds: "print_digits (Suc 9) 10 y = Some ds" "digits_value 10 (rev ds) = y"
    "ds \<noteq> []" "length ds \<le> 10" "hd (rev ds) \<noteq> 45" by auto
  have d: "printint xx 10 True = Some (if xx < 0 then 45 # rev ds else rev ds)"
    using more[OF ds(1)] ds(4) by (simp add: printint_def y_def)
  have "number_value 10 (if xx < 0 then 45 # rev ds else rev ds) = xx" if "xx < 2147483648"
    using nv[OF ds(3,5), of 10] ds(2) assms that by (auto simp: number_value_def y_def)
  then show ?thesis
    using h d hs(4) ds(4)
    by - (rule exI[of _ "if xx < 0 then 45 # rev ds else rev ds"], rule exI[of _ "rev hs"], simp)
qed

theorem printint_reads_back_witness:
  "\<exists>ds. printint (- 2147483648) 10 True = Some ds \<and> number_value 10 ds = - 2147483648 \<and> length ds \<le> 11"
  using printint_reads_back[of "- 2147483648"] by auto

section \<open>The line editor\<close>

text \<open>The characters in the buffer from the read index to the edit index; those before the write index are
  ready for a reader, the others are the line being typed.\<close>

definition cons_ready_len :: "'e conss_scheme \<Rightarrow> nat" where
  "cons_ready_len s = unat (in_w s - in_r s)"

definition cons_len :: "'e conss_scheme \<Rightarrow> nat" where
  "cons_len s = unat (in_e s - in_r s)"

definition cons_all :: "'e conss_scheme \<Rightarrow> nat list" where
  "cons_all s = map (\<lambda>i. in_at s (in_r s + of_nat i)) [0..<cons_len s]"

definition cons_ready :: "'e conss_scheme \<Rightarrow> nat list" where
  "cons_ready s = take (cons_ready_len s) (cons_all s)"

definition cons_line :: "'e conss_scheme \<Rightarrow> nat list" where
  "cons_line s = drop (cons_ready_len s) (cons_all s)"

definition cons_ok :: "'e conss_scheme \<Rightarrow> bool" where
  "cons_ok s \<longleftrightarrow> length (in_buf s) = INPUT_BUF \<and> cons_ready_len s \<le> cons_len s \<and> cons_len s \<le> INPUT_BUF \<and>
     newline \<notin> set (cons_line s) \<and> crt_pos s < 1920 \<and> \<not> panicked s"

text \<open>What a character does to the ready text and the line: erase the line, erase its last character, or append
  to it; a line that is ended, or fills the buffer, becomes ready.\<close>

fun edit :: "nat \<Rightarrow> nat list \<times> nat list \<Rightarrow> nat list \<times> nat list" where
  "edit c (ready, line) =
     (if c = 16 then (ready, line)
      else if c = 21 then (ready, [])
      else if c = 8 \<or> c = 127 then (ready, butlast line)
      else if c = 0 \<or> INPUT_BUF \<le> length ready + length line then (ready, line)
      else
        let c' = (if c = 13 then newline else c); line' = line @ [c'] in
        if c' = newline \<or> c' = ctrl_D \<or> length ready + length line' = INPUT_BUF then (ready @ line', [])
        else (ready, line'))"

lemma length_cons_all [simp]: "length (cons_all s) = cons_len s"
  by (simp add: cons_all_def)

lemma cons_empty_line: "in_e s = in_w s \<longleftrightarrow> cons_len s = cons_ready_len s"
  unfolding cons_len_def cons_ready_len_def by (metis diff_add_cancel word_unat_eq_iff)

lemma unat_mod_128: "i < 4294967296 \<Longrightarrow> unat (a + of_nat i :: 32 word) mod 128 = (unat a + i) mod 128"
proof -
  assume "i < 4294967296"
  then have "unat (a + of_nat i) = (unat a + i) mod 4294967296" by (simp add: unat_word_ariths unat_of_nat mod_add_right_eq)
  then show ?thesis by (simp add: mod_mod_cancel)
qed

lemma consputc_ok:
  fixes s :: "'a conss_scheme"
  assumes "crt_pos s < 1920" "\<not> panicked s"
  shows "\<exists>o1 m p. consputc c s = Inr ((), s\<lparr>uart_out := o1, crt := m, crt_pos := p\<rparr>) \<and> p < 1920"
proof -
  let ?U = "(if c = BACKSPACE then thenK (uartputc 8) (thenK (uartputc 32) (uartputc 8)) else uartputc c) :: ('a conss_scheme, unit) K"
  have "\<exists>o1. ?U s = Inr ((), s\<lparr>uart_out := o1\<rparr>)" by (auto simp: uartputc_def kdefs)
  then obtain o1 where u: "?U s = Inr ((), s\<lparr>uart_out := o1\<rparr>)" by blast
  obtain m p where g: "cgaputc c (s\<lparr>uart_out := o1\<rparr>) = Inr ((), s\<lparr>uart_out := o1, crt := m, crt_pos := p\<rparr>)" "p < 1920"
    using cga_on_screen[of "s\<lparr>uart_out := o1\<rparr>" c] assms(1) by auto
  have "consputc c s = thenK ?U (cgaputc c) s" using assms(2) unfolding consputc_def by (simp only: bindK_def getK_def sum.case prod.case if_False)
  also have "\<dots> = cgaputc c (s\<lparr>uart_out := o1\<rparr>)" by (simp only: thenK_def[of ?U] bindK_eq[of ?U, OF u])
  finally show ?thesis using g by (intro exI[of _ o1] exI[of _ m] exI[of _ p]) simp
qed

text \<open>Output does not touch the input.\<close>

definition same_input :: "'e conss_scheme \<Rightarrow> 'e conss_scheme \<Rightarrow> bool" where
  "same_input s t \<longleftrightarrow> (\<exists>o1 m p. t = s\<lparr>uart_out := o1, crt := m, crt_pos := p\<rparr> \<and> p < 1920)"

lemma same_inputD:
  assumes "same_input s t"
  shows "cons_all t = cons_all s" "cons_len t = cons_len s" "cons_ready_len t = cons_ready_len s" "in_buf t = in_buf s"
    "crt_pos t < 1920" "panicked t = panicked s" "cons_ready t = cons_ready s" "cons_line t = cons_line s"
    "in_r t = in_r s" "in_w t = in_w s" "in_e t = in_e s"
  using assms by (auto simp: same_input_def cons_all_def cons_len_def cons_ready_len_def cons_ready_def cons_line_def in_at_def)

lemma back_one:
  assumes ok: "cons_ok s" and ne: "in_e s \<noteq> in_w s"
  shows "cons_len (s\<lparr>in_e := in_e s - 1\<rparr>) = cons_len s - 1" "cons_ready_len s < cons_len s"
    "cons_all (s\<lparr>in_e := in_e s - 1\<rparr>) = butlast (cons_all s)" "in_at s (in_e s - 1) = last (cons_all s)"
    "cons_line s \<noteq> []"
proof -
  show lt: "cons_ready_len s < cons_len s" using ok ne cons_empty_line[of s] by (simp add: cons_ok_def)
  then obtain k where k: "cons_len s = Suc k" by (cases "cons_len s") auto
  have k2: "k < 4294967296" using ok k by (simp add: cons_ok_def)
  have "in_e s - in_r s = of_nat (Suc k)" by (simp add: k[symmetric] cons_len_def del: of_nat_Suc)
  then have "in_e s = of_nat (Suc k) + in_r s" by (simp only: diff_eq_eq)
  then have e: "in_e s - 1 - in_r s = of_nat k" by simp
  then show l: "cons_len (s\<lparr>in_e := in_e s - 1\<rparr>) = cons_len s - 1" using k k2 by (simp add: cons_len_def unat_of_nat)
  have a: "in_at (s\<lparr>in_e := x\<rparr>) i = in_at s i" for x i by (simp add: in_at_def)
  show "cons_all (s\<lparr>in_e := in_e s - 1\<rparr>) = butlast (cons_all s)"
    unfolding cons_all_def l k by (simp add: a)
  have "in_e s - 1 = in_r s + of_nat k" using e by (simp add: algebra_simps)
  then show "in_at s (in_e s - 1) = last (cons_all s)" by (simp add: cons_all_def k)
  show "cons_line s \<noteq> []" using lt by (simp add: cons_line_def)
qed

text \<open>The state after one character was erased.\<close>

lemma erased:
  assumes ok: "cons_ok s" and ne: "in_e s \<noteq> in_w s"
  obtains t where "consputc BACKSPACE (s\<lparr>in_e := in_e s - 1\<rparr>) = Inr ((), t)" "cons_ok t" "cons_ready t = cons_ready s"
    "cons_line t = butlast (cons_line s)" "in_w t = in_w s"
proof -
  let ?u = "s\<lparr>in_e := in_e s - 1\<rparr>"
  obtain t where c: "consputc BACKSPACE ?u = Inr ((), t)" and si: "same_input ?u t"
    using consputc_ok[of ?u BACKSPACE] ok by (auto simp: cons_ok_def same_input_def)
  note sd = same_inputD[OF si] and b = back_one[OF ok ne]
  have r: "cons_ready_len ?u = cons_ready_len s" by (simp add: cons_ready_len_def)
  have le: "cons_ready_len s \<le> cons_len s - Suc 0" using b(2) by simp
  have rd: "cons_ready t = cons_ready s" "cons_line t = butlast (cons_line s)"
    unfolding cons_ready_def cons_line_def sd(1,3) r b(3) using b(2) le by (simp_all add: butlast_conv_take take_drop min_def)
  have "newline \<notin> set (cons_line t)" using ok unfolding rd(2) by (auto simp: cons_ok_def dest: in_set_butlastD)
  then have "cons_ok t" using ok sd(2-6) r b(1,2) le unfolding cons_ok_def by auto
  with that[OF c] rd sd(10) show thesis by simp
qed

lemma kill_line_ok: "cons_ok s \<Longrightarrow> \<exists>t. kill_line s = Inr ((), t) \<and> cons_ok t \<and> cons_ready t = cons_ready s \<and> cons_line t = []"
proof (induction "length (cons_line s)" arbitrary: s rule: less_induct)
  case less
  show ?case
  proof (cases "in_e s = in_w s")
    case True
    then have "kill_line s = Inr ((), s)" by (simp add: kill_line.simps[of s])
    with True less.prems cons_empty_line[of s] show ?thesis by (simp add: cons_line_def)
  next
    case False
    note b = back_one[OF less.prems False]
    have "last (cons_all s) = last (cons_line s)" using b(2) by (simp add: cons_line_def)
    then have nl: "in_at s (in_e s - 1) \<noteq> newline" using b(4) last_in_set[OF b(5)] less.prems by (auto simp: cons_ok_def)
    obtain t where t: "consputc BACKSPACE (s\<lparr>in_e := in_e s - 1\<rparr>) = Inr ((), t)" "cons_ok t" "cons_ready t = cons_ready s"
      "cons_line t = butlast (cons_line s)" by (rule erased[OF less.prems False])
    have "length (cons_line t) < length (cons_line s)" using t(4) b(5) by simp
    from less.hyps[OF this t(2)] t(1,3) False nl show ?thesis by (simp add: kill_line.simps[of s])
  qed
qed

lemma erase_char_ok:
  "cons_ok s \<Longrightarrow> \<exists>t. erase_char s = Inr ((), t) \<and> cons_ok t \<and> cons_ready t = cons_ready s \<and> cons_line t = butlast (cons_line s)"
proof (cases "in_e s = in_w s")
  case True
  moreover assume "cons_ok s"
  moreover from True have "cons_line s = []" using cons_empty_line[of s] by (simp add: cons_line_def)
  ultimately show ?thesis by (simp add: erase_char_def bindK_getK kdefs)
next
  case False
  assume "cons_ok s"
  from erased[OF this False] obtain t where "consputc BACKSPACE (s\<lparr>in_e := in_e s - 1\<rparr>) = Inr ((), t)" "cons_ok t"
    "cons_ready t = cons_ready s" "cons_line t = butlast (cons_line s)" by blast
  with False show ?thesis by (simp add: erase_char_def bindK_getK kdefs)
qed

lemma stored:
  fixes s :: "'e conss_scheme" and c :: nat
  assumes ok: "cons_ok s" and room: "cons_len s < INPUT_BUF"
  defines "u \<equiv> s\<lparr>in_buf := (in_buf s)[unat (in_e s) mod INPUT_BUF := c], in_e := in_e s + 1\<rparr>"
  shows "cons_len u = Suc (cons_len s)" "cons_all u = cons_all s @ [c]" "cons_ready_len u = cons_ready_len s"
    "in_e u = in_r u + of_nat INPUT_BUF \<longleftrightarrow> cons_len u = INPUT_BUF"
proof -
  have e: "in_e s = in_r s + of_nat (cons_len s)" by (simp add: cons_len_def)
  have s1: "in_e s + 1 - in_r s = of_nat (Suc (cons_len s))" using e by simp
  have "cons_len u = unat (in_e s + 1 - in_r s)" by (simp add: cons_len_def u_def)
  then have "cons_len u = unat (of_nat (Suc (cons_len s)) :: 32 word)" unfolding s1 .
  then show len: "cons_len u = Suc (cons_len s)" using room by (simp add: unat_of_nat del: of_nat_Suc)
  have "in_at u (in_r s + of_nat i) = (if i = cons_len s then c else in_at s (in_r s + of_nat i))" if "i \<le> cons_len s" for i
  proof -
    have "(a + n) mod 128 = (a + i) mod 128 \<longleftrightarrow> i = n" if "i \<le> n" "n < 128" for a i n :: nat
      using that mod_eq_dvd_iff_nat[of "a + i" "a + n" 128] by (auto dest: dvd_imp_le)
    then show ?thesis
      using that room ok unfolding in_at_def u_def e by (simp add: unat_mod_128 nth_list_update cons_ok_def) 
  qed
  then show "cons_all u = cons_all s @ [c]" unfolding cons_all_def len by (simp add: u_def)
  show "cons_ready_len u = cons_ready_len s" by (simp add: cons_ready_len_def u_def)
  have "in_e u = in_r u + of_nat INPUT_BUF \<longleftrightarrow> in_e u - in_r u = of_nat INPUT_BUF" by (simp add: diff_eq_eq add.commute)
  also have "\<dots> \<longleftrightarrow> cons_len u = INPUT_BUF" unfolding cons_len_def by (simp add: word_unat_eq_iff)
  finally show "in_e u = in_r u + of_nat INPUT_BUF \<longleftrightarrow> cons_len u = INPUT_BUF" .
qed

lemma committed:
  assumes "cons_ok s"
  shows "cons_ok (s\<lparr>in_w := in_e s\<rparr>)" "cons_ready (s\<lparr>in_w := in_e s\<rparr>) = cons_all s" "cons_line (s\<lparr>in_w := in_e s\<rparr>) = []"
  using assms by (simp_all add: cons_ok_def cons_ready_def cons_line_def cons_ready_len_def cons_len_def cons_all_def in_at_def)

lemma put_char_ok:
  assumes ok: "cons_ok s" and c: "c < 256" "c \<noteq> 16" "c \<noteq> 21" "c \<noteq> 8" "c \<noteq> 127"
  shows "\<exists>t. put_char c s = Inr ((), t) \<and> cons_ok t \<and> (cons_ready t, cons_line t) = edit c (cons_ready s, cons_line s)"
proof (cases "c = 0 \<or> INPUT_BUF \<le> cons_len s")
  case True
  moreover have "length (cons_ready s) + length (cons_line s) = cons_len s" using ok by (simp add: cons_ok_def cons_ready_def cons_line_def)
  ultimately show ?thesis
    using ok c by (auto simp: put_char_def bindK_getK kdefs cons_len_def)
next
  case False
  define c' where "c' = (if c = 13 then newline else c)"
  define u where "u = s\<lparr>in_buf := (in_buf s)[unat (in_e s) mod INPUT_BUF := c'], in_e := in_e s + 1\<rparr>"
  have room: "cons_len s < INPUT_BUF" using False by simp
  note st = stored[OF ok room, of c', folded u_def]
  have cm: "c' mod 256 = c'" using c(1) by (simp add: c'_def)
  have fl: "crt_pos u < 1920" "\<not> panicked u" using ok by (simp_all add: u_def cons_ok_def)
  from consputc_ok[OF this, of c'] obtain v where v: "consputc c' u = Inr ((), v)" "same_input u v"
    by (auto simp: same_input_def)
  note sd = same_inputD[OF v(2)]
  let ?last = "c' = newline \<or> c' = ctrl_D \<or> in_e v = in_r v + of_nat INPUT_BUF"
  have run: "put_char c s = Inr ((), if ?last then v\<lparr>in_w := in_e v\<rparr> else v)"
    using False v(1) by (simp add: put_char_def bindK_getK kdefs c'_def[symmetric] cm u_def[symmetric] cons_len_def[symmetric] Let_def)
  have fin: "?last \<longleftrightarrow> c' = newline \<or> c' = ctrl_D \<or> Suc (cons_len s) = INPUT_BUF" using sd st by simp
  have all: "cons_all v = cons_all s @ [c']" "cons_ready_len v = cons_ready_len s" "cons_len v = Suc (cons_len s)"
    using sd st by simp_all
  have le: "cons_ready_len s \<le> cons_len s" using ok by (simp add: cons_ok_def)
  have rd: "cons_ready v = cons_ready s" "cons_line v = cons_line s @ [c']" "cons_ready s @ cons_line s = cons_all s"
    unfolding cons_ready_def cons_line_def all using le by simp_all
  have len: "length (cons_ready s) + length (cons_line s) = cons_len s" using le by (simp add: cons_ready_def cons_line_def)
  have ed: "edit c (cons_ready s, cons_line s) = (if ?last then (cons_all s @ [c'], []) else (cons_ready s, cons_line s @ [c']))"
    using False c(2-5) len unfolding fin by (simp add: c'_def[symmetric] Let_def rd(3)[symmetric])
  have bounds: "length (in_buf v) = INPUT_BUF" "cons_ready_len v \<le> cons_len v" "cons_len v \<le> INPUT_BUF" "crt_pos v < 1920" "\<not> panicked v"
    using sd all le room ok fl by (simp_all add: u_def cons_ok_def)
  show ?thesis
  proof (cases ?last)
    case True
    have "cons_ok (v\<lparr>in_w := in_e v\<rparr>)" "cons_ready (v\<lparr>in_w := in_e v\<rparr>) = cons_all v" "cons_line (v\<lparr>in_w := in_e v\<rparr>) = []"
      using bounds by (simp_all add: cons_ok_def cons_ready_def cons_line_def cons_ready_len_def cons_len_def cons_all_def in_at_def)
    with True run ed all(1) show ?thesis by simp
  next
    case False
    then have "newline \<notin> set (cons_line v)" using rd(2) ok by (simp add: cons_ok_def)
    with bounds have "cons_ok v" by (simp add: cons_ok_def)
    with False run ed rd(1,2) show ?thesis by simp
  qed
qed

lemma consoleintr_edits:
  "cons_ok s \<Longrightarrow> \<forall>c \<in> set cs. c < 256 \<Longrightarrow> \<exists>d t. consoleintr cs s = Inr (d, t) \<and> cons_ok t \<and>
     (cons_ready t, cons_line t) = fold edit cs (cons_ready s, cons_line s)"
proof (induction cs arbitrary: s)
  case (Cons c cs)
  have "\<exists>t. (if c = 16 then ret () else if c = 21 then kill_line else if c = 8 \<or> c = 127 then erase_char else put_char c) s =
      Inr ((), t) \<and> cons_ok t \<and> (cons_ready t, cons_line t) = edit c (cons_ready s, cons_line s)"
    using Cons.prems kill_line_ok[of s] erase_char_ok[of s] put_char_ok[of s c] by (auto simp: ret_def)
  then obtain t where t: "(if c = 16 then ret () else if c = 21 then kill_line else if c = 8 \<or> c = 127 then erase_char else put_char c) s =
      Inr ((), t)" "cons_ok t" "edit c (cons_ready s, cons_line s) = (cons_ready t, cons_line t)" by auto
  obtain d u where u: "consoleintr cs t = Inr (d, u)" "cons_ok u" "(cons_ready u, cons_line u) = fold edit cs (cons_ready t, cons_line t)"
    using Cons.IH[OF t(2)] Cons.prems(2) by auto
  have "consoleintr (c # cs) s = Inr (c = 16 \<or> d, u)"
    using t(1) u(1) by (auto simp: kdefs split: if_splits)
  with u(2,3) t(3) show ?case by (intro exI[of _ "c = 16 \<or> d"] exI[of _ u]) (simp del: edit.simps)
qed (auto simp: ret_def)

text \<open>(C26) The console's input is a line editor: on every sequence of characters, up to a full buffer and across the
  wrap-around of the 32-bit indices, \<^verbatim>\<open>consoleintr\<close> returns, keeps its indices in order and the cursor on the screen, and
  the ready text and the line in the buffer are what the editor makes of the characters.\<close>

theorem console_line_editor:
  assumes "cons_ok s" "\<forall>c \<in> set cs. c < 256"
  shows "\<exists>d t. consoleintr cs s = Inr (d, t) \<and> cons_ok t \<and>
    (cons_ready t, cons_line t) = fold edit cs (cons_ready s, cons_line s)"
  using consoleintr_edits[OF assms] .

text \<open>An empty console on a blank screen.\<close>

lemma cons_small: "cons_ok (small_fs e)" "cons_ready (small_fs e) = []" "cons_line (small_fs e) = []"
  by (simp_all add: cons_ok_def cons_ready_def cons_line_def cons_ready_len_def cons_len_def cons_all_def small_fs_def)

theorem console_line_editor_witness:
  "\<exists>d t. consoleintr [108, 115, 115, 8, 13] (small_fs ()) = Inr (d, t) \<and> cons_ready t = [108, 115, 10] \<and> cons_line t = []"
  using console_line_editor[OF cons_small(1), of "[108, 115, 115, 8, 13]" "()"] by (auto simp: cons_small Let_def)

section \<open>Reading a line\<close>

lemma take_ready:
  assumes ok: "cons_ok s" and rd: "cons_ready s = c # rest"
  defines "t \<equiv> s\<lparr>in_r := in_r s + 1\<rparr>"
  shows "in_r s \<noteq> in_w s" "in_at s (in_r s) = c" "cons_ok t" "cons_ready t = rest" "cons_line t = cons_line s"
proof -
  have le: "cons_ready_len s \<le> cons_len s" "cons_len s \<le> INPUT_BUF" using ok by (simp_all add: cons_ok_def)
  obtain k where k: "cons_ready_len s = Suc k" using rd by (cases "cons_ready_len s") (auto simp: cons_ready_def)
  obtain l where l: "cons_len s = Suc l" using k le by (cases "cons_len s") auto
  show "in_r s \<noteq> in_w s" using k by (auto simp: cons_ready_len_def)
  have hd: "cons_all s = in_at s (in_r s) # map (\<lambda>i. in_at s (in_r s + of_nat (Suc i))) [0..<l]"
    unfolding cons_all_def l upt_conv_Cons[OF zero_less_Suc] map_Suc_upt[symmetric] by (simp del: upt_Suc)
  then show "in_at s (in_r s) = c" using rd k by (simp add: cons_ready_def)
  have shift: "unat (x - (in_r s + 1)) = m" if "unat (x - in_r s) = Suc m" "m < 200" for x m
  proof -
    have "x - in_r s = of_nat (Suc m)" using arg_cong[OF that(1), of "of_nat :: nat \<Rightarrow> 32 word"] by (simp del: of_nat_Suc)
    then have "x - (in_r s + 1) = of_nat m" by (simp add: diff_diff_eq[symmetric])
    then show ?thesis using that(2) by (simp add: unat_of_nat)
  qed
  have lens: "cons_len t = l" "cons_ready_len t = k"
    using shift[of "in_e s" l] shift[of "in_w s" k] l k le by (simp_all add: cons_len_def cons_ready_len_def t_def)
  have "cons_all t = tl (cons_all s)" unfolding hd unfolding cons_all_def lens by (simp add: t_def in_at_def ac_simps)
  then have all: "cons_all s = c # cons_all t" using hd rd k by (simp add: cons_ready_def)
  show "cons_ready t = rest" "cons_line t = cons_line s"
    using rd unfolding cons_ready_def cons_line_def lens k all by simp_all
  with ok lens le k l show "cons_ok t" by (simp add: cons_ok_def t_def)
qed

lemma fetch_line:
  "cons_ok s \<Longrightarrow> cons_ready s = ln @ newline # rest \<Longrightarrow> newline \<notin> set ln \<Longrightarrow> ctrl_D \<notin> set ln \<Longrightarrow> length ln < n \<Longrightarrow>
   \<exists>r. cons_fetch n first s = Inr ((False, ln @ [newline]), s\<lparr>in_r := r\<rparr>) \<and> cons_ok (s\<lparr>in_r := r\<rparr>) \<and>
     cons_ready (s\<lparr>in_r := r\<rparr>) = rest \<and> cons_line (s\<lparr>in_r := r\<rparr>) = cons_line s"
proof (induction ln arbitrary: s n first)
  case Nil
  then obtain m where "n = Suc m" by (cases n) auto
  with Nil.prems take_ready[of s newline rest] show ?case by (intro exI[of _ "in_r s + 1"]) simp
next
  case (Cons c ln)
  then obtain m where m: "n = Suc m" by (cases n) auto
  note tk = take_ready[OF Cons.prems(1), of c "ln @ newline # rest"]
  have "\<exists>r. cons_fetch m False (s\<lparr>in_r := in_r s + 1\<rparr>) = Inr ((False, ln @ [newline]), s\<lparr>in_r := in_r s + 1\<rparr>\<lparr>in_r := r\<rparr>) \<and>
    cons_ok (s\<lparr>in_r := in_r s + 1\<rparr>\<lparr>in_r := r\<rparr>) \<and> cons_ready (s\<lparr>in_r := in_r s + 1\<rparr>\<lparr>in_r := r\<rparr>) = rest \<and>
    cons_line (s\<lparr>in_r := in_r s + 1\<rparr>\<lparr>in_r := r\<rparr>) = cons_line (s\<lparr>in_r := in_r s + 1\<rparr>)"
    by (rule Cons.IH) (use tk Cons.prems m in auto)
  then obtain r where r: "cons_fetch m False (s\<lparr>in_r := in_r s + 1\<rparr>) = Inr ((False, ln @ [newline]), s\<lparr>in_r := r\<rparr>)"
    "cons_ok (s\<lparr>in_r := r\<rparr>)" "cons_ready (s\<lparr>in_r := r\<rparr>) = rest" "cons_line (s\<lparr>in_r := r\<rparr>) = cons_line s"
    using tk(5) Cons.prems(2) by auto
  have "cons_fetch n first s = Inr ((False, (c # ln) @ [newline]), s\<lparr>in_r := r\<rparr>)"
    using tk(1,2) Cons.prems(2-4) r(1) m by (simp add: Let_def)
  with r(2-4) show ?case by blast
qed

section \<open>From the keyboard to the reader\<close>

lemma consputc_more: "consputc c s = Inr (x, t) \<Longrightarrow> conss.more t = conss.more s"
  using consputc_frame[of c s x t] by auto

lemma kill_line_more: "kill_line s = Inr (x, t) \<Longrightarrow> conss.more t = conss.more s"
proof (induction s rule: kill_line.induct)
  case (1 s)
  show ?case
  proof (cases "in_e s \<noteq> in_w s \<and> in_at s (in_e s - 1) \<noteq> newline")
    case True
    with 1(2) obtain u where u: "consputc BACKSPACE (s\<lparr>in_e := in_e s - 1\<rparr>) = Inr ((), u)" "kill_line u = Inr (x, t)"
      by (auto simp: kill_line.simps[of s] split: sum.splits)
    from 1(1)[OF True u(1) refl u(2)] consputc_more[OF u(1)] show ?thesis by simp
  next
    case False
    with 1(2) show ?thesis by (auto simp: kill_line.simps[of s])
  qed
qed

lemma erase_char_more: "erase_char s = Inr (x, t) \<Longrightarrow> conss.more t = conss.more s"
  by (auto simp: erase_char_def kdefs dest!: consputc_more split: if_splits)

lemma put_char_more: "put_char c s = Inr (x, t) \<Longrightarrow> conss.more t = conss.more s"
  by (auto simp: put_char_def kdefs Let_def dest!: consputc_more split: if_splits sum.splits)

lemma consoleintr_more: "consoleintr cs s = Inr (d, t) \<Longrightarrow> conss.more t = conss.more s"
proof (induction cs arbitrary: s d)
  case (Cons c cs)
  then show ?case
    by (auto simp: kdefs dest!: kill_line_more erase_char_more put_char_more split: if_splits sum.splits)
qed (simp add: ret_def)

lemma more_fields: "conss.more t = conss.more s \<Longrightarrow> icache t = icache s \<and> ptable t = ptable s \<and> curproc t = curproc (s :: 'e icst_scheme)"
  by (cases s, cases t) simp

lemma edit_text:
  "\<forall>c \<in> set cs. 32 \<le> c \<and> c < 127 \<Longrightarrow> length line + length cs < INPUT_BUF \<Longrightarrow> fold edit cs ([], line) = ([], line @ cs)"
  by (induction cs arbitrary: line) (auto simp: Let_def)

lemma cons_upd_ino [simp]:
  "cons_ready (upd_ino ip f s) = cons_ready s" "cons_line (upd_ino ip f s) = cons_line s" "cons_ok (upd_ino ip f s) = cons_ok s"
  by (simp_all add: upd_ino_def cons_ok_def cons_ready_def cons_line_def cons_ready_len_def cons_len_def cons_all_def in_at_def)

text \<open>The characters that a typed line leaves ready.\<close>

lemma edit_line:
  assumes "\<forall>c \<in> set cs. 32 \<le> c \<and> c < 127" "length cs < 127"
  shows "fold edit (cs @ [13]) ([], []) = (cs @ [newline], [])"
  using edit_text[OF assms(1), of "[]"] assms(2) by (simp add: Let_def)

text \<open>(C25) From the keyboard to the program: a line of printable characters ended by the enter key, typed at an empty
  console, is what \<^verbatim>\<open>consoleread\<close> returns to a caller that asks for at least as many bytes, and the console is
  empty again; the inode of the console is locked again when it returns.\<close>

theorem typed_line_is_read:
  fixes s :: "'e icst_scheme"
  assumes "cons_ok s" "cons_ready s = []" "cons_line s = []" "\<forall>c \<in> set cs. 32 \<le> c \<and> c < 127" "length cs < 127" "length cs < n"
    and "ip < length (icache s)" "holdingsleep (fs_pid s) (i_lock (icache s ! ip))" "1 \<le> i_ref (icache s ! ip)" "i_valid (icache s ! ip)"
  shows "\<exists>d t u. consoleintr (cs @ [13]) s = Inr (d, t) \<and>
    consoleread ip (int n) t = Inr ((int (length cs) + 1, cs @ [newline]), u) \<and> cons_ready u = [] \<and> cons_line u = [] \<and>
    holdingsleep (fs_pid u) (i_lock (icache u ! ip))"
proof -
  obtain d t where t: "consoleintr (cs @ [13]) s = Inr (d, t)" "cons_ok t" "(cons_ready t, cons_line t) = (cs @ [newline], [])"
    using consoleintr_edits[of s "cs @ [13]"] assms(1-5) edit_line[OF assms(4,5)] by fastforce
  have same: "icache t = icache s" "ptable t = ptable s" "curproc t = curproc s" using more_fields[OF consoleintr_more[OF t(1)]] by simp_all
  define t1 where "t1 = upd_ino ip (\<lambda>i. i\<lparr>i_lock := initsleeplock\<rparr>) t"
  have un: "iunlock (Some ip) t = Inr ((), t1)" using iunlock_ok[of ip t] assms(7-9) same by (simp add: t1_def)
  have c1: "cons_ok t1" "cons_ready t1 = cs @ newline # []" "cons_line t1 = []"
    using t(2,3) by (simp_all add: t1_def)
  have nl: "newline \<notin> set cs" "ctrl_D \<notin> set cs" using assms(4) by fastforce+
  obtain r where r: "cons_fetch n True t1 = Inr ((False, cs @ [newline]), t1\<lparr>in_r := r\<rparr>)"
    "cons_ready (t1\<lparr>in_r := r\<rparr>) = []" "cons_line (t1\<lparr>in_r := r\<rparr>) = []"
    using fetch_line[OF c1(1,2) nl assms(6), of True] c1(3) by auto
  define u where "u = upd_ino ip (taken (fs_pid (t1\<lparr>in_r := r\<rparr>))) (t1\<lparr>in_r := r\<rparr>)"
  have lk: "ilock (Some ip) (t1\<lparr>in_r := r\<rparr>) = Inr ((), u)"
    unfolding u_def using assms(7,9,10) same by (intro ilock_cached) (simp_all add: t1_def initsleeplock_def)
  have "consoleread ip (int n) t = Inr ((int (length cs) + 1, cs @ [newline]), u)"
    using un r(1) lk by (simp add: consoleread_def thenK_def bindK_def ret_def)
  moreover have "cons_ready u = []" "cons_line u = []"
    using r(2,3) by (simp_all add: u_def)
  moreover have "holdingsleep (fs_pid u) (i_lock (icache u ! ip))"
    using assms(7) same by (simp add: u_def t1_def taken_def holdingsleep_def)
  ultimately show ?thesis using t(1) by blast
qed

text \<open>A console inode that the running process has locked.\<close>

definition small_tty :: "'e \<Rightarrow> 'e icst_scheme" where
  "small_tty e = upd_ino 0 (taken 1) (small_fs e)"

theorem typed_line_is_read_witness:
  "\<exists>d t u. consoleintr [108, 115, 13] (small_tty ()) = Inr (d, t) \<and> consoleread 0 100 t = Inr ((3, [108, 115, 10]), u)"
proof -
  have "cons_ok (small_tty ())" "cons_ready (small_tty ()) = []" "cons_line (small_tty ()) = []"
    using cons_small[of "()"] by (simp_all add: small_tty_def)
  with typed_line_is_read[of "small_tty ()" "[108, 115]" 100 0] show ?thesis
    by (auto simp: small_tty_def taken_def holdingsleep_def small_proc_def)
qed

end
