(* ===== verification/Small_Sys.thy ===== *)
theory Small_Sys
  imports Proc Small_Mem Pipe_Theorems
begin

text \<open>
  A concrete state of the whole kernel for the theorems about processes: the small file system and memory, no
  open files, no pipes, one process.
\<close>

definition closed_file :: file_rec where
  "closed_file = \<lparr>f_type = FD_NONE, f_ref = 0, f_readable = False, f_writable = False, f_pipe = 0, f_ip = None, f_off = 0\<rparr>"

definition small_tables :: "'e \<Rightarrow> 'e procst_ext filest_ext" where
  "small_tables e = filest_ext (replicate NFILE closed_file) (\<lambda>_. small_pipe) (procst_ext (Some 0) 2 10 False e)"

definition small_sys :: "nat \<Rightarrow> 'e \<Rightarrow> 'e procst_scheme" where
  "small_sys n e = small_mem n (small_tables e)"

lemma small_sys_fields [simp]:
  "ptable (small_sys n e) = small_proc # replicate 63 zero_proc" "curproc (small_sys n e) = 0"
  "procst.more (small_sys n e) = e" "nextpid (small_sys n e) = 2" "ftable (small_sys n e) = replicate NFILE closed_file"
  using fold_freed_shape[of "page_list n" "small_fs (memst_ext (\<lambda>_. 0) 0 2151677952 2148536320 0 0 (small_tables e))"]
  by (auto simp: small_sys_def small_mem_def small_fs_def small_tables_def)

end
