(* ===== verification/Sched_Theorems.thy ===== *)
theory Sched_Theorems
  imports Small_Sys
begin

text \<open>
  Theorems about the schedulers: what the priority scheduler chooses and what it never runs, and that the default
  scheduler runs every runnable process in each round.
\<close>

section \<open>The priority scheduler\<close>

text \<open>The processes that the scan considers.\<close>

definition eligible :: "proc \<Rightarrow> bool" where
  "eligible p \<longleftrightarrow> p_state p = RUNNABLE \<and> 0 < p_priority p \<and> p_priority p < NUM_PRIORITY_LEVELS"

lemma priority_scan_found:
  assumes "priority_scan ps i best prio = (b, q)" "prio \<le> NUM_PRIORITY_LEVELS"
  shows "(b = best \<and> q = prio \<and> (\<forall>p \<in> set ps. eligible p \<longrightarrow> prio \<le> p_priority p)) \<or>
    (i \<le> b \<and> b < i + length ps \<and> eligible (ps ! (b - i)) \<and> q = p_priority (ps ! (b - i)) \<and> q < prio \<and>
     (\<forall>j < length ps. eligible (ps ! j) \<longrightarrow> q \<le> p_priority (ps ! j) \<and> (p_priority (ps ! j) = q \<longrightarrow> b - i \<le> j)))"
  using assms
proof (induction ps i best prio rule: priority_scan.induct)
  case (2 p ps i best prio)
  let ?c = "p_state p = RUNNABLE \<and> p_priority p < prio \<and> p_priority p > 0"
  show ?case
  proof (cases ?c)
    case True
    have e: "eligible p" using True 2(4) by (simp add: eligible_def)
    have "priority_scan ps (i + 1) i (p_priority p) = (b, q)" using 2(3) True by simp
    from 2(1)[OF True this] True 2(4) consider
        "b = i" "q = p_priority p" "\<forall>p' \<in> set ps. eligible p' \<longrightarrow> p_priority p \<le> p_priority p'"
      | "i + 1 \<le> b" "b < i + 1 + length ps" "eligible (ps ! (b - (i + 1)))" "q = p_priority (ps ! (b - (i + 1)))" "q < p_priority p"
        "\<forall>j < length ps. eligible (ps ! j) \<longrightarrow> q \<le> p_priority (ps ! j) \<and> (p_priority (ps ! j) = q \<longrightarrow> b - (i + 1) \<le> j)"
      by auto
    then show ?thesis
    proof cases
      case 1
      then show ?thesis using True e by (auto simp: nth_Cons split: nat.splits)
    next
      case 2
      then obtain k where k: "b = i + 1 + k" by (metis le_Suc_ex)
      with 2 True show ?thesis by (auto simp: nth_Cons split: nat.splits)
    qed
  next
    case False
    have "priority_scan ps (i + 1) best prio = (b, q)" using 2(3) False by simp
    note ih = 2(2)[OF False this 2(4)]
    have ne: "prio \<le> p_priority p" if "eligible p" using that False by (auto simp: eligible_def)
    from ih show ?thesis
    proof
      assume "b = best \<and> q = prio \<and> (\<forall>p \<in> set ps. eligible p \<longrightarrow> prio \<le> p_priority p)"
      then show ?thesis using ne by auto
    next
      assume a: "i + 1 \<le> b \<and> b < i + 1 + length ps \<and> eligible (ps ! (b - (i + 1))) \<and> q = p_priority (ps ! (b - (i + 1))) \<and> q < prio \<and>
        (\<forall>j < length ps. eligible (ps ! j) \<longrightarrow> q \<le> p_priority (ps ! j) \<and> (p_priority (ps ! j) = q \<longrightarrow> b - (i + 1) \<le> j))"
      then obtain k where "b = i + 1 + k" by (metis le_Suc_ex)
      with a ne show ?thesis by (auto simp: nth_Cons split: nat.splits)
    qed
  qed
qed simp

text \<open>(C29) The choice of the priority scheduler: when a process of one of the levels 1 to 9 is runnable, the process
  that is dispatched is runnable, no runnable process has a lower level, and among those of its level it is the first in
  the table.\<close>

theorem priority_scan_minimal:
  assumes "\<exists>p \<in> set ps. eligible p"
  shows "\<exists>b q. priority_scan ps 0 0 NUM_PRIORITY_LEVELS = (b, q) \<and> b < length ps \<and> p_state (ps ! b) = RUNNABLE \<and>
    p_priority (ps ! b) = q \<and> (\<forall>j < length ps. p_state (ps ! j) = RUNNABLE \<and> 0 < p_priority (ps ! j) \<longrightarrow>
      q \<le> p_priority (ps ! j) \<and> (p_priority (ps ! j) = q \<longrightarrow> b \<le> j))"
proof -
  obtain b q where bq: "priority_scan ps 0 0 NUM_PRIORITY_LEVELS = (b, q)" by fastforce
  obtain p where "p \<in> set ps" "eligible p" using assms by blast
  then have "b < length ps" "eligible (ps ! b)" "q = p_priority (ps ! b)" "q < NUM_PRIORITY_LEVELS"
    "\<forall>j < length ps. eligible (ps ! j) \<longrightarrow> q \<le> p_priority (ps ! j) \<and> (p_priority (ps ! j) = q \<longrightarrow> b \<le> j)"
    using priority_scan_found[OF bq] by (auto simp: eligible_def)
  moreover have "q \<le> p_priority (ps ! j) \<and> (p_priority (ps ! j) = q \<longrightarrow> b \<le> j)"
    if "j < length ps" "p_state (ps ! j) = RUNNABLE" "0 < p_priority (ps ! j)" for j
    using calculation that by (cases "p_priority (ps ! j) < NUM_PRIORITY_LEVELS") (auto simp: eligible_def)
  ultimately show ?thesis using bq by (auto simp: eligible_def)
qed

theorem priority_scan_minimal_witness:
  "\<exists>q. priority_scan [zero_proc\<lparr>p_state := RUNNABLE, p_priority := 10\<rparr>, zero_proc\<lparr>p_state := RUNNABLE, p_priority := 5\<rparr>,
     zero_proc\<lparr>p_state := RUNNABLE, p_priority := 3\<rparr>, zero_proc\<lparr>p_state := RUNNABLE, p_priority := 3\<rparr>] 0 0 10 = (2, q)"
  using priority_scan_minimal[of "[zero_proc\<lparr>p_state := RUNNABLE, p_priority := 10\<rparr>, zero_proc\<lparr>p_state := RUNNABLE, p_priority := 5\<rparr>,
     zero_proc\<lparr>p_state := RUNNABLE, p_priority := 3\<rparr>, zero_proc\<lparr>p_state := RUNNABLE, p_priority := 3\<rparr>]"]
  by (simp add: eligible_def)

text \<open>(C30) The lowest level, which \<^verbatim>\<open>set_sched_priority\<close> accepts, is never served unless the process is the first in the
  table: when no process of a better level is runnable and the first one is not either, a round of the scheduler does
  nothing, however many processes of level 10 are runnable.\<close>

theorem priority_level_10_starves:
  assumes "\<forall>p \<in> set (ptable s). p_state p = RUNNABLE \<longrightarrow> p_priority p = NUM_PRIORITY_LEVELS"
    and "ptable s \<noteq> []" "p_state (hd (ptable s)) \<noteq> RUNNABLE"
  shows "priorityScheduler run s = Inr ((), s)"
proof -
  obtain b q where bq: "priority_scan (ptable s) 0 0 NUM_PRIORITY_LEVELS = (b, q)" by fastforce
  have none: "\<not> eligible p" if "p \<in> set (ptable s)" for p using assms(1) that by (auto simp: eligible_def)
  from priority_scan_found[OF bq] have "b = 0" using none[OF nth_mem] by auto
  with bq assms(2,3) show ?thesis
    by (simp add: priorityScheduler_def bindK_getK kdefs hd_conv_nth)
qed

theorem priority_level_10_starves_witness:
  "\<exists>(s :: unit procst_scheme) t. set_sched_priority 10 s = Inr ((), t) \<and>
     (let u = t\<lparr>ptable := [zero_proc, (ptable t ! 0)\<lparr>p_state := RUNNABLE\<rparr>]\<rparr> in
      p_state (ptable u ! 1) = RUNNABLE \<and> priorityScheduler (ret ()) u = Inr ((), u))"
proof -
  obtain s t :: "unit procst_scheme" where t: "set_sched_priority 10 s = Inr ((), t)" "p_priority (ptable t ! 0) = 10"
    by (rule that[of "small_sys 1 ()"]) (auto simp: set_sched_priority_def set_proc_def modK_def)
  let ?u = "t\<lparr>ptable := [zero_proc, (ptable t ! 0)\<lparr>p_state := RUNNABLE\<rparr>]\<rparr>"
  have "priorityScheduler (ret ()) ?u = Inr ((), ?u)"
    by (rule priority_level_10_starves) (use t(2) in \<open>auto simp: zero_proc_def\<close>)
  with t(1) show ?thesis unfolding Let_def by (intro exI[of _ s] exI[of _ t]) simp
qed

section \<open>The default scheduler\<close>

definition table_ok :: "'e icst_scheme \<Rightarrow> bool" where
  "table_ok s \<longleftrightarrow> length (ptable s) = NPROC \<and>
     (\<forall>i < NPROC. p_state (ptable s ! i) = RUNNABLE \<longrightarrow> p_kstack (ptable s ! i) \<noteq> 0 \<and> p_pgdir (ptable s ! i) \<noteq> 0)"

abbreviation runnable :: "'e icst_scheme \<Rightarrow> nat \<Rightarrow> bool" where
  "runnable s i \<equiv> p_state (ptable s ! i) = RUNNABLE"

text \<open>What a process does between two switches may be anything that returns to the scheduler, keeps the table in
  order and lets the other runnable processes be runnable. Its runs are recorded in \<open>trace\<close>.\<close>

definition time_slice :: "('e \<Rightarrow> nat list) \<Rightarrow> ('e procst_scheme, unit) K \<Rightarrow> bool" where
  "time_slice trace run \<longleftrightarrow> (\<forall>s. length (ptable s) = NPROC \<and> curproc s < NPROC \<and>
       (\<forall>i < NPROC. i \<noteq> curproc s \<and> runnable s i \<longrightarrow> p_kstack (ptable s ! i) \<noteq> 0 \<and> p_pgdir (ptable s ! i) \<noteq> 0) \<longrightarrow>
     (\<exists>t. run s = Inr ((), t) \<and> table_ok t \<and> trace (procst.more t) = trace (procst.more s) @ [curproc s] \<and>
        (\<forall>j < NPROC. j \<noteq> curproc s \<and> runnable s j \<longrightarrow> runnable t j)))"

lemma more_procst_upd [simp]:
  "procst.more (s\<lparr>curproc := i\<rparr>) = procst.more (s :: 'e procst_scheme)" "procst.more (s\<lparr>cr3 := x\<rparr>) = procst.more s"
  "procst.more (s\<lparr>ptable := ps\<rparr>) = procst.more s"
  by (cases s, simp)+

lemma dispatch_runs:
  fixes s :: "'e procst_scheme"
  assumes sl: "time_slice trace run" and ok: "table_ok s" and i: "i < NPROC" "runnable s i"
  shows "runs (dispatch run i) s (\<lambda>_ t. table_ok t \<and> trace (procst.more t) = trace (procst.more s) @ [i] \<and>
    (\<forall>j < NPROC. j \<noteq> i \<and> runnable s j \<longrightarrow> runnable t j))"
proof -
  have k: "p_kstack (ptable s ! i) \<noteq> 0" "p_pgdir (ptable s ! i) \<noteq> 0" "length (ptable s) = NPROC"
    using ok i by (simp_all add: table_ok_def)
  define p where "p = account (ticks s) ((ptable s ! i)\<lparr>p_state := RUNNING\<rparr>)"
  define u where "u = s\<lparr>curproc := i, cr3 := V2P (p_pgdir (ptable s ! i)), ptable := (ptable s)[i := p]\<rparr>"
  have "\<exists>t. run u = Inr ((), t) \<and> table_ok t \<and> trace (procst.more t) = trace (procst.more u) @ [curproc u] \<and>
        (\<forall>j < NPROC. j \<noteq> curproc u \<and> runnable u j \<longrightarrow> runnable t j)"
  proof (rule sl[unfolded time_slice_def, rule_format], intro conjI allI impI)
    show "length (ptable u) = NPROC" "curproc u < NPROC" using k(3) i(1) by (simp_all add: u_def)
    fix j assume "j < NPROC" "j \<noteq> curproc u \<and> runnable u j"
    then show "p_kstack (ptable u ! j) \<noteq> 0" "p_pgdir (ptable u ! j) \<noteq> 0" using ok by (auto simp: u_def table_ok_def)
  qed
  then obtain t where t: "run u = Inr ((), t)" "table_ok t" "trace (procst.more t) = trace (procst.more s) @ [i]"
    "\<forall>j < NPROC. j \<noteq> i \<and> runnable s j \<longrightarrow> runnable t j" by (auto simp: u_def)
  have "dispatch run i s = thenK run switchkvm u"
    using k i by (simp add: dispatch_def kdefs switchuvm_def upd_proc_def u_def p_def)
  then have "dispatch run i s = switchkvm t" using t(1) by (simp add: thenK_def bindK_def)
  then show ?thesis using t(2-4) by (simp add: runs_def switchkvm_def modK_def table_ok_def)
qed

text \<open>(C28) A round of the default scheduler runs every process that is runnable when the round begins, whatever the
  processes that run before it do, as long as each of them gives the processor back.\<close>

theorem default_scheduler_fair:
  assumes "time_slice trace run" "table_ok s"
  shows "\<exists>t ran. defaultScheduler run s = Inr ((), t) \<and> table_ok t \<and> trace (procst.more t) = trace (procst.more s) @ ran \<and>
    (\<forall>i < NPROC. runnable s i \<longrightarrow> i \<in> set ran)"
proof -
  let ?I = "\<lambda>k t. table_ok t \<and> (\<exists>ran. trace (procst.more t) = trace (procst.more s) @ ran \<and>
    (\<forall>i < NPROC. runnable s i \<longrightarrow> i \<in> set ran \<or> k \<le> i \<and> runnable t i))"
  let ?body = "\<lambda>i. bindK (getP i p_state) (\<lambda>st. thenK (whenK (st = RUNNABLE) (dispatch run i)) (ret (None :: unit option)))"
  have "runs (forK [0..<NPROC] ?body) s (\<lambda>r t. r = None \<and> ?I (length [0..<NPROC]) t)"
  proof (rule runs_forK_None[where I = ?I])
    show "?I 0 s" using assms(2) by auto
    fix k t assume k: "k < length [0..<NPROC]" and I: "?I k t"
    then obtain ran where ran: "trace (procst.more t) = trace (procst.more s) @ ran"
      "\<forall>i < NPROC. runnable s i \<longrightarrow> i \<in> set ran \<or> k \<le> i \<and> runnable t i" by blast
    have kN: "k < NPROC" "[0..<NPROC] ! k = k" using k by simp_all
    show "runs (?body ([0..<NPROC] ! k)) t (\<lambda>r t'. r = None \<and> ?I (Suc k) t')"
    proof (cases "runnable t k")
      case True
      have "runs (dispatch run k) t (\<lambda>_ t'. ?I (Suc k) t')"
      proof (rule runs_mono[OF dispatch_runs[OF assms(1) conjunct1[OF I] kN(1) True]])
        fix x t'
        assume a: "table_ok t' \<and> trace (procst.more t') = trace (procst.more t) @ [k] \<and>
          (\<forall>j < NPROC. j \<noteq> k \<and> runnable t j \<longrightarrow> runnable t' j)"
        have "i \<in> set (ran @ [k]) \<or> Suc k \<le> i \<and> runnable t' i" if "i < NPROC" "runnable s i" for i
          using ran(2) a that by (cases "i = k") (auto simp: Suc_le_eq order.strict_iff_order)
        with a ran(1) show "?I (Suc k) t'" by (intro conjI exI[of _ "ran @ [k]"]) auto
      qed
      then show ?thesis using True unfolding kN(2) by (simp add: runs_bindK runs_thenK runs_whenK getP_def)
    next
      case False
      have "?I (Suc k) t" using I ran False by (auto simp: Suc_le_eq order.strict_iff_order)
      then show ?thesis using False unfolding kN(2) by (simp add: runs_bindK runs_thenK runs_whenK getP_def)
    qed
  qed
  then obtain t where t: "forK [0..<NPROC] ?body s = Inr (None, t)" "?I (length [0..<NPROC]) t" by (auto elim!: runsE)
  then have "defaultScheduler run s = Inr ((), t)" by (simp add: defaultScheduler_def bindK_def ret_def)
  with t(2) show ?thesis by auto
qed

text \<open>A process that sleeps at once.\<close>

definition nap :: "(nat list procst_scheme, unit) K" where
  "nap s = Inr ((), procst.more_update (\<lambda>l. l @ [curproc s])
     (s\<lparr>ptable := (ptable s)[curproc s := (ptable s ! curproc s)\<lparr>p_state := SLEEPING\<rparr>]\<rparr>))"

definition two_procs :: "nat list procst_scheme" where
  "two_procs = (small_sys 1 [])\<lparr>ptable := replicate 2 (small_proc\<lparr>p_state := RUNNABLE, p_kstack := 4096, p_pgdir := 8192\<rparr>) @ replicate 62 zero_proc\<rparr>"

lemma nap_slice: "time_slice id nap"
  unfolding time_slice_def
proof (intro allI impI)
  fix s :: "nat list procst_scheme"
  let ?t = "procst.more_update (\<lambda>l. l @ [curproc s]) (s\<lparr>ptable := (ptable s)[curproc s := (ptable s ! curproc s)\<lparr>p_state := SLEEPING\<rparr>]\<rparr>)"
  have f: "ptable ?t = (ptable s)[curproc s := (ptable s ! curproc s)\<lparr>p_state := SLEEPING\<rparr>]" "procst.more ?t = procst.more s @ [curproc s]"
    by (cases s, simp)+
  assume "length (ptable s) = NPROC \<and> curproc s < NPROC \<and>
    (\<forall>i < NPROC. i \<noteq> curproc s \<and> runnable s i \<longrightarrow> p_kstack (ptable s ! i) \<noteq> 0 \<and> p_pgdir (ptable s ! i) \<noteq> 0)"
  then have "table_ok ?t" "\<forall>j < NPROC. j \<noteq> curproc s \<and> runnable s j \<longrightarrow> runnable ?t j"
    unfolding table_ok_def f by (auto simp: nth_list_update)
  then show "\<exists>t. nap s = Inr ((), t) \<and> table_ok t \<and> id (procst.more t) = id (procst.more s) @ [curproc s] \<and>
    (\<forall>j < NPROC. j \<noteq> curproc s \<and> runnable s j \<longrightarrow> runnable t j)"
    using f(2) by (intro exI[of _ ?t]) (simp add: nap_def)
qed

lemma two_procs_ok: "table_ok two_procs" "runnable two_procs 1"
  by (auto simp: table_ok_def two_procs_def nth_append zero_proc_def nth_Cons numeral_2_eq_2 split: nat.splits)

theorem default_scheduler_fair_witness:
  "\<exists>t. defaultScheduler nap two_procs = Inr ((), t) \<and> 1 \<in> set (procst.more t)"
proof -
  have "procst.more two_procs = []" by (simp add: two_procs_def)
  with default_scheduler_fair[OF nap_slice two_procs_ok(1)] two_procs_ok(2) show ?thesis by fastforce
qed

end
