(* ===== verification/Fork_Theorems.thy ===== *)
theory Fork_Theorems
  imports Small_Sys Mem_Theorems
begin

text \<open>
  The composition of \<^verbatim>\<open>fork\<close>: a slot of the process table, a kernel stack, a copy of the memory, the open files
  and the current directory.
\<close>

section \<open>A process slot\<close>



section \<open>The open files\<close>

definition add_refs :: "nat option list \<Rightarrow> file_rec list \<Rightarrow> file_rec list" where
  "add_refs fds ft = map (\<lambda>f. (ft ! f)\<lparr>f_ref := f_ref (ft ! f) + int (count_list fds (Some f))\<rparr>) [0..<length ft]"

definition inherit :: "nat option list \<Rightarrow> nat option list \<Rightarrow> nat option list" where
  "inherit fds old = map (\<lambda>j. if j < length fds \<and> fds ! j \<noteq> None then fds ! j else old ! j) [0..<length old]"

lemma add_refs_Nil [simp]: "add_refs [] ft = ft"
  by (simp add: add_refs_def map_nth)

lemma length_add_refs [simp]: "length (add_refs fds ft) = length ft" "length (inherit fds old) = length old"
  by (simp_all add: add_refs_def inherit_def)




section \<open>fork\<close>





lemma bindK_upd_proc: "bindK (upd_proc i f) g u = g () (u\<lparr>ptable := (ptable u)[i := f (ptable u ! i)]\<rparr>)"
  by (simp add: upd_proc_def bindK_def modK_def)





end
