(* ===== verification/Spin.thy ===== *)
theory Spin
  imports Locks
begin

text \<open>
  Spin locks (\<^verbatim>\<open>spinlock.c\<close>) on several processors. The operations are the code's, with the processor that executes
  them as an argument (\<^verbatim>\<open>mycpu()\<close>); \<^verbatim>\<open>acquire\<close> and \<^verbatim>\<open>release\<close> are cut at their atomic instruction and at the store that
  frees the lock, so that processors interleave between any two of these. The theory shows mutual
  exclusion for all code and all interleavings, and that the locking order of the kernel admits a deadlock.
\<close>

section \<open>State\<close>

record spinlock =
  lk_locked :: nat
  lk_name :: string
  lk_cpu :: "nat option"
  lk_pcs :: "nat list"

record cpu =
  c_ncli :: int
  c_intena :: bool
  c_if :: bool

record spinst =
  locks :: "nat \<Rightarrow> spinlock"
  cpus :: "nat \<Rightarrow> cpu"

definition upd_lock :: "nat \<Rightarrow> (spinlock \<Rightarrow> spinlock) \<Rightarrow> ('e spinst_scheme, unit) K" where
  "upd_lock l f = modK (\<lambda>s. s\<lparr>locks := (locks s)(l := f (locks s l))\<rparr>)"

definition upd_cpu :: "nat \<Rightarrow> (cpu \<Rightarrow> cpu) \<Rightarrow> ('e spinst_scheme, unit) K" where
  "upd_cpu c f = modK (\<lambda>s. s\<lparr>cpus := (cpus s)(c := f (cpus s c))\<rparr>)"

section \<open>Code\<close>

definition initlock :: "nat \<Rightarrow> string \<Rightarrow> ('e spinst_scheme, unit) K" where
  "initlock l name = upd_lock l (\<lambda>k. k\<lparr>lk_name := name, lk_locked := 0, lk_cpu := None\<rparr>)"

definition mycpu :: "nat \<Rightarrow> ('e spinst_scheme, nat) K" where
  "mycpu c =
     bindK (getK (\<lambda>s. c_if (cpus s c))) (\<lambda>on.
     if on then panic ''mycpu called with interrupts enabled'' else ret c)"

definition pushcli :: "nat \<Rightarrow> ('e spinst_scheme, unit) K" where
  "pushcli c =
     bindK (getK (\<lambda>s. c_if (cpus s c))) (\<lambda>eflags.
     thenK (upd_cpu c (\<lambda>p. p\<lparr>c_if := False\<rparr>))
     (bindK (mycpu c) (\<lambda>i.
     upd_cpu i (\<lambda>p. p\<lparr>c_intena := if c_ncli p = 0 then eflags else c_intena p, c_ncli := c_ncli p + 1\<rparr>))))"

definition popcli :: "nat \<Rightarrow> ('e spinst_scheme, unit) K" where
  "popcli c =
     bindK (getK (\<lambda>s. c_if (cpus s c))) (\<lambda>on.
     if on then panic ''popcli - interruptible''
     else
       bindK (mycpu c) (\<lambda>i.
       thenK (upd_cpu i (\<lambda>p. p\<lparr>c_ncli := c_ncli p - 1\<rparr>))
       (bindK (getK (\<lambda>s. cpus s i)) (\<lambda>p.
       if c_ncli p < 0 then panic ''popcli''
       else whenK (c_ncli p = 0 \<and> c_intena p) (upd_cpu i (\<lambda>p. p\<lparr>c_if := True\<rparr>))))))"

definition holding :: "nat \<Rightarrow> nat \<Rightarrow> ('e spinst_scheme, bool) K" where
  "holding c l =
     thenK (pushcli c)
     (bindK (mycpu c) (\<lambda>i.
     bindK (getK (\<lambda>s. lk_locked (locks s l) \<noteq> 0 \<and> lk_cpu (locks s l) = Some i)) (\<lambda>r.
     thenK (popcli c) (ret r))))"

definition xchg :: "nat \<Rightarrow> nat \<Rightarrow> ('e spinst_scheme, nat) K" where
  "xchg l newval =
     bindK (getK (\<lambda>s. lk_locked (locks s l))) (\<lambda>old.
     thenK (upd_lock l (\<lambda>k. k\<lparr>lk_locked := newval\<rparr>)) (ret old))"

text \<open>\<^verbatim>\<open>acquire\<close> up to its loop, and what follows the loop; \<open>pcs\<close> is what \<^verbatim>\<open>getcallerpcs\<close> finds.\<close>

definition acquire_enter :: "nat \<Rightarrow> nat \<Rightarrow> ('e spinst_scheme, unit) K" where
  "acquire_enter c l =
     thenK (pushcli c) (bindK (holding c l) (\<lambda>h. if h then panic ''acquire'' else ret ()))"

definition acquire_exit :: "nat \<Rightarrow> nat \<Rightarrow> nat list \<Rightarrow> ('e spinst_scheme, unit) K" where
  "acquire_exit c l pcs = bindK (mycpu c) (\<lambda>i. upd_lock l (\<lambda>k. k\<lparr>lk_cpu := Some i, lk_pcs := pcs\<rparr>))"

text \<open>\<^verbatim>\<open>release\<close> up to the store that frees the lock, and the rest.\<close>

definition release_enter :: "nat \<Rightarrow> nat \<Rightarrow> ('e spinst_scheme, unit) K" where
  "release_enter c l =
     bindK (holding c l) (\<lambda>h.
     if \<not> h then panic ''release''
     else upd_lock l (\<lambda>k. k\<lparr>lk_pcs := (lk_pcs k)[0 := 0], lk_cpu := None\<rparr>))"

definition release_exit :: "nat \<Rightarrow> nat \<Rightarrow> ('e spinst_scheme, unit) K" where
  "release_exit c l = thenK (upd_lock l (\<lambda>k. k\<lparr>lk_locked := 0\<rparr>)) (popcli c)"

section \<open>Processors\<close>

text \<open>What the code of a processor does with locks, and where the processor is in it: outside of both
  functions, in the loop of \<^verbatim>\<open>acquire\<close>, after it, or in \<^verbatim>\<open>release\<close> before the lock is free.\<close>

datatype lockop = Acquire nat | Release nat

datatype phase = Outside | Spinning nat | Taken nat | Leaving nat

record spinsys = spinst +
  code :: "nat \<Rightarrow> lockop list"
  phase :: "nat \<Rightarrow> phase"

text \<open>One step of processor \<open>c\<close>. The code after the present operation is arbitrary, and where interrupts are
  enabled a handler may run before it.\<close>

inductive spin_step :: "nat \<Rightarrow> spinsys \<Rightarrow> spinsys \<Rightarrow> bool" for c where
  sp_acquire: "phase s c = Outside \<Longrightarrow> code s c = Acquire l # rest \<Longrightarrow> acquire_enter c l s = Inr ((), t) \<Longrightarrow>
    spin_step c s (t\<lparr>phase := (phase t)(c := Spinning l)\<rparr>)"
| sp_fail: "phase s c = Spinning l \<Longrightarrow> xchg l 1 s = Inr (old, t) \<Longrightarrow> old \<noteq> 0 \<Longrightarrow> spin_step c s t"
| sp_take: "phase s c = Spinning l \<Longrightarrow> xchg l 1 s = Inr (0, t) \<Longrightarrow> spin_step c s (t\<lparr>phase := (phase t)(c := Taken l)\<rparr>)"
| sp_record: "phase s c = Taken l \<Longrightarrow> acquire_exit c l pcs s = Inr ((), t) \<Longrightarrow>
    spin_step c s (t\<lparr>phase := (phase t)(c := Outside), code := (code t)(c := tl (code t c))\<rparr>)"
| sp_release: "phase s c = Outside \<Longrightarrow> code s c = Release l # rest \<Longrightarrow> release_enter c l s = Inr ((), t) \<Longrightarrow>
    spin_step c s (t\<lparr>phase := (phase t)(c := Leaving l)\<rparr>)"
| sp_free: "phase s c = Leaving l \<Longrightarrow> release_exit c l s = Inr ((), t) \<Longrightarrow>
    spin_step c s (t\<lparr>phase := (phase t)(c := Outside), code := (code t)(c := tl (code t c))\<rparr>)"
| sp_intr: "phase s c = Outside \<Longrightarrow> c_if (cpus s c) \<Longrightarrow> spin_step c s (s\<lparr>code := (code s)(c := handler @ code s c)\<rparr>)"

definition any_step :: "spinsys \<Rightarrow> spinsys \<Rightarrow> bool" where
  "any_step s t \<longleftrightarrow> (\<exists>c. spin_step c s t)"

text \<open>The locks that a processor has: from the instruction that takes it to the store that frees it.\<close>

definition owns :: "spinsys \<Rightarrow> nat \<Rightarrow> nat set" where
  "owns s c = {l. phase s c = Taken l \<or> phase s c = Leaving l \<or> lk_locked (locks s l) \<noteq> 0 \<and> lk_cpu (locks s l) = Some c}"

definition spinning :: "phase \<Rightarrow> bool" where
  "spinning p = (case p of Spinning _ \<Rightarrow> True | _ \<Rightarrow> False)"

definition spin_start :: "spinsys \<Rightarrow> bool" where
  "spin_start s \<longleftrightarrow> (\<forall>l. lk_locked (locks s l) = 0 \<and> lk_cpu (locks s l) = None) \<and> (\<forall>c. c_ncli (cpus s c) = 0 \<and> phase s c = Outside)"

section \<open>The operations\<close>

definition pushed :: "cpu \<Rightarrow> cpu" where
  "pushed p = p\<lparr>c_if := False, c_intena := if c_ncli p = 0 then c_if p else c_intena p, c_ncli := c_ncli p + 1\<rparr>"

definition popped :: "cpu \<Rightarrow> cpu" where
  "popped p = p\<lparr>c_ncli := c_ncli p - 1, c_if := c_ncli p = 1 \<and> c_intena p\<rparr>"

abbreviation set_cpu :: "nat \<Rightarrow> cpu \<Rightarrow> 'e spinst_scheme \<Rightarrow> 'e spinst_scheme" where
  "set_cpu c p s \<equiv> s\<lparr>cpus := (cpus s)(c := p)\<rparr>"

abbreviation set_lock :: "nat \<Rightarrow> spinlock \<Rightarrow> 'e spinst_scheme \<Rightarrow> 'e spinst_scheme" where
  "set_lock l k s \<equiv> s\<lparr>locks := (locks s)(l := k)\<rparr>"

lemma pushcli_eq: "pushcli c s = Inr ((), set_cpu c (pushed (cpus s c)) s)"
  by (simp add: pushcli_def kdefs upd_cpu_def mycpu_def pushed_def)

lemma popcli_eq:
  assumes "\<not> c_if (cpus s c)" "1 \<le> c_ncli (cpus s c)"
  shows "popcli c s = Inr ((), set_cpu c (popped (cpus s c)) s)"
  using assms by (cases "cpus s c") (auto simp: popcli_def kdefs upd_cpu_def mycpu_def popped_def)

text \<open>They are matched: a pair of them changes neither the depth nor the interrupt flag.\<close>

lemma popped_pushed:
  assumes "0 \<le> c_ncli p" "0 < c_ncli p \<Longrightarrow> \<not> c_if p"
  shows "c_ncli (popped (pushed p)) = c_ncli p" "c_if (popped (pushed p)) = c_if p" "0 < c_ncli p \<Longrightarrow> popped (pushed p) = p"
  using assms by (cases p; auto simp: pushed_def popped_def)+

lemma holding_eq:
  assumes "\<not> c_if (cpus s c)" "1 \<le> c_ncli (cpus s c)"
  shows "holding c l s = Inr (lk_locked (locks s l) \<noteq> 0 \<and> lk_cpu (locks s l) = Some c, s)"
proof -
  let ?u = "set_cpu c (pushed (cpus s c)) s"
  have "popcli c ?u = Inr ((), set_cpu c (popped (cpus ?u c)) ?u)"
    by (rule popcli_eq) (use assms in \<open>simp_all add: pushed_def\<close>)
  also have "set_cpu c (popped (cpus ?u c)) ?u = s" using popped_pushed(3)[of "cpus s c"] assms by simp
  finally have pop: "popcli c ?u = Inr ((), s)" .
  have my: "mycpu c ?u = Inr (c, ?u)" by (simp add: mycpu_def kdefs pushed_def)
  show ?thesis unfolding holding_def thenK_def bindK_eq[of "pushcli c", OF pushcli_eq] bindK_eq[of "mycpu c", OF my]
    by (simp add: getK_def bindK_def pop ret_def)
qed

lemma acquire_enter_eq:
  assumes "0 \<le> c_ncli (cpus s c)"
  shows "acquire_enter c l s = (if lk_locked (locks s l) \<noteq> 0 \<and> lk_cpu (locks s l) = Some c then Inl (Panic ''acquire'')
    else Inr ((), set_cpu c (pushed (cpus s c)) s))"
proof -
  let ?u = "set_cpu c (pushed (cpus s c)) s"
  have "holding c l ?u = Inr (lk_locked (locks s l) \<noteq> 0 \<and> lk_cpu (locks s l) = Some c, ?u)"
    using holding_eq[of ?u c l] assms by (simp add: pushed_def)
  then show ?thesis
    unfolding acquire_enter_def thenK_def bindK_eq[of "pushcli c", OF pushcli_eq] by (auto simp: bindK_def ret_def stopK_def)
qed

lemma release_enter_eq:
  assumes "\<not> c_if (cpus s c)" "1 \<le> c_ncli (cpus s c)"
  shows "release_enter c l s = (if lk_locked (locks s l) \<noteq> 0 \<and> lk_cpu (locks s l) = Some c
    then Inr ((), set_lock l ((locks s l)\<lparr>lk_pcs := (lk_pcs (locks s l))[0 := 0], lk_cpu := None\<rparr>) s) else Inl (Panic ''release''))"
  unfolding release_enter_def bindK_eq[of "holding c l", OF holding_eq[OF assms]]
  by (auto simp: upd_lock_def modK_def stopK_def)

lemma release_exit_eq:
  assumes "\<not> c_if (cpus s c)" "1 \<le> c_ncli (cpus s c)"
  shows "release_exit c l s = Inr ((), set_cpu c (popped (cpus s c)) (set_lock l ((locks s l)\<lparr>lk_locked := 0\<rparr>) s))"
  using popcli_eq[of "set_lock l ((locks s l)\<lparr>lk_locked := 0\<rparr>) s" c] assms
  by (simp add: release_exit_def thenK_def bindK_def upd_lock_def modK_def)

lemma xchg_eq: "xchg l v s = Inr (lk_locked (locks s l), set_lock l ((locks s l)\<lparr>lk_locked := v\<rparr>) s)"
  by (simp add: xchg_def kdefs upd_lock_def)

lemma acquire_exit_eq:
  "\<not> c_if (cpus s c) \<Longrightarrow> acquire_exit c l pcs s = Inr ((), set_lock l ((locks s l)\<lparr>lk_cpu := Some c, lk_pcs := pcs\<rparr>) s)"
  by (simp add: acquire_exit_def mycpu_def kdefs upd_lock_def)

section \<open>Mutual exclusion\<close>

definition busy :: "spinsys \<Rightarrow> nat \<Rightarrow> nat \<Rightarrow> bool" where
  "busy s c l \<longleftrightarrow> phase s c = Taken l \<or> phase s c = Leaving l"

definition lock_ok :: "spinsys \<Rightarrow> nat \<Rightarrow> bool" where
  "lock_ok s l \<longleftrightarrow> (lk_locked (locks s l) = 0 \<longrightarrow> lk_cpu (locks s l) = None \<and> (\<forall>c. \<not> busy s c l)) \<and>
     (\<forall>c. busy s c l \<longrightarrow> lk_cpu (locks s l) = None) \<and> Uniq (\<lambda>c. busy s c l)"

definition cpu_ok :: "spinsys \<Rightarrow> nat \<Rightarrow> bool" where
  "cpu_ok s c \<longleftrightarrow> finite (owns s c) \<and> c_ncli (cpus s c) = int (card (owns s c)) + (if spinning (phase s c) then 1 else 0) \<and>
     (0 < c_ncli (cpus s c) \<longrightarrow> \<not> c_if (cpus s c))"

definition spin_inv :: "spinsys \<Rightarrow> bool" where
  "spin_inv s \<longleftrightarrow> (\<forall>l. lock_ok s l) \<and> (\<forall>c. cpu_ok s c)"

lemma owns_iff: "l \<in> owns s c \<longleftrightarrow> busy s c l \<or> lk_locked (locks s l) \<noteq> 0 \<and> lk_cpu (locks s l) = Some c"
  by (auto simp: owns_def busy_def)

lemma lock_okD:
  assumes "lock_ok s l"
  shows "lk_locked (locks s l) = 0 \<Longrightarrow> lk_cpu (locks s l) = None" "lk_locked (locks s l) = 0 \<Longrightarrow> \<not> busy s c l"
    "busy s c l \<Longrightarrow> lk_cpu (locks s l) = None" "busy s c l \<Longrightarrow> busy s d l \<Longrightarrow> c = d" "busy s c l \<Longrightarrow> lk_locked (locks s l) \<noteq> 0"
  using assms Uniq_D[of "\<lambda>c. busy s c l" c d] by (simp_all add: lock_ok_def) auto


lemma cpu_okD:
  assumes "cpu_ok s c"
  shows "0 \<le> c_ncli (cpus s c)" "l \<in> owns s c \<Longrightarrow> 1 \<le> c_ncli (cpus s c)" "l \<in> owns s c \<Longrightarrow> \<not> c_if (cpus s c)"
    "spinning (phase s c) \<Longrightarrow> 1 \<le> c_ncli (cpus s c) \<and> \<not> c_if (cpus s c)"
proof -
  show "0 \<le> c_ncli (cpus s c)" using assms by (simp add: cpu_ok_def)
  have "1 \<le> card (owns s c)" if "l \<in> owns s c" using that assms by (auto simp: cpu_ok_def card_gt_0_iff Suc_le_eq)
  then show "l \<in> owns s c \<Longrightarrow> 1 \<le> c_ncli (cpus s c)" "l \<in> owns s c \<Longrightarrow> \<not> c_if (cpus s c)"
    using assms by (auto simp: cpu_ok_def)
  show "spinning (phase s c) \<Longrightarrow> 1 \<le> c_ncli (cpus s c) \<and> \<not> c_if (cpus s c)" using assms by (auto simp: cpu_ok_def)
qed

text \<open>The invariant after a step in which only processor \<open>c\<close> and lock \<open>l\<close> change.\<close>

lemma spin_inv_step:
  assumes inv: "spin_inv s"
    and same: "\<And>d. d \<noteq> c \<Longrightarrow> phase t d = phase s d \<and> cpus t d = cpus s d" "\<And>k. k \<noteq> l \<Longrightarrow> locks t k = locks s k"
    and ph: "\<And>k. k \<noteq> l \<Longrightarrow> busy t c k = busy s c k"
    and lock: "lock_ok t l" "\<And>d. d \<noteq> c \<Longrightarrow> l \<in> owns t d \<longleftrightarrow> l \<in> owns s d" and cpu: "cpu_ok t c"
  shows "spin_inv t"
proof -
  have b: "busy t d k = busy s d k" if "k \<noteq> l" for d k
    using same(1)[of d] ph[OF that] by (cases "d = c") (auto simp: busy_def)
  have "lock_ok t k" for k
    using inv lock(1) b[of k] same(2)[of k] by (cases "k = l") (simp_all add: spin_inv_def lock_ok_def)
  moreover have "cpu_ok t d" for d
  proof (cases "d = c")
    case False
    have "owns t d = owns s d"
    proof (rule set_eqI)
      fix k show "k \<in> owns t d \<longleftrightarrow> k \<in> owns s d"
        using lock(2)[OF False] b[of k d] same(2)[of k] by (cases "k = l") (auto simp: owns_iff)
    qed
    with False inv same(1)[of d] show ?thesis by (simp add: spin_inv_def cpu_ok_def)
  qed (use cpu in simp)
  ultimately show ?thesis by (simp add: spin_inv_def)
qed

lemma outside_owns: "phase s c = Outside \<or> phase s c = Spinning l' \<Longrightarrow> \<not> busy s c l"
  by (auto simp: busy_def)

lemma spin_inv_acquire:
  assumes inv: "spin_inv s" and ph: "phase s c = Outside" and ok: "acquire_enter c l s = Inr ((), t)"
  shows "spin_inv (t\<lparr>phase := (phase t)(c := Spinning l)\<rparr>)" (is "spin_inv ?t")
proof -
  have c: "cpu_ok s c" "lock_ok s l" using inv by (simp_all add: spin_inv_def)
  have t: "t = set_cpu c (pushed (cpus s c)) s" using ok acquire_enter_eq[OF cpu_okD(1)[OF c(1)], of l] by (auto split: if_splits)
  have o: "owns ?t d = owns s d" for d using ph by (auto simp: owns_iff busy_def t split: if_splits)
  have "cpu_ok ?t c" using c(1) ph o[of c] by (auto simp: cpu_ok_def t pushed_def spinning_def)
  moreover have "busy ?t d l = busy s d l" for d using ph by (auto simp: busy_def t split: if_splits)
  then have "lock_ok ?t l" using c(2) by (simp add: lock_ok_def t)
  ultimately show ?thesis
    by (intro spin_inv_step[OF inv, where c = c and l = l]) (use ph o in \<open>auto simp: t busy_def split: if_splits\<close>)
qed

lemma spin_inv_xchg:
  assumes inv: "spin_inv s" and ph: "phase s c = Spinning l" and ok: "xchg l 1 s = Inr (old, t)"
  shows "spin_inv (if old = 0 then t\<lparr>phase := (phase t)(c := Taken l)\<rparr> else t)"
proof -
  have c: "cpu_ok s c" "lock_ok s l" using inv by (simp_all add: spin_inv_def)
  have t: "t = set_lock l ((locks s l)\<lparr>lk_locked := 1\<rparr>) s" "old = lk_locked (locks s l)" using ok xchg_eq[of l 1 s] by auto
  show ?thesis
  proof (cases "old = 0")
    case True
    let ?t = "t\<lparr>phase := (phase t)(c := Taken l)\<rparr>"
    have free: "lk_cpu (locks s l) = None" "\<And>d. \<not> busy s d l" "l \<notin> owns s c"
      using True lock_okD(1,2)[OF c(2)] t(2) by (auto simp: owns_iff)
    have b: "busy ?t d l \<longleftrightarrow> d = c" for d using free(2)[of d] by (auto simp: busy_def t(1) split: if_splits)
    have "owns ?t c = insert l (owns s c)" using ph free by (auto simp: owns_iff busy_def t(1) split: if_splits)
    then have "cpu_ok ?t c" using c(1) ph free(3) by (auto simp: cpu_ok_def t(1) spinning_def)
    moreover have "lock_ok ?t l" using free(1) b by (simp add: lock_ok_def t(1) Uniq_def)
    moreover have "l \<in> owns ?t d \<longleftrightarrow> l \<in> owns s d" if "d \<noteq> c" for d using that free by (auto simp: owns_iff busy_def t(1) split: if_splits)
    ultimately have "spin_inv ?t"
      by (intro spin_inv_step[OF inv, where c = c and l = l]) (use ph in \<open>auto simp: t(1) busy_def split: if_splits\<close>)
    with True show ?thesis by simp
  next
    case False
    then have o: "owns t d = owns s d" for d by (auto simp: owns_iff busy_def t split: if_splits)
    have "cpu_ok t c" using c(1) o[of c] by (simp add: cpu_ok_def t(1))
    moreover have "busy t d l = busy s d l" for d by (simp add: busy_def t(1))
    then have "lock_ok t l" using c(2) False t(2) by (simp add: lock_ok_def t(1))
    ultimately have "spin_inv t"
      by (intro spin_inv_step[OF inv, where c = c and l = l]) (use o in \<open>auto simp: t(1) busy_def split: if_splits\<close>)
    with False show ?thesis by simp
  qed
qed

lemma spin_inv_record:
  assumes inv: "spin_inv s" and ph: "phase s c = Taken l" and ok: "acquire_exit c l pcs s = Inr ((), t)"
  shows "spin_inv (t\<lparr>phase := (phase t)(c := Outside), code := co\<rparr>)" (is "spin_inv ?t")
proof -
  have c: "cpu_ok s c" "lock_ok s l" using inv by (simp_all add: spin_inv_def)
  have b: "busy s c l" "l \<in> owns s c" using ph by (auto simp: busy_def owns_iff)
  have t: "t = set_lock l ((locks s l)\<lparr>lk_cpu := Some c, lk_pcs := pcs\<rparr>) s"
    using ok acquire_exit_eq[OF cpu_okD(3)[OF c(1) b(2)], of l pcs] by auto
  have lk: "lk_locked (locks s l) \<noteq> 0" "lk_cpu (locks s l) = None" "\<And>d. busy s d l \<Longrightarrow> d = c"
    using lock_okD(3-5)[OF c(2)] b(1) by blast+
  have nb: "\<not> busy ?t d l" for d using lk(3)[of d] by (auto simp: busy_def t split: if_splits)
  have "owns ?t c = owns s c" using ph lk by (auto simp: owns_iff busy_def t split: if_splits)
  then have "cpu_ok ?t c" using c(1) ph by (auto simp: cpu_ok_def t spinning_def)
  moreover have "lock_ok ?t l" using lk(1) nb by (simp add: lock_ok_def t Uniq_def)
  moreover have "l \<in> owns ?t d \<longleftrightarrow> l \<in> owns s d" if "d \<noteq> c" for d using that lk by (auto simp: owns_iff busy_def t split: if_splits)
  ultimately show ?thesis
    by (intro spin_inv_step[OF inv, where c = c and l = l]) (use ph in \<open>auto simp: t busy_def split: if_splits\<close>)
qed

lemma spin_inv_release:
  assumes inv: "spin_inv s" and ph: "phase s c = Outside" and ok: "release_enter c l s = Inr ((), t)"
    and own: "l \<in> owns s c"
  shows "spin_inv (t\<lparr>phase := (phase t)(c := Leaving l)\<rparr>)" (is "spin_inv ?t")
proof -
  have c: "cpu_ok s c" "lock_ok s l" using inv by (simp_all add: spin_inv_def)
  have t: "t = set_lock l ((locks s l)\<lparr>lk_pcs := (lk_pcs (locks s l))[0 := 0], lk_cpu := None\<rparr>) s"
    using ok release_enter_eq[OF cpu_okD(3)[OF c(1) own] cpu_okD(2)[OF c(1) own], of l] by (auto split: if_splits)
  have lk: "lk_locked (locks s l) \<noteq> 0" "lk_cpu (locks s l) = Some c" "\<And>d. \<not> busy s d l"
    using own ph lock_okD(3)[OF c(2)] by (auto simp: owns_iff busy_def)
  have nb: "busy ?t d l \<longleftrightarrow> d = c" for d using lk(3)[of d] by (auto simp: busy_def t split: if_splits)
  have "owns ?t c = owns s c" using ph lk by (auto simp: owns_iff busy_def t split: if_splits)
  then have "cpu_ok ?t c" using c(1) ph by (auto simp: cpu_ok_def t spinning_def)
  moreover have "lock_ok ?t l" using lk(1) nb by (simp add: lock_ok_def t Uniq_def)
  moreover have "l \<in> owns ?t d \<longleftrightarrow> l \<in> owns s d" if "d \<noteq> c" for d using that lk by (auto simp: owns_iff busy_def t split: if_splits)
  ultimately show ?thesis
    by (intro spin_inv_step[OF inv, where c = c and l = l]) (use ph in \<open>auto simp: t busy_def split: if_splits\<close>)
qed

lemma spin_inv_free:
  assumes inv: "spin_inv s" and ph: "phase s c = Leaving l" and ok: "release_exit c l s = Inr ((), t)"
  shows "spin_inv (t\<lparr>phase := (phase t)(c := Outside), code := co\<rparr>)" (is "spin_inv ?t")
proof -
  have c: "cpu_ok s c" "lock_ok s l" using inv by (simp_all add: spin_inv_def)
  have b: "busy s c l" "l \<in> owns s c" using ph by (auto simp: busy_def owns_iff)
  have t: "t = set_cpu c (popped (cpus s c)) (set_lock l ((locks s l)\<lparr>lk_locked := 0\<rparr>) s)"
    using ok release_exit_eq[OF cpu_okD(3)[OF c(1) b(2)] cpu_okD(2)[OF c(1) b(2)], of l] by auto
  have lk: "lk_cpu (locks s l) = None" "\<And>d. busy s d l \<Longrightarrow> d = c" using lock_okD(3,4)[OF c(2)] b(1) by blast+
  have nb: "\<not> busy ?t d l" for d using lk(2)[of d] by (auto simp: busy_def t split: if_splits)
  have "owns ?t c = owns s c - {l}" using ph lk by (auto simp: owns_iff busy_def t split: if_splits)
  moreover have "int (card (owns s c - {l})) = int (card (owns s c)) - 1"
    using b(2) c(1) card_Suc_Diff1[of "owns s c" l] by (simp add: cpu_ok_def)
  ultimately have "cpu_ok ?t c" using c(1) ph by (auto simp: cpu_ok_def t spinning_def popped_def)
  moreover have "lock_ok ?t l" using lk(1) nb by (simp add: lock_ok_def t Uniq_def)
  moreover have "l \<in> owns ?t d \<longleftrightarrow> l \<in> owns s d" if "d \<noteq> c" for d using that lk by (auto simp: owns_iff busy_def t split: if_splits)
  ultimately show ?thesis
    by (intro spin_inv_step[OF inv, where c = c and l = l]) (use ph in \<open>auto simp: t busy_def split: if_splits\<close>)
qed

lemma holding_value:
  assumes "holding c l s = Inr (r, u)"
  shows "r \<longleftrightarrow> lk_locked (locks s l) \<noteq> 0 \<and> lk_cpu (locks s l) = Some c"
proof -
  let ?u = "set_cpu c (pushed (cpus s c)) s"
  have my: "mycpu c ?u = Inr (c, ?u)" by (simp add: mycpu_def kdefs pushed_def)
  from assms show ?thesis
    unfolding holding_def thenK_def bindK_eq[of "pushcli c", OF pushcli_eq] bindK_eq[of "mycpu c", OF my]
    by (auto simp: getK_def bindK_def ret_def split: sum.splits)
qed

lemma release_enter_owns: "release_enter c l s = Inr ((), t) \<Longrightarrow> l \<in> owns s c"
  using holding_value[of c l s] by (auto simp: release_enter_def bindK_def stopK_def owns_iff split: sum.splits if_splits)

lemma spin_inv_code: "spin_inv s \<Longrightarrow> spin_inv (s\<lparr>code := co\<rparr>)"
  by (simp add: spin_inv_def lock_ok_def cpu_ok_def owns_def busy_def)

lemma spin_step_inv: "spin_step c s t \<Longrightarrow> spin_inv s \<Longrightarrow> spin_inv t"
proof (induction rule: spin_step.induct)
  case (sp_fail s l old t)
  from spin_inv_xchg[OF sp_fail(4,1,2)] sp_fail(3) show ?case by simp
next
  case (sp_take s l t)
  from spin_inv_xchg[OF sp_take(3,1,2)] show ?case by simp
next
  case (sp_release s l rest t)
  from spin_inv_release[OF sp_release(4,1,3) release_enter_owns[OF sp_release(3)]] show ?case .
qed (simp_all add: spin_inv_acquire spin_inv_record spin_inv_free spin_inv_code)

lemma spin_start_inv: "spin_start s \<Longrightarrow> spin_inv s"
  by (simp add: spin_start_def spin_inv_def lock_ok_def cpu_ok_def owns_def busy_def spinning_def Uniq_def)

lemma spin_run_inv: "any_step\<^sup>*\<^sup>* s t \<Longrightarrow> spin_inv s \<Longrightarrow> spin_inv t"
  by (induction rule: rtranclp_induct) (auto simp: any_step_def dest: spin_step_inv)


section \<open>The order of two locks\<close>

text \<open>The locks that the timer interrupt takes (\<^verbatim>\<open>tickslock\<close>, then \<^verbatim>\<open>ptable.lock\<close> in \<^verbatim>\<open>wakeup\<close>) and those of a process that yields
  (\<^verbatim>\<open>ptable.lock\<close>, then \<^verbatim>\<open>tickslock\<close> in \<^verbatim>\<open>processUptime\<close>, which \<^verbatim>\<open>sched\<close> calls).\<close>

abbreviation tickslock :: nat where "tickslock \<equiv> 0"
abbreviation ptable_lock :: nat where "ptable_lock \<equiv> 1"

definition timer_locks :: "lockop list" where
  "timer_locks = [Acquire tickslock, Acquire ptable_lock, Release ptable_lock, Release tickslock]"

definition yield_locks :: "lockop list" where
  "yield_locks = [Acquire ptable_lock, Acquire tickslock, Release tickslock, Release ptable_lock]"

text \<open>What \<^verbatim>\<open>sched\<close> checks of the locks and the interrupts before it switches to the scheduler. A processor passes when
  \<^verbatim>\<open>ptable.lock\<close> is the one lock it has, and panics when it has another one as well.\<close>

definition sched_checks :: "nat \<Rightarrow> ('e spinst_scheme, unit) K" where
  "sched_checks c =
     bindK (holding c ptable_lock) (\<lambda>h.
     if \<not> h then panic ''sched ptable.lock''
     else
       bindK (getK (\<lambda>s. cpus s c)) (\<lambda>p.
       if c_ncli p \<noteq> 1 then panic ''sched locks''
       else if c_if p then panic ''sched interruptible''
       else ret ()))"

lemma sched_checks_iff:
  assumes "spin_inv s" "phase s c = Outside" "ptable_lock \<in> owns s c"
  shows "sched_checks c s = (if owns s c = {ptable_lock} then Inr ((), s) else Inl (Panic ''sched locks''))"
proof -
  have ok: "cpu_ok s c" using assms(1) by (simp add: spin_inv_def)
  have n: "c_ncli (cpus s c) = int (card (owns s c))" "finite (owns s c)" using ok assms(2) by (simp_all add: cpu_ok_def spinning_def)
  have "card (owns s c) = 1 \<longleftrightarrow> owns s c = {ptable_lock}" using assms(3) by (auto simp: card_1_singleton_iff)
  then have one: "c_ncli (cpus s c) = 1 \<longleftrightarrow> owns s c = {ptable_lock}" using n(1) by simp
  have "lk_locked (locks s ptable_lock) \<noteq> 0 \<and> lk_cpu (locks s ptable_lock) = Some c"
    using assms(2,3) by (auto simp: owns_iff busy_def)
  moreover have "\<not> c_if (cpus s c)" by (rule cpu_okD(3)[OF ok assms(3)])
  ultimately show ?thesis
    unfolding sched_checks_def bindK_eq[of "holding c ptable_lock", OF holding_eq[OF cpu_okD(3)[OF ok assms(3)] cpu_okD(2)[OF ok assms(3)]]]
    using one by (auto simp: kdefs)
qed

definition stuck :: "spinsys \<Rightarrow> bool" where
  "stuck s \<longleftrightarrow> phase s 0 = Spinning ptable_lock \<and> lk_cpu (locks s tickslock) = Some 0 \<and> lk_locked (locks s tickslock) \<noteq> 0 \<and>
     phase s 1 = Spinning tickslock \<and> lk_cpu (locks s ptable_lock) = Some 1 \<and> lk_locked (locks s ptable_lock) \<noteq> 0"

lemma acquire_steps:
  assumes "spin_inv s" "phase s c = Outside" "code s c = Acquire l # rest" "lk_locked (locks s l) = 0"
  obtains t where "any_step\<^sup>*\<^sup>* s t" "phase t = phase s" "code t = (code s)(c := rest)" "lk_locked (locks t l) = 1" "lk_cpu (locks t l) = Some c"
    "\<And>k. k \<noteq> l \<Longrightarrow> locks t k = locks s k"
proof -
  define t1 where "t1 = (set_cpu c (pushed (cpus s c)) s)\<lparr>phase := (phase s)(c := Spinning l)\<rparr>"
  define t2 where "t2 = (set_lock l ((locks s l)\<lparr>lk_locked := 1\<rparr>) t1)\<lparr>phase := (phase s)(c := Taken l)\<rparr>"
  define t3 where "t3 = (set_lock l ((locks s l)\<lparr>lk_locked := 1, lk_cpu := Some c, lk_pcs := []\<rparr>) t2)
    \<lparr>phase := phase s, code := (code s)(c := rest)\<rparr>"
  have c: "cpu_ok s c" using assms(1) by (simp add: spin_inv_def)
  have "acquire_enter c l s = Inr ((), set_cpu c (pushed (cpus s c)) s)"
    using acquire_enter_eq[OF cpu_okD(1)[OF c], of l] assms(4) by simp
  from sp_acquire[OF assms(2,3) this] have 1: "spin_step c s t1" by (simp add: t1_def)
  have "xchg l 1 t1 = Inr (0, set_lock l ((locks s l)\<lparr>lk_locked := 1\<rparr>) t1)" using xchg_eq[of l 1 t1] assms(4) by (simp add: t1_def)
  from sp_take[where c = c, OF _ this] have 2: "spin_step c t1 t2" by (simp add: t1_def t2_def)
  have "acquire_exit c l [] t2 = Inr ((), set_lock l ((locks s l)\<lparr>lk_locked := 1, lk_cpu := Some c, lk_pcs := []\<rparr>) t2)"
    using acquire_exit_eq[of t2 c l "[]"] by (simp add: t1_def t2_def pushed_def)
  from sp_record[where c = c, OF _ this] have 3: "spin_step c t2 t3"
    using assms(2,3) by (simp add: t1_def t2_def t3_def fun_upd_idem)
  have "any_step\<^sup>*\<^sup>* s t3"
    using 1 2 3 by (meson any_step_def converse_rtranclp_into_rtranclp rtranclp.rtrancl_refl)
  then show thesis by (rule that) (simp_all add: t1_def t2_def t3_def)
qed

lemma stuck_step:
  assumes "spin_step c s t" "spin_inv s" "stuck s"
  shows "stuck t"
proof -
  have free: "\<not> busy s d 0" "\<not> busy s d 1" for d
    using assms(2,3) lock_okD(3)[of s 0 d] lock_okD(3)[of s 1 d] by (auto simp: spin_inv_def stuck_def)
  have "spinning (phase s 0)" "spinning (phase s 1)" using assms(3) by (simp_all add: stuck_def spinning_def)
  then have other: "c \<noteq> 0 \<and> c \<noteq> 1" if "\<not> spinning (phase s c)" using that by metis
  have far: "l \<noteq> 0 \<and> l \<noteq> 1" if "busy s c l" for l using free[of c] that by metis
  have ncli: "0 \<le> c_ncli (cpus s c)" using assms(2) cpu_okD(1) by (simp add: spin_inv_def)
  from assms(1) show ?thesis
  proof cases
    case (sp_acquire l rest u)
    then show ?thesis using assms(3) acquire_enter_eq[OF ncli, of l] by (auto simp: stuck_def split: if_splits)
  next
    case (sp_fail l old)
    then show ?thesis using assms(3) xchg_eq[of l 1 s] by (auto simp: stuck_def)
  next
    case (sp_take l u)
    then have "lk_locked (locks s l) = 0" using xchg_eq[of l 1 s] by simp
    then have "l \<noteq> 0" "l \<noteq> 1" "c \<noteq> 0" "c \<noteq> 1" using assms(3) sp_take(2) unfolding stuck_def by (metis phase.inject(1))+
    then show ?thesis using sp_take assms(3) xchg_eq[of l 1 s] by (auto simp: stuck_def)
  next
    case (sp_record l pcs u)
    then have "l \<noteq> 0" "l \<noteq> 1" "c \<noteq> 0" "c \<noteq> 1" using far[of l] other by (simp_all add: busy_def spinning_def)
    with sp_record assms(3) show ?thesis by (auto simp: stuck_def acquire_exit_def mycpu_def kdefs upd_lock_def split: if_splits)
  next
    case (sp_release l rest u)
    have o: "l \<in> owns s c" by (rule release_enter_owns) (use sp_release in simp)
    have c: "c \<noteq> 0" "c \<noteq> 1" using sp_release other by (simp_all add: spinning_def)
    have "lk_cpu (locks s l) = Some c" using o sp_release by (simp add: owns_iff busy_def)
    with c have "l \<noteq> 0" "l \<noteq> 1" using assms(3) unfolding stuck_def by (metis option.inject)+
    moreover have "cpu_ok s c" using assms(2) by (simp add: spin_inv_def)
    ultimately show ?thesis
      using c sp_release assms(3) release_enter_eq[OF cpu_okD(3)[OF _ o] cpu_okD(2)[OF _ o], of l] by (auto simp: stuck_def split: if_splits)
  next
    case (sp_free l u)
    then have l: "l \<noteq> 0" "l \<noteq> 1" "c \<noteq> 0" "c \<noteq> 1" using far[of l] other by (simp_all add: busy_def spinning_def)
    have o: "l \<in> owns s c" using sp_free by (auto simp: owns_iff busy_def)
    have "cpu_ok s c" using assms(2) by (simp add: spin_inv_def)
    with sp_free l assms(3) release_exit_eq[OF cpu_okD(3)[OF _ o] cpu_okD(2)[OF _ o], of l] show ?thesis by (auto simp: stuck_def)
  next
    case (sp_intr handler)
    then show ?thesis using assms(3) by (auto simp: stuck_def)
  qed
qed

lemma stuck_run: "any_step\<^sup>*\<^sup>* s t \<Longrightarrow> spin_inv s \<Longrightarrow> stuck s \<Longrightarrow> spin_inv t \<and> stuck t"
  by (induction rule: rtranclp_induct) (auto simp: any_step_def dest: spin_step_inv stuck_step)

text \<open>(C33) A deadlock: with a timer interrupt on processor 0 and a process that yields on processor 1, the
  two can come to wait for each other's lock, and then both wait for ever, whatever the other processors do.\<close>

theorem timer_yield_deadlock:
  assumes "spin_start s" "code s 0 = timer_locks" "code s 1 = yield_locks"
  shows "\<exists>t. any_step\<^sup>*\<^sup>* s t \<and> (\<forall>u. any_step\<^sup>*\<^sup>* t u \<longrightarrow> phase u 0 = Spinning ptable_lock \<and> phase u 1 = Spinning tickslock)"
proof -
  have inv: "spin_inv s" and s: "\<And>l. lk_locked (locks s l) = 0" "\<And>c. phase s c = Outside"
    using assms(1) spin_start_inv by (simp_all add: spin_start_def)
  obtain t1 where t1: "any_step\<^sup>*\<^sup>* s t1" "phase t1 = phase s" "code t1 = (code s)(0 := tl timer_locks)" "lk_locked (locks t1 0) = 1"
    "lk_cpu (locks t1 0) = Some 0" "\<And>k. k \<noteq> 0 \<Longrightarrow> locks t1 k = locks s k"
    by (rule acquire_steps[OF inv s(2) _ s(1), of 0 0 "tl timer_locks"]) (use assms(2) in \<open>auto simp: timer_locks_def\<close>)
  have i1: "spin_inv t1" by (rule spin_run_inv[OF t1(1) inv])
  obtain t2 where t2: "any_step\<^sup>*\<^sup>* t1 t2" "phase t2 = phase t1" "code t2 = (code t1)(1 := tl yield_locks)" "lk_locked (locks t2 1) = 1"
    "lk_cpu (locks t2 1) = Some 1" "\<And>k. k \<noteq> 1 \<Longrightarrow> locks t2 k = locks t1 k"
    by (rule acquire_steps[OF i1, of 1 1 "tl yield_locks"]) (use assms(3) s t1 in \<open>auto simp: yield_locks_def\<close>)
  have i2: "spin_inv t2" by (rule spin_run_inv[OF t2(1) i1])
  define t3 where "t3 = (set_cpu 0 (pushed (cpus t2 0)) t2)\<lparr>phase := (phase t2)(0 := Spinning 1)\<rparr>"
  define t4 where "t4 = (set_cpu 1 (pushed (cpus t3 1)) t3)\<lparr>phase := (phase t3)(1 := Spinning 0)\<rparr>"
  have n: "0 \<le> c_ncli (cpus t2 c)" for c using i2 cpu_okD(1) by (simp add: spin_inv_def)
  have "acquire_enter 0 1 t2 = Inr ((), set_cpu 0 (pushed (cpus t2 0)) t2)" using acquire_enter_eq[OF n, of 0 1] t2(5) by simp
  from sp_acquire[OF _ _ this, of "[Release 1, Release 0]"] have s3: "any_step t2 t3"
    using s(2) t1(2,3) t2(2,3) by (auto simp: any_step_def t3_def timer_locks_def)
  have "acquire_enter 1 0 t3 = Inr ((), set_cpu 1 (pushed (cpus t3 1)) t3)"
    using acquire_enter_eq[of t3 1 0] n[of 1] t1(5) t2(6)[of 0] by (simp add: t3_def)
  from sp_acquire[OF _ _ this, of "[Release 0, Release 1]"] have s4: "any_step t3 t4"
    using s(2) t1(2,3) t2(2,3) by (auto simp: any_step_def t3_def t4_def yield_locks_def)
  have reach: "any_step\<^sup>*\<^sup>* s t4" 
    by (rule rtranclp.rtrancl_into_rtrancl[OF rtranclp.rtrancl_into_rtrancl[OF rtranclp_trans[OF t1(1) t2(1)] s3] s4])
  have "stuck t4" using t1(4,5) t2(4,5) t2(6)[of 0] by (simp add: stuck_def t3_def t4_def)
  then have "phase u 0 = Spinning ptable_lock \<and> phase u 1 = Spinning tickslock" if "any_step\<^sup>*\<^sup>* t4 u" for u
    using stuck_run[OF that spin_run_inv[OF reach inv]] by (simp add: stuck_def)
  with reach show ?thesis by blast
qed

text \<open>Two processors about to run that code.\<close>

definition two_cpus :: spinsys where
  "two_cpus = \<lparr>locks = (\<lambda>_. \<lparr>lk_locked = 0, lk_name = [], lk_cpu = None, lk_pcs = []\<rparr>),
     cpus = (\<lambda>_. \<lparr>c_ncli = 0, c_intena = False, c_if = True\<rparr>),
     code = (\<lambda>c. if c = 0 then timer_locks else if c = 1 then yield_locks else []), phase = (\<lambda>_. Outside)\<rparr>"

lemma two_cpus_start: "spin_start two_cpus" "code two_cpus 0 = timer_locks" "code two_cpus 1 = yield_locks"
  by (simp_all add: spin_start_def two_cpus_def)

theorem timer_yield_deadlock_witness:
  "\<exists>t. any_step\<^sup>*\<^sup>* two_cpus t \<and> phase t 0 = Spinning ptable_lock \<and> phase t 1 = Spinning tickslock"
  using timer_yield_deadlock[OF two_cpus_start] by blast


end
