(* ===== verification/Ide.thy ===== *)
theory Ide
  imports Bio
begin

text \<open>
  The driver of the IDE disk (\<^verbatim>\<open>ide.c\<close>): requests wait in a list linked through the buffers, the first one is the
  one the disk works on, and the interrupt handler finishes it and starts the next. The disk itself is the parameter
  \<open>hw\<close>: what a command does to it, its status byte when it is ready, and the words it delivers. The theory shows that
  the driver serves the requests in their order and that each has the effect that the synchronous \<^verbatim>\<open>iderw\<close> of
  \<^verbatim>\<open>memide.c\<close> has at once.
\<close>

section \<open>State\<close>

record qbuf = buf +
  b_qnext :: "nat option"

text \<open>What \<^verbatim>\<open>idestart\<close> writes to the ports 0x1f2 to 0x1f7, and the data of a write.\<close>

record idecmd =
  r_1f2 :: nat
  r_1f3 :: nat
  r_1f4 :: nat
  r_1f5 :: nat
  r_1f6 :: nat
  r_1f7 :: nat
  r_data :: block

record 'd idehw =
  hw_command :: "idecmd \<Rightarrow> 'd \<Rightarrow> 'd"
  hw_status :: "'d \<Rightarrow> nat"
  hw_data :: "'d \<Rightarrow> block"

record 'd idest =
  ide_pid :: int
  ide_bufs :: "nat \<Rightarrow> qbuf"
  idequeue :: "nat option"
  havedisk1 :: bool
  ide_disk :: 'd
  ide_woken :: "nat list"

abbreviation FSSIZE :: nat where "FSSIZE \<equiv> 200000"

definition upd_qbuf :: "nat \<Rightarrow> (qbuf \<Rightarrow> qbuf) \<Rightarrow> ('d idest, unit) K" where
  "upd_qbuf i f = modK (\<lambda>s. s\<lparr>ide_bufs := (ide_bufs s)(i := f (ide_bufs s i))\<rparr>)"

section \<open>Code\<close>

text \<open>\<^verbatim>\<open>idewait\<close>, from the first status without \<^verbatim>\<open>IDE_BSY\<close> and with \<^verbatim>\<open>IDE_DRDY\<close> on.\<close>

definition idewait :: "'d idehw \<Rightarrow> bool \<Rightarrow> ('d idest, int) K" where
  "idewait hw checkerr =
     bindK (getK (\<lambda>s. hw_status hw (ide_disk s))) (\<lambda>r.
     if checkerr \<and> r AND 33 \<noteq> 0 then ret (-1) else ret 0)"

text \<open>\<^verbatim>\<open>ideinit\<close>: \<open>reads\<close> are the bytes that port 0x1f7 gives once disk 1 is selected.\<close>

definition ideinit :: "nat list \<Rightarrow> ('d idest, unit) K" where
  "ideinit reads = modK (\<lambda>s. if list_ex (\<lambda>r. r \<noteq> 0) (take 1000 reads) then s\<lparr>havedisk1 := True\<rparr> else s)"

definition ide_command :: "qbuf \<Rightarrow> idecmd" where
  "ide_command b =
     (let sector_per_block = BSIZE div 512;
          sector = b_blockno b * sector_per_block
      in \<lparr>r_1f2 = sector_per_block, r_1f3 = sector mod 256, r_1f4 = sector div 256 mod 256, r_1f5 = sector div 65536 mod 256,
          r_1f6 = 224 OR (b_dev b mod 2 * 16) OR (sector div 16777216 mod 16),
          r_1f7 = (if b_dirty b then 48 else 32), r_data = (if b_dirty b then b_data b else [])\<rparr>)"

definition idestart :: "'d idehw \<Rightarrow> nat option \<Rightarrow> ('d idest, unit) K" where
  "idestart hw p =
     (case p of
        None \<Rightarrow> panic ''idestart''
      | Some i \<Rightarrow>
          bindK (getK (\<lambda>s. ide_bufs s i)) (\<lambda>b.
          if b_blockno b \<ge> FSSIZE then panic ''incorrect blockno''
          else
            bindK (idewait hw False) (\<lambda>_.
            modK (\<lambda>s. s\<lparr>ide_disk := hw_command hw (ide_command b) (ide_disk s)\<rparr>))))"

definition ideintr :: "'d idehw \<Rightarrow> ('d idest, unit) K" where
  "ideintr hw =
     bindK (getK idequeue) (\<lambda>p.
     case p of
       None \<Rightarrow> ret ()
     | Some i \<Rightarrow>
         bindK (getK (\<lambda>s. ide_bufs s i)) (\<lambda>b.
         thenK (modK (\<lambda>s. s\<lparr>idequeue := b_qnext b\<rparr>))
         (thenK (whenK (\<not> b_dirty b)
           (bindK (idewait hw True) (\<lambda>r.
            whenK (r \<ge> 0) (bindK (getK (\<lambda>s. hw_data hw (ide_disk s))) (\<lambda>d. upd_qbuf i (\<lambda>b. b\<lparr>b_data := d\<rparr>))))))
         (thenK (upd_qbuf i (\<lambda>b. b\<lparr>b_valid := True, b_dirty := False\<rparr>))
         (thenK (modK (\<lambda>s. s\<lparr>ide_woken := ide_woken s @ [i]\<rparr>))
         (bindK (getK idequeue) (\<lambda>q.
         whenK (q \<noteq> None) (idestart hw q))))))))"

text \<open>The loop that finds the end of the list, with a bound on its rounds.\<close>

primrec ide_append :: "nat \<Rightarrow> nat \<Rightarrow> nat \<Rightarrow> ('d idest, unit) K" where
  "ide_append 0 i j = stopK (Fault ''idequeue'')"
| "ide_append (Suc n) i j =
     bindK (getK (\<lambda>s. b_qnext (ide_bufs s j))) (\<lambda>q.
     case q of
       None \<Rightarrow> upd_qbuf j (\<lambda>b. b\<lparr>b_qnext := Some i\<rparr>)
     | Some k \<Rightarrow> ide_append n i k)"

text \<open>\<^verbatim>\<open>iderw\<close> up to the loop in which the process waits, and a round of that loop.\<close>

definition ide_submit :: "'d idehw \<Rightarrow> nat \<Rightarrow> ('d idest, unit) K" where
  "ide_submit hw i =
     bindK (getK (\<lambda>s. (ide_bufs s i, ide_pid s, havedisk1 s))) (\<lambda>(b, pid, have1).
     if \<not> holdingsleep pid (b_lock b) then panic ''iderw: buf not locked''
     else if b_valid b \<and> \<not> b_dirty b then panic ''iderw: nothing to do''
     else if b_dev b \<noteq> 0 \<and> \<not> have1 then panic ''iderw: ide disk 1 not present''
     else
       thenK (upd_qbuf i (\<lambda>b. b\<lparr>b_qnext := None\<rparr>))
       (bindK (getK idequeue) (\<lambda>q.
       thenK (case q of None \<Rightarrow> modK (\<lambda>s. s\<lparr>idequeue := Some i\<rparr>) | Some j \<Rightarrow> ide_append NBUF i j)
       (bindK (getK idequeue) (\<lambda>q.
       whenK (q = Some i) (idestart hw (Some i)))))))"

definition ide_wait :: "nat \<Rightarrow> ('d idest, unit) K" where
  "ide_wait i =
     bindK (getK (\<lambda>s. ide_bufs s i)) (\<lambda>b.
     if b_valid b \<and> \<not> b_dirty b then ret () else stopK (Sleeps ''buffer''))"

section \<open>The disk and the synchronous driver\<close>

text \<open>The device and sector that the registers name, and what a disk does with a command. \<open>img\<close> is what is on the disk.\<close>

type_synonym image = "nat \<times> nat \<Rightarrow> block"

definition cmd_target :: "idecmd \<Rightarrow> nat \<times> nat" where
  "cmd_target c = (r_1f6 c div 16 mod 2, r_1f3 c + 256 * r_1f4 c + 65536 * r_1f5 c + 16777216 * (r_1f6 c mod 16))"

definition hw_ok :: "'d idehw \<Rightarrow> ('d \<Rightarrow> image) \<Rightarrow> bool" where
  "hw_ok hw img \<longleftrightarrow>
     (\<forall>c d. r_1f2 c = 1 \<and> r_1f7 c = 48 \<longrightarrow> img (hw_command hw c d) = (img d)(cmd_target c := r_data c)) \<and>
     (\<forall>c d. r_1f2 c = 1 \<and> r_1f7 c = 32 \<longrightarrow> img (hw_command hw c d) = img d \<and>
        hw_data hw (hw_command hw c d) = img d (cmd_target c) \<and> hw_status hw (hw_command hw c d) AND 33 = 0)"

definition target :: "'e buf_scheme \<Rightarrow> nat \<times> nat" where
  "target b = (b_dev b mod 2, b_blockno b)"

text \<open>The transfer of a buffer at once, as \<^verbatim>\<open>memide.c\<close> does it.\<close>

definition serve :: "nat \<Rightarrow> image \<times> (nat \<Rightarrow> buf) \<Rightarrow> image \<times> (nat \<Rightarrow> buf)" where
  "serve i mb =
     (let (m, B) = mb; b = B i in
      if b_dirty b then (m(target b := b_data b), B(i := b\<lparr>b_dirty := False, b_valid := True\<rparr>))
      else (m, B(i := b\<lparr>b_data := m (target b), b_valid := True\<rparr>)))"

lemma serve_iderw:
  assumes "iderw i s = Inr ((), t)" "i < length (bufs s)"
  shows "serve i (\<lambda>(d, n). memdisk s n, (!) (bufs s)) = (m, B) \<Longrightarrow> (\<forall>n. m (1, n) = memdisk t n) \<and> (\<forall>j < length (bufs s). B j = bufs t ! j)"
  using assms by (auto simp: iderw_def serve_def target_def ROOTDEV_def Let_def upd_buf_def nth_list_update split: if_splits)

text \<open>The registers hold the device and the block.\<close>

lemma sector_bytes:
  fixes n :: nat
  assumes "n < FSSIZE"
  shows "n mod 256 + 256 * (n div 256 mod 256) + 65536 * (n div 65536 mod 256) = n"
proof -
  have "n div 65536 < 256" using assms by (simp add: less_mult_imp_div_less)
  then have "n div 65536 mod 256 = n div 256 div 256" by (simp add: div_mult2_eq[symmetric])
  moreover have "256 * (n div 256 mod 256) + 65536 * (n div 256 div 256) = 256 * (n div 256)"
    using mod_mult_div_eq[of "n div 256" 256] by linarith
  ultimately show ?thesis using mod_mult_div_eq[of n 256] by linarith
qed

lemma ide_command_target:
  assumes "b_blockno b < FSSIZE"
  shows "cmd_target (ide_command b) = target b" "r_1f2 (ide_command b) = 1" "r_1f7 (ide_command b) = (if b_dirty b then 48 else 32)"
    "b_dirty b \<Longrightarrow> r_data (ide_command b) = b_data b"
proof -
  have "b_dev b mod 2 = 0 \<or> b_dev b mod 2 = 1" by arith
  then have "(224 OR (b_dev b mod 2 * 16) OR 0) div 16 mod 2 = b_dev b mod 2 \<and> (224 OR (b_dev b mod 2 * 16) OR (0::nat)) mod 16 = 0"
    by auto
  moreover have "b_blockno b div 16777216 = 0" using assms by simp
  ultimately show "cmd_target (ide_command b) = target b"
    using sector_bytes[OF assms] assms by (simp add: less_mult_imp_div_less cmd_target_def ide_command_def target_def Let_def)
qed (simp_all add: ide_command_def Let_def)

section \<open>The queue\<close>

primrec linked :: "(nat \<Rightarrow> nat option) \<Rightarrow> nat option \<Rightarrow> nat list \<Rightarrow> bool" where
  "linked f p [] \<longleftrightarrow> p = None"
| "linked f p (x # xs) \<longleftrightarrow> p = Some x \<and> linked f (f x) xs"

primrec queue_from :: "nat \<Rightarrow> (nat \<Rightarrow> nat option) \<Rightarrow> nat option \<Rightarrow> nat list" where
  "queue_from 0 f p = []"
| "queue_from (Suc n) f p = (case p of None \<Rightarrow> [] | Some x \<Rightarrow> x # queue_from n f (f x))"

abbreviation qnext :: "'d idest \<Rightarrow> nat \<Rightarrow> nat option" where
  "qnext s \<equiv> \<lambda>i. b_qnext (ide_bufs s i)"

definition ide_queue :: "'d idest \<Rightarrow> nat list" where
  "ide_queue s = queue_from NBUF (qnext s) (idequeue s)"

lemma queue_from_linked: "linked f p xs \<Longrightarrow> length xs \<le> n \<Longrightarrow> queue_from n f p = xs"
proof (induction xs arbitrary: p n)
  case Nil
  then show ?case by (cases n) auto
next
  case (Cons x xs)
  then show ?case by (cases n) auto
qed

lemma linked_upd: "linked f p xs \<Longrightarrow> i \<notin> set xs \<Longrightarrow> linked (f(i := q)) p xs"
  by (induction xs arbitrary: p) auto

lemma linked_snoc:
  assumes "linked f (Some j) (xs @ [k])" "i \<notin> set (xs @ [k])" "distinct (xs @ [k])"
  shows "linked (f(k := Some i, i := None)) (Some j) (xs @ [k, i])"
  using assms
proof (induction xs arbitrary: j)
  case (Cons x xs)
  then show ?case by (cases xs) auto
qed auto

text \<open>The bound on the loop suffices for a list of distinct buffers.\<close>

lemma ide_append_eq:
  "linked (qnext s) (Some j) (xs @ [k]) \<Longrightarrow> length xs < n \<Longrightarrow>
   ide_append n i j s = Inr ((), s\<lparr>ide_bufs := (ide_bufs s)(k := (ide_bufs s k)\<lparr>b_qnext := Some i\<rparr>)\<rparr>)"
proof (induction xs arbitrary: j n)
  case Nil
  then show ?case by (cases n) (auto simp: kdefs upd_qbuf_def fun_upd_def)
next
  case (Cons x xs)
  obtain m where n: "n = Suc m" using Cons.prems(2) by (cases n) auto
  obtain y where "qnext s x = Some y" "linked (qnext s) (Some y) (xs @ [k])" using Cons.prems(1) by (cases xs) auto
  with Cons.IH[of y m] Cons.prems n show ?case by (simp add: kdefs)
qed

section \<open>The invariant\<close>

text \<open>\<open>behind img s q (m, B)\<close>: the driver has served all requests but those of \<open>q\<close>, which are in its list in this order, where
  \<open>m\<close> and \<open>B\<close> are the disk and the buffers without the request that the disk works on.\<close>

definition pending :: "'e buf_scheme \<Rightarrow> bool" where
  "pending b \<longleftrightarrow> b_blockno b < FSSIZE \<and> \<not> (b_valid b \<and> \<not> b_dirty b)"

definition started :: "'d idehw \<Rightarrow> ('d \<Rightarrow> image) \<Rightarrow> 'e buf_scheme \<Rightarrow> image \<Rightarrow> 'd \<Rightarrow> bool" where
  "started hw img b m d \<longleftrightarrow>
     (if b_dirty b then img d = m(target b := b_data b)
      else img d = m \<and> hw_data hw d = m (target b) \<and> hw_status hw d AND 33 = 0)"

definition behind :: "'d idehw \<Rightarrow> ('d \<Rightarrow> image) \<Rightarrow> 'd idest \<Rightarrow> nat list \<Rightarrow> image \<times> (nat \<Rightarrow> buf) \<Rightarrow> bool" where
  "behind hw img s q mb \<longleftrightarrow>
     linked (qnext s) (idequeue s) q \<and> distinct q \<and> set q \<subseteq> {..<NBUF} \<and> (\<forall>i \<in> set q. pending (ide_bufs s i)) \<and>
     (\<forall>i. buf.truncate (ide_bufs s i) = snd mb i) \<and>
     (case q of [] \<Rightarrow> img (ide_disk s) = fst mb | h # _ \<Rightarrow> started hw img (ide_bufs s h) (fst mb) (ide_disk s))"

lemma length_queue: "distinct q \<Longrightarrow> set q \<subseteq> {..<NBUF} \<Longrightarrow> length q \<le> NBUF"
  by (metis card_lessThan card_mono distinct_card finite_lessThan)

lemma behind_queue: "behind hw img s q mb \<Longrightarrow> ide_queue s = q"
  by (simp add: behind_def ide_queue_def queue_from_linked length_queue)

lemma idestart_eq:
  assumes "hw_ok hw img" "pending (ide_bufs s i)"
  shows "\<exists>d. idestart hw (Some i) s = Inr ((), s\<lparr>ide_disk := d\<rparr>) \<and> started hw img (ide_bufs s i) (img (ide_disk s)) d"
proof -
  let ?b = "ide_bufs s i"
  have "b_blockno ?b < FSSIZE" using assms(2) by (simp add: pending_def)
  note c = ide_command_target[OF this]
  have "started hw img ?b (img (ide_disk s)) (hw_command hw (ide_command ?b) (ide_disk s))"
    using assms(1) c by (simp add: started_def hw_ok_def)
  moreover have "idestart hw (Some i) s = Inr ((), s\<lparr>ide_disk := hw_command hw (ide_command ?b) (ide_disk s)\<rparr>)"
    using \<open>b_blockno ?b < FSSIZE\<close> by (simp add: idestart_def idewait_def kdefs)
  ultimately show ?thesis by blast
qed

lemma truncate_sel [simp]:
  "b_dirty (buf.truncate b) = b_dirty b" "b_data (buf.truncate b) = b_data b" "target (buf.truncate b) = target b"
  by (simp_all add: buf.defs target_def)

lemma truncate_upd [simp]:
  "buf.truncate (b\<lparr>b_data := d\<rparr>) = (buf.truncate b)\<lparr>b_data := d\<rparr>"
  "buf.truncate (b\<lparr>b_valid := v\<rparr>) = (buf.truncate b)\<lparr>b_valid := v\<rparr>"
  "buf.truncate (b\<lparr>b_dirty := v\<rparr>) = (buf.truncate b)\<lparr>b_dirty := v\<rparr>"
  "buf.truncate ((b :: qbuf)\<lparr>b_qnext := n\<rparr>) = buf.truncate b"
  by (simp_all add: buf.defs)

lemma qnext_irrelevant [simp]:
  "pending ((b :: qbuf)\<lparr>b_qnext := n\<rparr>) = pending b" "started hw img (b\<lparr>b_qnext := n\<rparr>) m d = started hw img b m d"
  by (simp_all add: pending_def started_def target_def)

definition enters :: "'d idest \<Rightarrow> nat \<Rightarrow> bool" where
  "enters s i \<longleftrightarrow> i < NBUF \<and> pending (ide_bufs s i) \<and> holdingsleep (ide_pid s) (b_lock (ide_bufs s i)) \<and>
     (b_dev (ide_bufs s i) = 0 \<or> havedisk1 s)"

lemma ide_submit_empty:
  assumes "hw_ok hw img" "behind hw img s [] mb" "enters s i"
  shows "\<exists>t. ide_submit hw i s = Inr ((), t) \<and> behind hw img t [i] mb"
proof -
  define s1 where "s1 = s\<lparr>ide_bufs := (ide_bufs s)(i := (ide_bufs s i)\<lparr>b_qnext := None\<rparr>), idequeue := Some i\<rparr>"
  have p: "pending (ide_bufs s1 i)" using assms(3) by (simp add: s1_def enters_def)
  obtain d where d: "idestart hw (Some i) s1 = Inr ((), s1\<lparr>ide_disk := d\<rparr>)" "started hw img (ide_bufs s1 i) (img (ide_disk s1)) d"
    using idestart_eq[OF assms(1) p] by blast
  have "idequeue s = None" using assms(2) by (simp add: behind_def)
  then have "ide_submit hw i s = idestart hw (Some i) s1"
    using assms(3) by (auto simp: ide_submit_def enters_def pending_def kdefs upd_qbuf_def s1_def)
  moreover have "behind hw img (s1\<lparr>ide_disk := d\<rparr>) [i] mb"
    using assms(2,3) d(2) p by (simp add: behind_def s1_def enters_def)
  ultimately show ?thesis using d(1) by auto
qed

lemma ide_submit_busy:
  assumes "behind hw img s (xs @ [k]) mb" "enters s i" "i \<notin> set (xs @ [k])"
  shows "\<exists>t. ide_submit hw i s = Inr ((), t) \<and> behind hw img t (xs @ [k, i]) mb"
proof -
  define s1 where "s1 = s\<lparr>ide_bufs := (ide_bufs s)(i := (ide_bufs s i)\<lparr>b_qnext := None\<rparr>)\<rparr>"
  define t where "t = s1\<lparr>ide_bufs := (ide_bufs s1)(k := (ide_bufs s1 k)\<lparr>b_qnext := Some i\<rparr>)\<rparr>"
  have q: "linked (qnext s) (idequeue s) (xs @ [k])" "distinct (xs @ [k])" "set (xs @ [k]) \<subseteq> {..<NBUF}"
    using assms(1) by (simp_all add: behind_def)
  obtain j where j: "idequeue s = Some j" "j \<in> set (xs @ [k])" using q(1) by (cases xs) auto
  have "qnext s1 = (qnext s)(i := None)" by (auto simp: s1_def)
  then have "linked (qnext s1) (Some j) (xs @ [k])" using linked_upd[OF q(1) assms(3)] j(1) by simp
  moreover have "length xs < NBUF" using length_queue[OF q(2,3)] by simp
  ultimately have "ide_append NBUF i j s1 = Inr ((), t)" using ide_append_eq by (simp add: t_def)
  then have sub: "ide_submit hw i s = Inr ((), t)"
    using assms(2,3) j by (auto simp: ide_submit_def enters_def pending_def kdefs upd_qbuf_def s1_def t_def)
  have n: "qnext t = (qnext s)(k := Some i, i := None)" using assms(3) by (auto simp: s1_def t_def)
  have "idequeue t = Some j" using j(1) by (simp add: s1_def t_def)
  then have "linked (qnext t) (idequeue t) (xs @ [k, i])"
    unfolding n using linked_snoc[of "qnext s" j xs k i] q assms(3) j(1) by simp
  moreover have "pending (ide_bufs t a) = pending (ide_bufs s a)" "buf.truncate (ide_bufs t a) = buf.truncate (ide_bufs s a)"
    "started hw img (ide_bufs t a) m (ide_disk t) = started hw img (ide_bufs s a) m (ide_disk s)" for a m
    by (simp_all add: s1_def t_def)
  ultimately have "behind hw img t (xs @ [k, i]) mb"
    using assms q by (cases xs) (simp_all add: behind_def enters_def)
  with sub show ?thesis by blast
qed

lemma ide_submit_ok:
  assumes "hw_ok hw img" "behind hw img s q mb" "enters s i" "i \<notin> set q"
  shows "\<exists>t. ide_submit hw i s = Inr ((), t) \<and> behind hw img t (q @ [i]) mb"
proof (cases q rule: rev_cases)
  case Nil
  then show ?thesis using ide_submit_empty[OF assms(1) _ assms(3)] assms(2) by simp
next
  case (snoc xs k)
  then show ?thesis using ide_submit_busy[of hw img s xs k mb i] assms(2-4) by simp
qed

lemma ideintr_ok:
  assumes "hw_ok hw img" "behind hw img s (h # q) mb"
  shows "\<exists>t. ideintr hw s = Inr ((), t) \<and> behind hw img t q (serve h mb)"
proof -
  let ?b = "ide_bufs s h"
  define b where "b = (if b_dirty ?b then ?b else ?b\<lparr>b_data := hw_data hw (ide_disk s)\<rparr>)\<lparr>b_valid := True, b_dirty := False\<rparr>"
  define s1 where "s1 = s\<lparr>idequeue := b_qnext ?b, ide_bufs := (ide_bufs s)(h := b), ide_woken := ide_woken s @ [h]\<rparr>"
  have st: "started hw img ?b (fst mb) (ide_disk s)" and B: "\<And>i. buf.truncate (ide_bufs s i) = snd mb i"
    and q: "idequeue s = Some h" "linked (qnext s) (b_qnext ?b) q" "h \<notin> set q" "distinct q" "set q \<subseteq> {..<NBUF}"
      "\<And>i. i \<in> set q \<Longrightarrow> pending (ide_bufs s i)"
    using assms(2) by (simp_all add: behind_def)
  have run: "ideintr hw s = whenK (idequeue s1 \<noteq> None) (idestart hw (idequeue s1)) s1"
    using st q(1) by (simp add: ideintr_def idewait_def started_def kdefs upd_qbuf_def s1_def b_def fun_upd_def if_distrib cong: if_cong)
  have "qnext s1 = (qnext s)(h := b_qnext b)" by (auto simp: s1_def)
  then have c: "linked (qnext s1) (idequeue s1) q" using linked_upd[OF q(2,3)] by (simp add: s1_def)
  obtain m where mb: "mb = (m, \<lambda>i. buf.truncate (ide_bufs s i))" using B by (cases mb) auto
  have m: "img (ide_disk s1) = fst (serve h mb)"
    using st by (simp add: mb serve_def started_def s1_def Let_def split: if_splits)
  have B1: "buf.truncate (ide_bufs s1 i) = snd (serve h mb) i" for i
    by (rule buf.equality) (use st in \<open>auto simp: mb serve_def started_def s1_def b_def Let_def\<close>)
  have p1: "pending (ide_bufs s1 i)" if "i \<in> set q" for i using q(3,6) that by (auto simp: s1_def)
  show ?thesis
  proof (cases q)
    case Nil
    then show ?thesis using run c m B1 by (auto simp: behind_def kdefs)
  next
    case (Cons k q')
    then obtain d where d: "idestart hw (Some k) s1 = Inr ((), s1\<lparr>ide_disk := d\<rparr>)" "started hw img (ide_bufs s1 k) (img (ide_disk s1)) d"
      using idestart_eq[OF assms(1) p1] by auto
    have "behind hw img (s1\<lparr>ide_disk := d\<rparr>) q (serve h mb)"
      using Cons c q(4,5) p1 B1 d(2) m by (simp add: behind_def)
    then show ?thesis using run c d(1) Cons by (auto simp: kdefs)
  qed
qed

section \<open>Requests, interrupts and the users of the buffers\<close>

text \<open>\<open>Request pid i\<close>: a process that holds the lock of a buffer calls \<^verbatim>\<open>iderw\<close>; \<open>Intr\<close>: the disk interrupts; \<open>Change i f\<close>: a process
  changes a buffer that no request is about (its data, its lock, the block it is for).\<close>

datatype ide_ev = Request int nat | Intr | Change nat "buf \<Rightarrow> buf"

definition ide_event :: "'d idehw \<Rightarrow> ide_ev \<Rightarrow> ('d idest, unit) K" where
  "ide_event hw e =
     (case e of
        Request pid i \<Rightarrow> thenK (modK (\<lambda>s. s\<lparr>ide_pid := pid\<rparr>)) (ide_submit hw i)
      | Intr \<Rightarrow> ideintr hw
      | Change i f \<Rightarrow> upd_qbuf i (\<lambda>b. buf.extend (f (buf.truncate b)) (buf.more b)))"

definition allowed :: "'d idest \<Rightarrow> ide_ev \<Rightarrow> bool" where
  "allowed s e \<longleftrightarrow>
     (case e of
        Request pid i \<Rightarrow> i \<notin> set (ide_queue s) \<and> enters (s\<lparr>ide_pid := pid\<rparr>) i
      | Intr \<Rightarrow> True
      | Change i f \<Rightarrow> i \<notin> set (ide_queue s))"

definition sync_event :: "ide_ev \<Rightarrow> image \<times> (nat \<Rightarrow> buf) \<Rightarrow> image \<times> (nat \<Rightarrow> buf)" where
  "sync_event e mb =
     (case e of
        Request pid i \<Rightarrow> serve i mb
      | Intr \<Rightarrow> mb
      | Change i f \<Rightarrow> (fst mb, (snd mb)(i := f (snd mb i))))"

inductive ide_run :: "'d idehw \<Rightarrow> 'd idest \<Rightarrow> ide_ev list \<Rightarrow> 'd idest \<Rightarrow> bool" for hw s where
  ide_run_start: "ide_run hw s [] s"
| ide_run_event: "ide_run hw s es t \<Longrightarrow> allowed t e \<Longrightarrow> ide_event hw e t = Inr ((), u) \<Longrightarrow> ide_run hw s (es @ [e]) u"

definition view :: "('d \<Rightarrow> image) \<Rightarrow> 'd idest \<Rightarrow> image \<times> (nat \<Rightarrow> buf)" where
  "view img s = (img (ide_disk s), \<lambda>i. buf.truncate (ide_bufs s i))"

lemma serve_apart:
  "i \<notin> set q \<Longrightarrow> fold serve q (m, B(i := x)) = (fst (fold serve q (m, B)), (snd (fold serve q (m, B)))(i := x)) \<and>
     snd (fold serve q (m, B)) i = B i"
proof (induction q arbitrary: m B)
  case (Cons h q)
  obtain m' B' where h: "serve h (m, B) = (m', B')" by fastforce
  then have "serve h (m, B(i := x)) = (m', B'(i := x))" "B' i = B i"
    using Cons.prems by (auto simp: serve_def Let_def fun_upd_twist split: if_splits)
  with h Cons show ?case by (simp add: fun_upd_def)
qed simp

lemma extend_sel [simp]:
  "b_qnext (buf.extend x (buf.more (b :: qbuf))) = b_qnext b" "buf.truncate (buf.extend x m) = (x :: buf)"
  by (cases b; simp add: buf.defs) (cases x; simp add: buf.defs)

lemma buf_change_ok:
  assumes "behind hw img s q mb" "i \<notin> set q"
  shows "\<exists>t. ide_event hw (Change i f) s = Inr ((), t) \<and> behind hw img t q (sync_event (Change i f) mb) \<and>
    fold serve q (sync_event (Change i f) mb) = sync_event (Change i f) (fold serve q mb)"
proof -
  define t where "t = s\<lparr>ide_bufs := (ide_bufs s)(i := buf.extend (f (buf.truncate (ide_bufs s i))) (buf.more (ide_bufs s i)))\<rparr>"
  have n: "qnext t = qnext s" by (auto simp: t_def)
  have same: "ide_bufs t j = ide_bufs s j" if "j \<in> set q" for j using assms(2) that by (auto simp: t_def)
  have B: "buf.truncate (ide_bufs t j) = snd (sync_event (Change i f) mb) j" for j
    using assms(1) by (auto simp: behind_def sync_event_def t_def)
  have "fst (sync_event (Change i f) mb) = fst mb" "idequeue t = idequeue s" "ide_disk t = ide_disk s"
    by (simp_all add: sync_event_def t_def)
  with assms(1) n same B have "behind hw img t q (sync_event (Change i f) mb)"
    by (simp add: behind_def split: list.splits)
  moreover have "ide_event hw (Change i f) s = Inr ((), t)" by (simp add: ide_event_def kdefs upd_qbuf_def t_def fun_upd_def)
  ultimately show ?thesis using serve_apart[OF assms(2), of "fst mb" "snd mb"] by (simp add: sync_event_def)
qed

lemma ide_event_ok:
  assumes "hw_ok hw img" "behind hw img s q mb" "allowed s e"
  shows "\<exists>t q' mb'. ide_event hw e s = Inr ((), t) \<and> behind hw img t q' mb' \<and> fold serve q' mb' = sync_event e (fold serve q mb)"
proof (cases e)
  case (Request pid i)
  have "behind hw img (s\<lparr>ide_pid := pid\<rparr>) q mb" using assms(2) by (simp add: behind_def split: list.splits)
  moreover have "enters (s\<lparr>ide_pid := pid\<rparr>) i" "i \<notin> set q" using assms(3) Request behind_queue[OF assms(2)] by (simp_all add: allowed_def)
  ultimately obtain t where "ide_submit hw i (s\<lparr>ide_pid := pid\<rparr>) = Inr ((), t)" "behind hw img t (q @ [i]) mb"
    using ide_submit_ok[OF assms(1)] by blast
  then show ?thesis
    by - (rule exI[of _ t], rule exI[of _ "q @ [i]"], rule exI[of _ mb], simp add: Request ide_event_def sync_event_def kdefs)
next
  case Intr
  show ?thesis
  proof (cases q)
    case Nil
    then have "ide_event hw e s = Inr ((), s)" using Intr assms(2) by (simp add: behind_def ide_event_def ideintr_def kdefs)
    with Nil Intr assms(2) show ?thesis
      by - (rule exI[of _ s], rule exI[of _ "[]"], rule exI[of _ mb], simp add: sync_event_def)
  next
    case (Cons h q')
    then obtain t where "ideintr hw s = Inr ((), t)" "behind hw img t q' (serve h mb)" using ideintr_ok assms(1,2) by blast
    with Cons Intr show ?thesis
      by - (rule exI[of _ t], rule exI[of _ q'], rule exI[of _ "serve h mb"], simp add: ide_event_def sync_event_def)
  qed
next
  case (Change i f)
  with assms(3) behind_queue[OF assms(2)] have "i \<notin> set q" by (simp add: allowed_def)
  from buf_change_ok[OF assms(2) this] show ?thesis unfolding Change by blast
qed

lemma ide_run_behind:
  assumes "ide_run hw s es t" "hw_ok hw img" "idequeue s = None"
  shows "\<exists>q mb. behind hw img t q mb \<and> fold serve q mb = fold sync_event es (view img s)"
  using assms(1)
proof induction
  case ide_run_start
  have "behind hw img s [] (view img s)" using assms(3) by (simp add: behind_def view_def)
  then show ?case by fastforce
next
  case (ide_run_event es t e u)
  then obtain q mb where q: "behind hw img t q mb" "fold serve q mb = fold sync_event es (view img s)" by blast
  from ide_event_ok[OF assms(2) this(1) ide_run_event.hyps(2)] ide_run_event.hyps(3) q(2) show ?case by auto
qed

lemma ide_drain:
  assumes "hw_ok hw img" "behind hw img t q mb" "ide_run hw s es t"
  shows "\<exists>u. ide_run hw s (es @ replicate (length q) Intr) u \<and> behind hw img u [] (fold serve q mb)"
  using assms(2,3)
proof (induction q arbitrary: t mb es)
  case (Cons h q)
  then obtain v where v: "ideintr hw t = Inr ((), v)" "behind hw img v q (serve h mb)" using ideintr_ok[OF assms(1)] by blast
  have "ide_run hw s (es @ [Intr]) v"
    by (rule ide_run_event[OF Cons.prems(2)]) (simp_all add: allowed_def ide_event_def v(1))
  from Cons.IH[OF v(2) this] show ?case by simp
qed auto

text \<open>(C34) The driver is a synchronous one: from an idle disk and in every sequence of requests, interrupts and uses of
  buffers, no step fails; a process whose wait in \<^verbatim>\<open>iderw\<close> is over has in its buffer what a driver would have left that
  did every request at once, in the order in which they came; and after at most as many interrupts as there
  are buffers the list is empty and the disk and all buffers are those of that driver.\<close>

theorem ide_synchronous:
  assumes "hw_ok hw img" "idequeue s = None" "ide_run hw s es t" "fold sync_event es (view img s) = (m, B)"
  shows "(\<forall>e. allowed t e \<longrightarrow> (\<exists>u. ide_event hw e t = Inr ((), u))) \<and>
    (\<forall>i. ide_wait i t = Inr ((), t) \<longrightarrow> buf.truncate (ide_bufs t i) = B i) \<and>
    (\<exists>n u. n \<le> NBUF \<and> ide_run hw s (es @ replicate n Intr) u \<and> idequeue u = None \<and> view img u = (m, B))"
proof -
  obtain q mb where q: "behind hw img t q mb" "fold serve q mb = (m, B)" using ide_run_behind[OF assms(3,1,2)] assms(4) by auto
  have "buf.truncate (ide_bufs t i) = B i" if "ide_wait i t = Inr ((), t)" for i
  proof -
    have "\<not> pending (ide_bufs t i)" using that by (auto simp: ide_wait_def pending_def kdefs split: if_splits)
    then have "i \<notin> set q" using q(1) by (auto simp: behind_def)
    with serve_apart[of i q "fst mb" "snd mb"] q show ?thesis by (simp add: behind_def)
  qed
  moreover obtain u where u: "ide_run hw s (es @ replicate (length q) Intr) u" "behind hw img u [] (m, B)"
    using ide_drain[OF assms(1) q(1) assms(3)] q(2) by auto
  have "idequeue u = None" "view img u = (m, B)" using u(2) by (auto simp: behind_def view_def)
  moreover have "length q \<le> NBUF" using q(1) length_queue by (simp add: behind_def)
  ultimately show ?thesis using ide_event_ok[OF assms(1) q(1)] u(1) by blast
qed

text \<open>A disk that does what it is told, and two requests of which the second waits for the first.\<close>

definition plain_disk :: "(image \<times> block) idehw" where
  "plain_disk =
     \<lparr>hw_command = (\<lambda>c (m, x). if r_1f7 c = 48 then (m(cmd_target c := r_data c), x) else (m, m (cmd_target c))),
      hw_status = (\<lambda>_. 64), hw_data = snd\<rparr>"

definition plain_qbuf :: "bool \<Rightarrow> nat \<Rightarrow> block \<Rightarrow> int \<Rightarrow> qbuf" where
  "plain_qbuf d n x pid =
     \<lparr>b_valid = d, b_dirty = d, b_dev = 1, b_blockno = n, b_lock = \<lparr>sl_locked = True, sl_pid = pid\<rparr>, b_refcnt = 1, b_data = x,
      b_qnext = None\<rparr>"

definition plain_ide :: "(image \<times> block) idest" where
  "plain_ide =
     \<lparr>ide_pid = 0, ide_bufs = (\<lambda>i. if i = 4 then plain_qbuf True 77777 [7] 1 else plain_qbuf False 77777 [] 2), idequeue = None,
      havedisk1 = True, ide_disk = (\<lambda>_. [], []), ide_woken = []\<rparr>"

lemma plain_disk_ok: "hw_ok plain_disk fst"
  by (auto simp: hw_ok_def plain_disk_def)

lemma plain_ide_run: "\<exists>t. ide_run plain_disk plain_ide [Request 1 4, Request 2 5] t"
proof -
  have 0: "behind plain_disk fst plain_ide [] (view fst plain_ide)" by (simp add: behind_def view_def plain_ide_def)
  have a: "allowed plain_ide (Request 1 4)"
    using behind_queue[OF 0] by (simp add: allowed_def) (simp add: enters_def pending_def plain_ide_def plain_qbuf_def holdingsleep_def NBUF_def)
  obtain t where t: "ide_submit plain_disk 4 (plain_ide\<lparr>ide_pid := 1\<rparr>) = Inr ((), t)"
    and b: "behind plain_disk fst t [4] (view fst plain_ide)"
    using ide_submit_empty[OF plain_disk_ok, of "plain_ide\<lparr>ide_pid := 1\<rparr>" "view fst plain_ide" 4] 0 a
    by (auto simp: allowed_def behind_def)
  have t1: "ide_bufs t 5 = plain_qbuf False 77777 [] 2" "havedisk1 t"
    using t by (auto simp: ide_submit_def plain_ide_def plain_qbuf_def holdingsleep_def kdefs upd_qbuf_def idestart_def idewait_def)
  have c: "allowed t (Request 2 5)"
    by (simp add: allowed_def behind_queue[OF b] enters_def pending_def t1 plain_qbuf_def holdingsleep_def NBUF_def)
  obtain u where "ide_event plain_disk (Request 2 5) t = Inr ((), u)" using ide_event_ok[OF plain_disk_ok b c] by blast
  moreover have "ide_event plain_disk (Request 1 4) plain_ide = Inr ((), t)" using t by (simp add: ide_event_def kdefs)
  ultimately have "ide_run plain_disk plain_ide (([] @ [Request 1 4]) @ [Request 2 5]) u"
    using ide_run_event[OF ide_run_event[OF ide_run_start a] c] by blast
  then show ?thesis by auto
qed

theorem ide_synchronous_witness:
  "\<exists>n u. n \<le> NBUF \<and> ide_run plain_disk plain_ide ([Request 1 4, Request 2 5] @ replicate n Intr) u \<and> idequeue u = None \<and>
     b_data (ide_bufs u 5) = [7] \<and> fst (ide_disk u) (1, 77777) = [7]"
proof -
  obtain t where t: "ide_run plain_disk plain_ide [Request 1 4, Request 2 5] t" using plain_ide_run by blast
  obtain m B where mb: "fold sync_event [Request 1 4, Request 2 5] (view fst plain_ide) = (m, B)" by fastforce
  have "b_data (B 5) = [7]" "m (1, 77777) = [7]"
    using mb by (auto simp: sync_event_def serve_def view_def plain_ide_def plain_qbuf_def target_def buf.defs Let_def)
  moreover have "idequeue plain_ide = None" by (simp add: plain_ide_def)
  from ide_synchronous[OF plain_disk_ok this t mb] obtain n u where
    "n \<le> NBUF" "ide_run plain_disk plain_ide ([Request 1 4, Request 2 5] @ replicate n Intr) u" "idequeue u = None" "view fst u = (m, B)"
    by blast
  moreover from this(4) have "b_data (ide_bufs u 5) = b_data (B 5)" "fst (ide_disk u) = m"
    by (auto simp: view_def buf.defs)
  ultimately show ?thesis by metis
qed

end
