(* ===== verification/Grep.thy ===== *)
theory Grep
  imports CString
begin

text \<open>
  The pattern matcher and the line buffer of \<^verbatim>\<open>grep.c\<close>. A C string is the list of its bytes before the terminating
  zero. The matcher is compared with the language that a pattern describes: the characters \<^verbatim>\<open>.\<close>, \<^verbatim>\<open>*\<close>, a \<^verbatim>\<open>$\<close> at the end
  and a \<^verbatim>\<open>^\<close> at the beginning are special. The line buffer is compared with the lines of the whole input.
\<close>

abbreviation dot :: u8 where "dot \<equiv> 46"
abbreviation star :: u8 where "star \<equiv> 42"
abbreviation dollar :: u8 where "dollar \<equiv> 36"
abbreviation caret :: u8 where "caret \<equiv> 94"
abbreviation nl :: u8 where "nl \<equiv> 10"

section \<open>The matcher\<close>

text \<open>\<^verbatim>\<open>matchhere\<close> and \<^verbatim>\<open>matchstar\<close>: the pattern gets shorter, or stays and the text gets shorter.\<close>

function (sequential) matchhere :: "u8 list \<Rightarrow> u8 list \<Rightarrow> bool"
  and matchstar :: "u8 \<Rightarrow> u8 list \<Rightarrow> u8 list \<Rightarrow> bool" where
  "matchhere [] text = True"
| "matchhere (c # re) text =
     (if re \<noteq> [] \<and> hd re = star then matchstar c (tl re) text
      else if c = dollar \<and> re = [] then text = []
      else (case text of [] \<Rightarrow> False | x # text' \<Rightarrow> (c = dot \<or> c = x) \<and> matchhere re text'))"
| "matchstar c re [] = matchhere re []"
| "matchstar c re (x # text) = (matchhere re (x # text) \<or> (x = c \<or> c = dot) \<and> matchstar c re text)"
  by pat_completeness auto
termination
  by (relation "inv_image ({(x, y). x < (y::nat)} <*lex*> {(x, y). x < (y::nat)})
      (\<lambda>x. case x of Inl (re, text) \<Rightarrow> (2 * length re, length text) | Inr (c, re, text) \<Rightarrow> (2 * length re + 1, length text))")
    (auto simp: wf_less neq_Nil_conv)

primrec match_from :: "u8 list \<Rightarrow> u8 list \<Rightarrow> bool" where
  "match_from re [] = matchhere re []"
| "match_from re (x # text) = (matchhere re (x # text) \<or> match_from re text)"

definition match :: "u8 list \<Rightarrow> u8 list \<Rightarrow> bool" where
  "match re text = (if re \<noteq> [] \<and> hd re = caret then matchhere (tl re) text else match_from re text)"

section \<open>The line buffer\<close>

text \<open>\<^verbatim>\<open>strchr(p, '\n')\<close> looks no further than the first zero byte.\<close>

definition has_line :: "u8 list \<Rightarrow> bool" where
  "has_line p \<longleftrightarrow> nl \<in> set (takeWhile (\<lambda>c. c \<noteq> 0) p)"

abbreviation line_of :: "u8 list \<Rightarrow> u8 list" where "line_of \<equiv> takeWhile (\<lambda>c. c \<noteq> nl)"
abbreviation after_line :: "u8 list \<Rightarrow> u8 list" where "after_line p \<equiv> tl (dropWhile (\<lambda>c. c \<noteq> nl) p)"

lemma after_line_shorter: "has_line p \<Longrightarrow> length (after_line p) < length p"
proof -
  assume "has_line p"
  then have "nl \<in> set p" by (auto simp: has_line_def dest: set_takeWhileD)
  then have "dropWhile (\<lambda>c. c \<noteq> nl) p \<noteq> []" by auto
  then have "length (after_line p) < length (dropWhile (\<lambda>c. c \<noteq> nl) p)" by simp
  also have "\<dots> \<le> length p" by (rule length_dropWhile_le)
  finally show ?thesis .
qed

text \<open>The inner loop of \<^verbatim>\<open>grep\<close>: the output for the lines of the buffer, and the bytes behind the last newline.\<close>

function grep_lines :: "u8 list \<Rightarrow> u8 list \<Rightarrow> u8 list \<times> u8 list" where
  "grep_lines pattern p =
     (if has_line p then
        let (out, rest) = grep_lines pattern (after_line p)
        in (if match pattern (line_of p) then line_of p @ [nl] @ out else out, rest)
      else ([], p))"
  by pat_completeness auto
termination
  by (relation "measure (\<lambda>(r, p). length p)") (auto dest: after_line_shorter)

text \<open>The outer loop: \<open>m\<close> are the bytes kept in the buffer, \<open>reads\<close> what the following calls of \<^verbatim>\<open>read\<close> return, each at most as long
  as the room in the buffer.\<close>

fun grep_loop :: "u8 list \<Rightarrow> u8 list \<Rightarrow> u8 list list \<Rightarrow> u8 list" where
  "grep_loop pattern m [] = []"
| "grep_loop pattern m (r # reads) =
     (if r = [] then []
      else
        let buf = m @ r; (out, rest) = grep_lines pattern buf
        in out @ grep_loop pattern (if length rest = length buf then [] else rest) reads)"

definition grep :: "u8 list \<Rightarrow> u8 list list \<Rightarrow> u8 list" where
  "grep pattern reads = grep_loop pattern [] reads"

declare grep_lines.simps [simp del]

section \<open>What a pattern means\<close>

datatype item = One u8 | Star u8 | Last

fun items :: "u8 list \<Rightarrow> item list" where
  "items [] = []"
| "items [c] = (if c = dollar then [Last] else [One c])"
| "items (c # d # re) = (if d = star then Star c # items re else One c # items (d # re))"

definition accepts :: "u8 \<Rightarrow> u8 \<Rightarrow> bool" where
  "accepts c x \<longleftrightarrow> c = dot \<or> c = x"

text \<open>\<open>sat its text\<close>: a prefix of \<open>text\<close> matches the items; a star stands for any number of characters.\<close>

primrec sat :: "item list \<Rightarrow> u8 list \<Rightarrow> bool" where
  "sat [] text = True"
| "sat (i # its) text =
     (case i of
        One c \<Rightarrow> text \<noteq> [] \<and> accepts c (hd text) \<and> sat its (tl text)
      | Star c \<Rightarrow> \<exists>k \<le> length text. list_all (accepts c) (take k text) \<and> sat its (drop k text)
      | Last \<Rightarrow> text = [])"

lemma star_step:
  "(\<exists>k \<le> length text. list_all P (take k text) \<and> Q (drop k text)) \<longleftrightarrow>
   Q text \<or> text \<noteq> [] \<and> P (hd text) \<and> (\<exists>k \<le> length (tl text). list_all P (take k (tl text)) \<and> Q (drop k (tl text)))"
    (is "?l = ?r")
proof
  assume ?l
  then obtain k where k: "k \<le> length text" "list_all P (take k text)" "Q (drop k text)" by blast
  show ?r
  proof (cases k)
    case 0
    with k show ?thesis by simp
  next
    case (Suc n)
    with k show ?thesis by (cases "text") auto
  qed
next
  assume ?r
  then consider "Q text" | k where "text \<noteq> []" "P (hd text)" "k \<le> length (tl text)" "list_all P (take k (tl text))" "Q (drop k (tl text))"
    by blast
  then show ?l
  proof cases
    case 1
    then show ?thesis by (auto intro: exI[of _ 0])
  next
    case 2
    then show ?thesis by (intro exI[of _ "Suc k"]) (cases "text", simp_all)
  qed
qed

lemma matchhere_sat:
  "matchhere re text \<longleftrightarrow> sat (items re) text"
  "matchstar c re text \<longleftrightarrow> (\<exists>k \<le> length text. list_all (accepts c) (take k text) \<and> sat (items re) (drop k text))"
proof (induction re "text" and c re "text" rule: matchhere_matchstar.induct)
  case (2 c re t)
  show ?case
  proof (cases "re \<noteq> [] \<and> hd re = star")
    case True
    then show ?thesis using 2(1) by (cases re) auto
  next
    case False
    then show ?thesis using 2(2) by (cases re; cases t) (auto simp: accepts_def)
  qed
next
  case (4 c re x t)
  have "x = c \<or> c = dot \<longleftrightarrow> accepts c x" by (auto simp: accepts_def)
  with 4 show ?case by (subst star_step) simp
qed simp_all

lemma match_from_iff: "match_from re text \<longleftrightarrow> (\<exists>k \<le> length text. matchhere re (drop k text))"
proof (induction "text")
  case (Cons x t)
  with star_step[of "x # t" "\<lambda>_. True" "matchhere re"] show ?case by (simp add: list_all_iff)
qed simp

text \<open>(C38) The matcher decides the language of the pattern: a pattern that begins with \<^verbatim>\<open>^\<close> must match at the beginning of the
  text, any other at some place of it.\<close>

theorem match_correct:
  "match re text \<longleftrightarrow>
     (case re of
        [] \<Rightarrow> True
      | c # rest \<Rightarrow> if c = caret then sat (items rest) text else (\<exists>k \<le> length text. sat (items re) (drop k text)))"
  by (auto simp: match_def match_from_iff matchhere_sat split: list.splits)

section \<open>Lines across reads\<close>

text \<open>The lines of a text that a pattern matches, each with its newline; what is behind the last newline is no line.\<close>

fun matching_lines :: "u8 list \<Rightarrow> u8 list \<Rightarrow> u8 list \<Rightarrow> u8 list" where
  "matching_lines pattern acc [] = []"
| "matching_lines pattern acc (c # cs) =
     (if c = nl then (if match pattern acc then acc @ [nl] else []) @ matching_lines pattern [] cs
      else matching_lines pattern (acc @ [c]) cs)"

lemma matching_lines_append:
  "matching_lines pattern acc (p @ q) =
     matching_lines pattern acc p @ matching_lines pattern (if nl \<in> set p then rev (line_of (rev p)) else acc @ p) q"
proof (induction pattern acc p rule: matching_lines.induct)
  case (2 pattern acc c cs)
  have "line_of (rev cs @ [c]) = (if nl \<in> set cs then line_of (rev cs) else if c = nl then rev cs else rev cs @ [c])"
    by (induction cs rule: rev_induct) auto
  with 2 show ?case by auto
qed simp

lemma has_line_iff:
  assumes "0 \<notin> set p"
  shows "has_line p \<longleftrightarrow> nl \<in> set p"
proof -
  have "takeWhile (\<lambda>c. c \<noteq> 0) p = p" using assms by (auto simp: takeWhile_eq_all_conv)
  then show ?thesis by (simp only: has_line_def)
qed

lemma no_line: "nl \<notin> set p \<Longrightarrow> matching_lines pattern acc p = []"
  by (induction pattern acc p rule: matching_lines.induct) auto

lemma first_line:
  "nl \<in> set p \<Longrightarrow> matching_lines pattern acc p =
     (if match pattern (acc @ line_of p) then acc @ line_of p @ [nl] else []) @ matching_lines pattern [] (after_line p)"
  by (induction pattern acc p rule: matching_lines.induct) auto

lemma last_part: "nl \<in> set p \<Longrightarrow> nl \<in> set (after_line p) \<Longrightarrow> line_of (rev (after_line p)) = line_of (rev p)"
  "nl \<in> set p \<Longrightarrow> nl \<notin> set (after_line p) \<Longrightarrow> rev (line_of (rev p)) = after_line p"
  by (induction p) (auto simp: takeWhile_append)

lemma grep_lines_eq:
  "0 \<notin> set p \<Longrightarrow> grep_lines pattern p = (matching_lines pattern [] p, if nl \<in> set p then rev (line_of (rev p)) else p)"
proof (induction pattern p rule: grep_lines.induct)
  case (1 pattern p)
  show ?case
  proof (cases "nl \<in> set p")
    case True
    have "0 \<notin> set (after_line p)"
      using 1(2) by (metis list.set_sel(2) set_dropWhileD tl_Nil)
    then have "grep_lines pattern (after_line p) =
      (matching_lines pattern [] (after_line p), if nl \<in> set (after_line p) then rev (line_of (rev (after_line p))) else after_line p)"
      using 1 True by (simp add: has_line_iff)
    then show ?thesis
      using True 1(2) last_part[OF True] first_line[OF True, of pattern "[]"] by (subst grep_lines.simps) (simp add: has_line_iff)
  next
    case False
    then show ?thesis using 1(2) by (subst grep_lines.simps) (simp add: has_line_iff no_line)
  qed
qed

lemma rest_shorter: "nl \<in> set p \<Longrightarrow> length (rev (line_of (rev p))) < length p"
  by (induction p rule: rev_induct) auto

lemma grep_loop_eq:
  "\<lbrakk>\<forall>r \<in> set reads. nl \<in> set r \<and> 0 \<notin> set r; nl \<notin> set m; 0 \<notin> set m\<rbrakk> \<Longrightarrow>
   grep_loop pattern m reads = matching_lines pattern [] (m @ concat reads)"
proof (induction reads arbitrary: m)
  case Nil
  then show ?case by (simp add: no_line)
next
  case (Cons r reads)
  let ?p = "m @ r" and ?rest = "rev (line_of (rev (m @ r)))"
  have p: "nl \<in> set ?p" "0 \<notin> set ?p" "r \<noteq> []" using Cons.prems by auto
  have "nl \<notin> set ?rest" "0 \<notin> set ?rest" using p(2) by (auto dest: set_takeWhileD)
  then have "grep_loop pattern ?rest reads = matching_lines pattern [] (?rest @ concat reads)" using Cons by simp
  moreover have "matching_lines pattern [] (?p @ concat reads) = matching_lines pattern [] ?p @ matching_lines pattern ?rest (concat reads)"
    using p(1) matching_lines_append[of pattern "[]" ?p] by simp
  moreover have "matching_lines pattern [] (?rest @ concat reads) = matching_lines pattern ?rest (concat reads)"
    using \<open>nl \<notin> set ?rest\<close> matching_lines_append[of pattern "[]" ?rest] by (simp add: no_line)
  ultimately show ?case using p rest_shorter[OF p(1)] by (simp add: grep_lines_eq)
qed

text \<open>(C39) What is printed: when each read brings at least one newline, and the file has no zero byte, the output is
  the matching lines of the file, however the reads cut it into pieces.\<close>

theorem grep_prints_lines:
  assumes "\<forall>r \<in> set reads. nl \<in> set r \<and> 0 \<notin> set r"
  shows "grep pattern reads = matching_lines pattern [] (concat reads)"
  using grep_loop_eq[OF assms, of "[]" pattern] by (simp add: grep_def)

theorem grep_prints_lines_witness:
  "grep [97, 42, 98] [[97, 97, 98, 10, 99], [10, 98, 10]] = [97, 97, 98, 10, 98, 10]"
proof -
  have "matching_lines [97, 42, 98] [] [97, 97, 98, 10, 99, 10, 98, 10] = [97, 97, 98, 10, 98, 10]" by (simp add: match_def)
  then show ?thesis using grep_prints_lines[of "[[97, 97, 98, 10, 99], [10, 98, 10]]" "[97, 42, 98]"] by simp
qed

text \<open>(C40) What is lost: a read without a newline, as a pipe or the console can return it, is forgotten when the
  buffer held nothing before it, so that the line it belongs to is searched only from the next read on.\<close>

theorem grep_loses_partial_line:
  assumes "r \<noteq> []" "nl \<notin> set r"
  shows "grep pattern (r # reads) = grep pattern reads"
proof -
  have "\<not> has_line r" using assms(2) by (auto simp: has_line_def dest: set_takeWhileD)
  then have "grep_lines pattern r = ([], r)" by (subst grep_lines.simps) simp
  then show ?thesis using assms(1) by (simp add: grep_def)
qed

theorem grep_loses_partial_line_witness:
  "matching_lines [97, 98] [] [97, 98, 10] = [97, 98, 10] \<and> grep [97, 98] [[97], [98, 10]] = []"
proof -
  have "matching_lines [97, 98] [] [97, 98, 10] = [97, 98, 10]" "grep [97, 98] [[98, 10]] = []"
    by (simp_all add: grep_def grep_lines.simps[of _ "[98, 10]"] grep_lines.simps[of _ "[]"] has_line_def match_def)
  then show ?thesis using grep_loses_partial_line[of "[97]" "[97, 98]" "[[98, 10]]"] by simp
qed

end
