(* ===== verification/Sh.thy ===== *)
theory Sh
  imports CString
begin

text \<open>
  The parser of the shell (\<^verbatim>\<open>sh.c\<close>). The input is the list of the bytes from the pointer \<^verbatim>\<open>*ps\<close> to the end \<^verbatim>\<open>es\<close> of the line; a
  word, which the code keeps as two pointers into the line and terminates with a zero at the very end, is the list of its bytes.
  A call of \<^verbatim>\<open>panic\<close>, which ends the shell's child, is an error value. The theory shows that the parser ends on every line,
  that it reads back every command from a printed form, and that the programs a command starts have the descriptors they
  should have.
\<close>

section \<open>Commands\<close>

datatype cmd =
    EXEC "u8 list list"
  | REDIR cmd "u8 list" nat nat
  | PIPE cmd cmd
  | LIST cmd cmd
  | BACK cmd

datatype parse_error = Syntax string | No_fuel

type_synonym 'a parse = "parse_error + 'a \<times> u8 list"

abbreviation MAXARGS :: nat where "MAXARGS \<equiv> 10"
abbreviation O_RDONLY :: nat where "O_RDONLY \<equiv> 0"
abbreviation O_WRONLY_CREATE :: nat where "O_WRONLY_CREATE \<equiv> 513"

abbreviation c_pipe :: u8 where "c_pipe \<equiv> 124"
abbreviation c_open :: u8 where "c_open \<equiv> 40"
abbreviation c_close :: u8 where "c_close \<equiv> 41"
abbreviation c_semi :: u8 where "c_semi \<equiv> 59"
abbreviation c_amp :: u8 where "c_amp \<equiv> 38"
abbreviation c_less :: u8 where "c_less \<equiv> 60"
abbreviation c_gt :: u8 where "c_gt \<equiv> 62"
abbreviation c_plus :: u8 where "c_plus \<equiv> 43"
abbreviation c_a :: u8 where "c_a \<equiv> 97"

definition whitespace :: "u8 list" where
  "whitespace = [32, 9, 13, 10, 11]"

definition symbols :: "u8 list" where
  "symbols = [c_less, c_pipe, c_gt, c_amp, c_semi, c_open, c_close]"

section \<open>Tokens\<close>

definition skip :: "u8 list \<Rightarrow> u8 list" where
  "skip s = dropWhile (\<lambda>c. c \<in> set whitespace) s"

definition word_char :: "u8 \<Rightarrow> bool" where
  "word_char c \<longleftrightarrow> c \<notin> set whitespace \<and> c \<notin> set symbols"

text \<open>The kind of token (0 at the end of the line), its bytes, and the line behind it and the white space that follows.\<close>

definition gettoken :: "u8 list \<Rightarrow> u8 \<times> u8 list \<times> u8 list" where
  "gettoken ps =
     (let s = skip ps in
      case s of
        [] \<Rightarrow> (0, [], [])
      | c # r \<Rightarrow>
          if c \<in> set [c_pipe, c_open, c_close, c_semi, c_amp, c_less] then (c, [c], skip r)
          else if c = c_gt then
            if r \<noteq> [] \<and> hd r = c_gt then (c_plus, [c, c], skip (tl r)) else (c_gt, [c], skip r)
          else (c_a, takeWhile word_char s, skip (dropWhile word_char s)))"

definition peek :: "u8 list \<Rightarrow> u8 list \<Rightarrow> bool \<times> u8 list" where
  "peek ps toks = (let s = skip ps in (s \<noteq> [] \<and> hd s \<in> set toks, s))"

lemma skip_length [simp]: "length (skip s) \<le> length s"
  by (simp add: skip_def length_dropWhile_le)

lemma skip_skip [simp]: "skip (skip s) = skip s"
  by (simp add: skip_def)

lemma skip_hd: "skip s = c # r \<Longrightarrow> c \<notin> set whitespace"
  unfolding skip_def by (metis hd_dropWhile list.discI list.sel(1))

text \<open>A token that is there takes at least one byte.\<close>

lemma gettoken_shorter:
  assumes "gettoken ps = (t, w, r)"
  shows "length r \<le> length ps" "t \<noteq> 0 \<Longrightarrow> length r < length ps" "skip ps \<noteq> [] \<Longrightarrow> length r < length ps" "skip r = r"
proof -
  have s: "length (skip ps) \<le> length ps" by simp
  have d: "length (skip (dropWhile word_char cs)) \<le> length cs" for cs
    by (meson le_trans length_dropWhile_le skip_length)
  have "skip ps \<noteq> [] \<and> length r < length (skip ps) \<and> skip r = r \<or> skip ps = [] \<and> t = 0 \<and> r = []"
  proof (cases "skip ps")
    case Nil
    with assms show ?thesis by (simp add: gettoken_def)
  next
    case (Cons c cs)
    have n: "c \<notin> set whitespace" by (rule skip_hd[OF Cons])
    have l: "length (skip cs) < length (skip ps)" "cs \<noteq> [] \<Longrightarrow> length (skip (tl cs)) < length (skip ps)"
      "length (skip (dropWhile word_char cs)) < length (skip ps)"
      using Cons le_trans[OF skip_length, of "tl cs" "length cs"] d[of cs] by (simp_all add: le_imp_less_Suc)
    show ?thesis
    proof (cases "c \<in> set symbols")
      case True
      with assms Cons l show ?thesis by (auto simp: gettoken_def symbols_def split: if_splits)
    next
      case False
      then have "word_char c" using n by (simp add: word_char_def)
      with assms Cons l False show ?thesis by (auto simp: gettoken_def symbols_def)
    qed
  qed
  with s show "length r \<le> length ps" "t \<noteq> 0 \<Longrightarrow> length r < length ps" "skip ps \<noteq> [] \<Longrightarrow> length r < length ps" "skip r = r"
    by (auto simp: skip_def)
qed

section \<open>The parser\<close>

text \<open>\<^verbatim>\<open>redircmd\<close> wraps a command; \<^verbatim>\<open>parseexec\<close> fills the command inside while the redirections are wrapped around it, so these
  are kept as a list until it is complete.\<close>

type_synonym redir = "u8 list \<times> nat \<times> nat"

definition redircmds :: "cmd \<Rightarrow> redir list \<Rightarrow> cmd" where
  "redircmds c rs = foldl (\<lambda>c (file, mode, fd). REDIR c file mode fd) c rs"

function parseredirs :: "redir list \<Rightarrow> u8 list \<Rightarrow> (redir list) parse" where
  "parseredirs rs ps =
     (let (found, ps) = peek ps [c_less, c_gt] in
      if \<not> found then Inr (rs, ps)
      else
        let (tok, _, ps) = gettoken ps; (kind, q, ps) = gettoken ps in
        if kind \<noteq> c_a then Inl (Syntax ''missing file for redirection'')
        else parseredirs (rs @ [if tok = c_less then (q, O_RDONLY, 0) else (q, O_WRONLY_CREATE, 1)]) ps)"
  by pat_completeness auto
termination
proof (relation "measure (\<lambda>(rs, ps). length ps)", simp, goal_cases)
  case (1 rs ps x found ps' y tok z w ps2 v kind u q ps3)
  have "gettoken ps' = (tok, w, ps2)" "gettoken ps2 = (kind, q, ps3)" "ps' = skip ps" using 1 by (auto simp: peek_def Let_def)
  moreover have "skip ps' \<noteq> []" using 1 by (auto simp: peek_def Let_def)
  ultimately have "length ps2 < length (skip ps)" "length ps3 \<le> length ps2"
    using gettoken_shorter(1)[of ps2] gettoken_shorter(3)[of ps'] by auto
  moreover have "length (skip ps) \<le> length ps" by simp
  ultimately have "length ps3 < length ps" by linarith
  then show ?case by simp
qed

declare parseredirs.simps [simp del]

lemma parseredirs_shorter: "parseredirs rs ps = Inr (rs', r) \<Longrightarrow> length r \<le> length ps"
proof (induction rs ps rule: parseredirs.induct)
  case (1 rs ps)
  obtain tok w ps2 where t: "gettoken (skip ps) = (tok, w, ps2)" by (metis prod_cases3)
  obtain kind q ps3 where t2: "gettoken ps2 = (kind, q, ps3)" by (metis prod_cases3)
  have l: "length ps3 \<le> length ps" "length (skip ps) \<le> length ps"
    using gettoken_shorter(1)[OF t] gettoken_shorter(1)[OF t2] skip_length[of ps] by linarith+
  from 1(2) show ?case
    using 1(1)[OF refl _ _ t[symmetric] refl] t t2 l
    by (subst (asm) parseredirs.simps) (fastforce simp: peek_def Let_def split: if_splits)
qed

text \<open>The loop of \<^verbatim>\<open>parseexec\<close> over the arguments.\<close>

function parseargs :: "u8 list list \<Rightarrow> redir list \<Rightarrow> u8 list \<Rightarrow> (u8 list list \<times> redir list) parse" where
  "parseargs argv rs ps =
     (let (found, ps) = peek ps [c_pipe, c_close, c_amp, c_semi] in
      if found then Inr ((argv, rs), ps)
      else
        let (tok, q, ps') = gettoken ps in
        if tok = 0 then Inr ((argv, rs), ps')
        else if tok \<noteq> c_a then Inl (Syntax ''syntax'')
        else if length argv + 1 \<ge> MAXARGS then Inl (Syntax ''too many args'')
        else
          (case parseredirs rs ps' of
             Inl e \<Rightarrow> Inl e
           | Inr (rs, ps) \<Rightarrow> parseargs (argv @ [q]) rs ps))"
  by pat_completeness auto
termination
proof (relation "measure (\<lambda>(argv, rs, ps). length ps)", simp, goal_cases)
  case (1 argv rs ps x found ps1 y tok z q ps2 b rs' ps3)
  have "gettoken ps1 = (tok, q, ps2)" "tok \<noteq> 0" "parseredirs rs ps2 = Inr (rs', ps3)" "ps1 = skip ps"
    using 1 by (auto simp: peek_def Let_def)
  then have "length ps3 \<le> length ps2" "length ps2 < length (skip ps)" 
    using parseredirs_shorter gettoken_shorter(2) by auto
  moreover have "length (skip ps) \<le> length ps" by simp
  ultimately have "length ps3 < length ps" by linarith
  then show ?case by simp
qed

declare parseargs.simps [simp del]

text \<open>The loop of \<^verbatim>\<open>parseline\<close> over ampersands.\<close>

function parseback :: "cmd \<Rightarrow> u8 list \<Rightarrow> cmd \<times> u8 list" where
  "parseback c ps =
     (let (found, ps) = peek ps [c_amp] in
      if \<not> found then (c, ps)
      else let (_, _, ps) = gettoken ps in parseback (BACK c) ps)"
  by pat_completeness auto
termination
proof (relation "measure (\<lambda>(c, ps). length ps)", simp, goal_cases)
  case (1 c ps x found ps1 y z a w ps2)
  then have "gettoken ps1 = (z, w, ps2)" "skip ps1 \<noteq> []" "ps1 = skip ps" by (auto simp: peek_def Let_def)
  then have "length ps2 < length (skip ps)" using gettoken_shorter(3) by auto
  moreover have "length (skip ps) \<le> length ps" by simp
  ultimately have "length ps2 < length ps" by linarith
  then show ?case by simp
qed

declare parseback.simps [simp del]

text \<open>The recursion between lines, pipes and blocks, with a bound on its depth.\<close>

fun parseline :: "nat \<Rightarrow> u8 list \<Rightarrow> cmd parse"
  and parsepipe :: "nat \<Rightarrow> u8 list \<Rightarrow> cmd parse"
  and parseexec :: "nat \<Rightarrow> u8 list \<Rightarrow> cmd parse"
  and parseblock :: "nat \<Rightarrow> u8 list \<Rightarrow> cmd parse" where
  "parseline 0 ps = Inl No_fuel"
| "parseline (Suc n) ps =
     (case parsepipe n ps of
        Inl e \<Rightarrow> Inl e
      | Inr (c, ps) \<Rightarrow>
          let (c, ps) = parseback c ps; (found, ps) = peek ps [c_semi] in
          if \<not> found then Inr (c, ps)
          else
            let (_, _, ps) = gettoken ps in
            case parseline n ps of Inl e \<Rightarrow> Inl e | Inr (d, ps) \<Rightarrow> Inr (LIST c d, ps))"
| "parsepipe 0 ps = Inl No_fuel"
| "parsepipe (Suc n) ps =
     (case parseexec n ps of
        Inl e \<Rightarrow> Inl e
      | Inr (c, ps) \<Rightarrow>
          let (found, ps) = peek ps [c_pipe] in
          if \<not> found then Inr (c, ps)
          else
            let (_, _, ps) = gettoken ps in
            case parsepipe n ps of Inl e \<Rightarrow> Inl e | Inr (d, ps) \<Rightarrow> Inr (PIPE c d, ps))"
| "parseexec 0 ps = Inl No_fuel"
| "parseexec (Suc n) ps =
     (let (found, ps) = peek ps [c_open] in
      if found then parseblock n ps
      else
        case parseredirs [] ps of
          Inl e \<Rightarrow> Inl e
        | Inr (rs, ps) \<Rightarrow>
            (case parseargs [] rs ps of Inl e \<Rightarrow> Inl e | Inr ((argv, rs), ps) \<Rightarrow> Inr (redircmds (EXEC argv) rs, ps)))"
| "parseblock 0 ps = Inl No_fuel"
| "parseblock (Suc n) ps =
     (let (found, ps) = peek ps [c_open] in
      if \<not> found then Inl (Syntax ''parseblock'')
      else
        let (_, _, ps) = gettoken ps in
        case parseline n ps of
          Inl e \<Rightarrow> Inl e
        | Inr (c, ps) \<Rightarrow>
            let (found, ps) = peek ps [c_close] in
            if \<not> found then Inl (Syntax ''syntax - missing )'')
            else
              let (_, _, ps) = gettoken ps in
              case parseredirs [] ps of Inl e \<Rightarrow> Inl e | Inr (rs, ps) \<Rightarrow> Inr (redircmds c rs, ps))"

definition parsecmd :: "u8 list \<Rightarrow> parse_error + cmd" where
  "parsecmd s =
     (case parseline (4 * length s + 4) s of
        Inl e \<Rightarrow> Inl e
      | Inr (c, ps) \<Rightarrow> if skip ps \<noteq> [] then Inl (Syntax ''syntax'') else Inr c)"

section \<open>The parser ends\<close>

text \<open>A result within a bound \<open>k\<close> on the depth: more than enough fuel is not used up, and no more input is left than there was.\<close>

definition fine :: "nat \<Rightarrow> nat \<Rightarrow> u8 list \<Rightarrow> 'a parse \<Rightarrow> bool" where
  "fine k n ps res \<longleftrightarrow> (case res of Inl e \<Rightarrow> 4 * length ps + k \<le> n \<longrightarrow> e \<noteq> No_fuel | Inr (_, r) \<Rightarrow> length r \<le> length ps)"

lemma peek_eq: "peek ps toks = (skip ps \<noteq> [] \<and> hd (skip ps) \<in> set toks, skip ps)"
  by (simp add: peek_def Let_def)

lemma peek_token:
  assumes "skip ps \<noteq> []" "gettoken (skip ps) = (t, w, r)"
  shows "length r < length ps"
  using gettoken_shorter(3)[OF assms(2)] assms(1) skip_length[of ps] by (simp del: skip_length)

lemma parseredirs_fine: "fine k n ps (parseredirs rs ps)"
proof (induction rs ps rule: parseredirs.induct)
  case (1 rs ps)
  obtain tok w ps2 where t: "gettoken (skip ps) = (tok, w, ps2)" by (metis prod_cases3)
  obtain kind q ps3 where t2: "gettoken ps2 = (kind, q, ps3)" by (metis prod_cases3)
  show ?case
  proof (cases "skip ps \<noteq> [] \<and> hd (skip ps) \<in> set [c_less, c_gt] \<and> kind = c_a")
    case True
    let ?rs = "rs @ [if tok = c_less then (q, O_RDONLY, 0) else (q, O_WRONLY_CREATE, 1)]"
    have "length ps3 < length ps" using True peek_token[OF _ t] gettoken_shorter(1)[OF t2] by simp
    moreover have "parseredirs rs ps = parseredirs ?rs ps3"
      using True t t2 by (subst parseredirs.simps) (simp add: peek_eq Let_def)
    moreover have "fine k n ps3 (parseredirs ?rs ps3)"
      using 1[OF peek_eq[symmetric] refl _ t[symmetric] refl refl t2[symmetric] refl refl] True by auto
    ultimately show ?thesis by (auto simp: fine_def split: sum.splits)
  next
    case False
    then show ?thesis using t t2 by (subst parseredirs.simps) (auto simp: peek_eq Let_def fine_def)
  qed
qed

lemma parseargs_fine: "fine k n ps (parseargs argv rs ps)"
proof (induction argv rs ps rule: parseargs.induct)
  case (1 argv rs ps)
  obtain tok q ps2 where t: "gettoken (skip ps) = (tok, q, ps2)" by (metis prod_cases3)
  have l: "length ps2 \<le> length ps" using gettoken_shorter(1)[OF t] skip_length[of ps] by linarith
  show ?case
  proof (cases "(skip ps \<noteq> [] \<and> hd (skip ps) \<in> set [c_pipe, c_close, c_amp, c_semi]) \<or> tok \<noteq> c_a \<or> length argv + 1 \<ge> MAXARGS")
    case True
    then show ?thesis using t l by (subst parseargs.simps) (auto simp: peek_eq Let_def fine_def)
  next
    case False
    show ?thesis
    proof (cases "parseredirs rs ps2")
      case (Inl e)
      then show ?thesis using False t l parseredirs_fine[of k n ps2 rs]
        by (subst parseargs.simps) (auto simp: peek_eq Let_def fine_def)
    next
      case (Inr x)
      then obtain rs' ps3 where x: "parseredirs rs ps2 = Inr (rs', ps3)" by (cases x) auto
      have "fine k n ps3 (parseargs (argv @ [q]) rs' ps3)"
        using 1[OF peek_eq[symmetric] refl _ t[symmetric] refl refl _ _ _ x refl] False by auto
      moreover have "parseargs argv rs ps = parseargs (argv @ [q]) rs' ps3"
        using False t x by (subst parseargs.simps) (auto simp: peek_eq Let_def)
      moreover have "length ps3 \<le> length ps" using parseredirs_shorter[OF x] l by simp
      ultimately show ?thesis by (auto simp: fine_def split: sum.splits)
    qed
  qed
qed

lemma parseback_shorter: "parseback c ps = (d, r) \<Longrightarrow> length r \<le> length ps"
proof (induction c ps rule: parseback.induct)
  case (1 c ps)
  obtain t w ps2 where t: "gettoken (skip ps) = (t, w, ps2)" by (metis prod_cases3)
  show ?case
  proof (cases "skip ps \<noteq> [] \<and> hd (skip ps) \<in> set [c_amp]")
    case True
    then have "parseback (BACK c) ps2 = (d, r)" using 1(2) t by (subst (asm) parseback.simps) (simp add: peek_eq Let_def)
    then have "length r \<le> length ps2" using 1(1)[OF peek_eq[symmetric] refl _ t[symmetric] refl refl] True by auto
    with peek_token[OF _ t] True show ?thesis by simp
  next
    case False
    then show ?thesis using 1(2) by (subst (asm) parseback.simps) (auto simp: peek_eq Let_def)
  qed
qed

declare skip_length [simp del]

lemma parsers_fine:
  "fine 4 n ps (parseline n ps) \<and> fine 3 n ps (parsepipe n ps) \<and> fine 2 n ps (parseexec n ps) \<and> fine 1 n ps (parseblock n ps)"
proof (induction n arbitrary: ps)
  case 0
  show ?case by (simp add: fine_def)
next
  case (Suc n)
  note ih = Suc[THEN conjunct1] Suc[THEN conjunct2, THEN conjunct1] Suc[THEN conjunct2, THEN conjunct2, THEN conjunct1]
    Suc[THEN conjunct2, THEN conjunct2, THEN conjunct2]
  note defs = fine_def peek_eq Let_def
  have "fine 4 (Suc n) ps (parseline (Suc n) ps)"
  proof (cases "parsepipe n ps")
    case (Inl e)
    then show ?thesis using ih(2)[of ps] by (simp add: fine_def)
  next
    case (Inr x)
    then obtain c ps1 where p: "parsepipe n ps = Inr (c, ps1)" by (cases x) auto
    obtain d ps2 where b: "parseback c ps1 = (d, ps2)" by fastforce
    obtain t w ps3 where t: "gettoken (skip ps2) = (t, w, ps3)" by (metis prod_cases3)
    have l: "length ps2 \<le> length ps" "skip ps2 \<noteq> [] \<Longrightarrow> length ps3 < length ps2"
      using ih(2)[of ps] p parseback_shorter[OF b] peek_token[OF _ t] by (simp_all add: fine_def)
    moreover have "length (skip ps2) \<le> length ps" using l(1) skip_length[of ps2] by linarith
    ultimately show ?thesis using p b t ih(1)[of ps3] by (auto simp: defs split: sum.splits)
  qed
  moreover have "fine 3 (Suc n) ps (parsepipe (Suc n) ps)"
  proof (cases "parseexec n ps")
    case (Inl e)
    then show ?thesis using ih(3)[of ps] by (simp add: fine_def)
  next
    case (Inr x)
    then obtain c ps1 where p: "parseexec n ps = Inr (c, ps1)" by (cases x) auto
    obtain t w ps3 where t: "gettoken (skip ps1) = (t, w, ps3)" by (metis prod_cases3)
    have l: "length ps1 \<le> length ps" "skip ps1 \<noteq> [] \<Longrightarrow> length ps3 < length ps1"
      using ih(3)[of ps] p peek_token[OF _ t] by (simp_all add: fine_def)
    moreover have "length (skip ps1) \<le> length ps" using l(1) skip_length[of ps1] by linarith
    ultimately show ?thesis using p t ih(2)[of ps3] by (auto simp: defs split: sum.splits)
  qed
  moreover have "fine 2 (Suc n) ps (parseexec (Suc n) ps)"
  proof (cases "parseredirs [] (skip ps)")
    case (Inl e)
    then show ?thesis using ih(4)[of "skip ps"] parseredirs_fine[of 2 "4 * length (skip ps) + 2" "skip ps" "[]"] skip_length[of ps]
      by (auto simp: defs split: sum.splits)
  next
    case (Inr x)
    then obtain rs ps1 where p: "parseredirs [] (skip ps) = Inr (rs, ps1)" by (cases x) auto
    show ?thesis using p ih(4)[of "skip ps"] parseargs_fine[of 2 "4 * length ps1 + 2" ps1 "[]" rs] parseredirs_shorter[OF p] skip_length[of ps]
      by (auto simp: defs split: sum.splits)
  qed
  moreover have "fine 1 (Suc n) ps (parseblock (Suc n) ps)"
  proof (cases "skip ps \<noteq> [] \<and> hd (skip ps) = c_open")
    case False
    then show ?thesis by (auto simp: defs)
  next
    case True
    obtain t w ps1 where t: "gettoken (skip ps) = (t, w, ps1)" by (metis prod_cases3)
    have l: "length ps1 < length ps" using peek_token[OF _ t] True by simp
    show ?thesis
    proof (cases "parseline n ps1")
      case (Inl e)
      then show ?thesis using True t l ih(1)[of ps1] by (auto simp: defs)
    next
      case (Inr x)
      then obtain c ps2 where p: "parseline n ps1 = Inr (c, ps2)" by (cases x) auto
      obtain t' w' ps3 where t': "gettoken (skip ps2) = (t', w', ps3)" by (metis prod_cases3)
      have "length ps2 \<le> length ps1" "skip ps2 \<noteq> [] \<Longrightarrow> length ps3 < length ps2"
        using ih(1)[of ps1] p peek_token[OF _ t'] by (simp_all add: fine_def)
      with True t l p t' parseredirs_fine[of 1 "4 * length ps3 + 1" ps3 "[]"] show ?thesis
        by (auto simp: defs split: sum.splits)
    qed
  qed
  ultimately show ?case by blast
qed

text \<open>(C36) The parser returns on every line, with a command or with the message of a syntax error: the bound on the depth
  of its recursion is never reached.\<close>

theorem parsecmd_ends: "parsecmd s \<noteq> Inl No_fuel"
  using parsers_fine[of "4 * length s + 4" s] by (auto simp: parsecmd_def fine_def split: sum.splits prod.splits)

section \<open>Reading back a command\<close>

text \<open>A printed form: words and redirections in the order in which they are parsed, subcommands in parentheses.\<close>

definition words :: "u8 list list \<Rightarrow> u8 list" where
  "words args = concat (map (\<lambda>w. w @ [32]) args)"

definition redirs :: "redir list \<Rightarrow> u8 list" where
  "redirs rs = concat (map (\<lambda>(file, mode, fd). (if mode = O_RDONLY then c_less else c_gt) # file @ [32]) rs)"

definition paren :: "u8 list \<Rightarrow> u8 list" where
  "paren s = c_open # s @ [c_close]"

fun plain :: "cmd \<Rightarrow> bool" where
  "plain (EXEC args) = True"
| "plain (REDIR c file mode fd) = True"
| "plain _ = False"

fun unparse :: "cmd \<Rightarrow> u8 list" where
  "unparse (EXEC args) = words args"
| "unparse (REDIR c file mode fd) = (if plain c then unparse c else paren (unparse c)) @ redirs [(file, mode, fd)]"
| "unparse (PIPE c d) = paren (unparse c) @ [c_pipe] @ paren (unparse d)"
| "unparse (LIST c d) = paren (unparse c) @ [c_semi] @ paren (unparse d)"
| "unparse (BACK c) = paren (unparse c) @ [c_amp]"

definition word_ok :: "u8 list \<Rightarrow> bool" where
  "word_ok w \<longleftrightarrow> w \<noteq> [] \<and> list_all word_char w"

definition redir_ok :: "redir \<Rightarrow> bool" where
  "redir_ok = (\<lambda>(file, mode, fd). word_ok file \<and> (mode = O_RDONLY \<and> fd = 0 \<or> mode = O_WRONLY_CREATE \<and> fd = 1))"

fun cmd_ok :: "cmd \<Rightarrow> bool" where
  "cmd_ok (EXEC args) \<longleftrightarrow> list_all word_ok args \<and> length args < MAXARGS"
| "cmd_ok (REDIR c file mode fd) \<longleftrightarrow> cmd_ok c \<and> redir_ok (file, mode, fd)"
| "cmd_ok (PIPE c d) \<longleftrightarrow> cmd_ok c \<and> cmd_ok d"
| "cmd_ok (LIST c d) \<longleftrightarrow> cmd_ok c \<and> cmd_ok d"
| "cmd_ok (BACK c) \<longleftrightarrow> cmd_ok c"

text \<open>\<open>starts xs s\<close>: \<open>s\<close> is empty or begins with one of the bytes \<open>xs\<close>.\<close>

definition starts :: "u8 list \<Rightarrow> u8 list \<Rightarrow> bool" where
  "starts xs s \<longleftrightarrow> s = [] \<or> hd s \<in> set xs"

lemma skip_Cons: "skip (c # r) = (if c \<in> set whitespace then skip r else c # r)"
  by (simp add: skip_def)

lemma skip_Nil [simp]: "skip [] = []"
  by (simp add: skip_def)

lemma skip_symbol [simp]: "c \<in> set symbols \<Longrightarrow> skip (c # r) = c # r"
  by (auto simp: skip_Cons symbols_def whitespace_def)

lemma skip_starts: "starts xs r \<Longrightarrow> set xs \<subseteq> set symbols \<Longrightarrow> skip r = r"
  by (cases r) (auto simp: starts_def)

lemma word_cases:
  assumes "word_ok w"
  obtains c cs where "w = c # cs" "c \<notin> set whitespace" "c \<notin> set symbols" "word_char c" "list_all word_char cs"
  using assms by (cases w) (auto simp: word_ok_def word_char_def)

lemma skip_word: "word_ok w \<Longrightarrow> skip (w @ r) = w @ r"
  by (erule word_cases) (simp add: skip_Cons)

lemma gettoken_word:
  assumes "word_ok w"
  shows "gettoken (w @ 32 # r) = (c_a, w, skip r)"
proof -
  have n: "\<not> word_char 32" by (simp add: word_char_def whitespace_def)
  have "list_all word_char w" using assms by (simp add: word_ok_def)
  then have w: "takeWhile word_char (w @ 32 # r) = w" "dropWhile word_char (w @ 32 # r) = 32 # r"
    using n by (simp_all add: list_all_iff takeWhile_append dropWhile_append)
  show ?thesis
    using assms skip_word[OF assms, of "32 # r"] w
    by (elim word_cases) (auto simp: gettoken_def symbols_def skip_Cons whitespace_def)
qed

lemma gettoken_symbol: "c \<in> set [c_pipe, c_open, c_close, c_semi, c_amp, c_less] \<Longrightarrow> gettoken (c # r) = (c, [c], skip r)"
  by (auto simp: gettoken_def skip_Cons whitespace_def)

lemma gettoken_gt: "r = [] \<or> hd r \<noteq> c_gt \<Longrightarrow> gettoken (c_gt # r) = (c_gt, [c_gt], skip r)"
  by (auto simp: gettoken_def skip_Cons whitespace_def)

lemma skip_redirs:
  assumes "skip r = r"
  shows "skip (redirs rs @ r) = redirs rs @ r"
  using assms by (cases rs) (auto simp: redirs_def symbols_def)

lemma skip_words:
  assumes "skip r = r" "list_all word_ok args"
  shows "skip (words args @ r) = words args @ r"
  using assms skip_word by (cases args) (auto simp: words_def)

lemma parseredirs_stop:
  "starts xs r \<Longrightarrow> c_less \<notin> set xs \<Longrightarrow> c_gt \<notin> set xs \<Longrightarrow> skip r = r \<Longrightarrow> parseredirs rs r = Inr (rs, r)"
  by (subst parseredirs.simps) (auto simp: peek_eq starts_def)

lemma parseredirs_text:
  assumes "starts xs r" "c_less \<notin> set xs" "c_gt \<notin> set xs" "skip r = r"
  shows "list_all redir_ok rs \<Longrightarrow> parseredirs rs0 (redirs rs @ r) = Inr (rs0 @ rs, r)"
proof (induction rs arbitrary: rs0)
  case Nil
  then show ?case using parseredirs_stop[OF assms] by (simp add: redirs_def)
next
  case (Cons x rs)
  obtain fn mode fd where x: "x = (fn, mode, fd)" by (cases x)
  let ?c = "if mode = O_RDONLY then c_less else c_gt" and ?rest = "redirs rs @ r"
  have f: "word_ok fn" "mode = O_RDONLY \<and> fd = 0 \<or> mode = O_WRONLY_CREATE \<and> fd = 1" using Cons.prems x by (auto simp: redir_ok_def)
  have s: "redirs (x # rs) @ r = ?c # fn @ 32 # ?rest" by (simp add: redirs_def x)
  have k: "skip (?c # fn @ 32 # ?rest) = ?c # fn @ 32 # ?rest" by (simp add: symbols_def)
  have "fn @ 32 # ?rest \<noteq> []" "hd (fn @ 32 # ?rest) \<noteq> c_gt" using f(1) by (auto elim!: word_cases simp: symbols_def)
  then have "gettoken (?c # fn @ 32 # ?rest) = (?c, [?c], fn @ 32 # ?rest)"
    using skip_word[OF f(1)] by (simp add: gettoken_symbol gettoken_gt)
  moreover have "gettoken (fn @ 32 # ?rest) = (c_a, fn, ?rest)" using gettoken_word[OF f(1)] skip_redirs[OF assms(4)] by simp
  ultimately have "parseredirs rs0 (redirs (x # rs) @ r) = parseredirs (rs0 @ [x]) ?rest"
    unfolding s using k f(2) x by (subst parseredirs.simps) (auto simp: peek_eq Let_def)
  then show ?case using Cons by simp
qed

lemma parseargs_stop:
  "starts [c_pipe, c_close, c_amp, c_semi] r \<Longrightarrow> parseargs argv rs r = Inr ((argv, rs), r)"
proof -
  assume r: "starts [c_pipe, c_close, c_amp, c_semi] r"
  then have "skip r = r" by (rule skip_starts) (simp add: symbols_def)
  with r show ?thesis by (subst parseargs.simps) (auto simp: peek_eq Let_def starts_def gettoken_def)
qed

lemma words_head:
  assumes "args \<noteq> []" "list_all word_ok args"
  shows "words args @ r \<noteq> [] \<and> hd (words args @ r) \<notin> set symbols"
  using assms by (cases args) (auto simp: words_def elim!: word_cases)

lemma parseargs_text:
  assumes r: "starts [c_pipe, c_close, c_amp, c_semi] r" and rs: "list_all redir_ok rs"
  shows "list_all word_ok args \<Longrightarrow> length argv + length args < MAXARGS \<Longrightarrow> args \<noteq> [] \<or> rs = [] \<Longrightarrow>
    parseargs argv rs0 (words args @ redirs rs @ r) = Inr ((argv @ args, rs0 @ rs), r)"
proof (induction args arbitrary: argv rs0)
  case Nil
  then show ?case using parseargs_stop[OF r] by (simp add: words_def redirs_def)
next
  case (Cons w ws)
  have k: "skip r = r" using r by (rule skip_starts) (simp add: symbols_def)
  let ?rest = "words ws @ redirs rs @ r"
  have s: "words (w # ws) @ redirs rs @ r = w @ 32 # ?rest" by (simp add: words_def)
  have w: "word_ok w" "list_all word_ok ws" using Cons.prems(1) by simp_all
  have sk: "skip ?rest = ?rest" by (rule skip_words[OF skip_redirs[OF k] w(2)])
  have hd: "hd (w @ 32 # ?rest) \<notin> set [c_pipe, c_close, c_amp, c_semi]" using w(1) by (auto elim!: word_cases simp: symbols_def)
  have "parseargs argv rs0 (words (w # ws) @ redirs rs @ r) =
    (case parseredirs rs0 ?rest of Inl e \<Rightarrow> Inl e | Inr (rs, ps) \<Rightarrow> parseargs (argv @ [w]) rs ps)"
    unfolding s using gettoken_word[OF w(1), of ?rest] skip_word[OF w(1)] hd sk Cons.prems(2)
    by (subst parseargs.simps) (auto simp: peek_eq Let_def)
  moreover have "(case parseredirs rs0 ?rest of Inl e \<Rightarrow> Inl e | Inr (rs, ps) \<Rightarrow> parseargs (argv @ [w]) rs ps) =
    Inr ((argv @ w # ws, rs0 @ rs), r)"
  proof (cases "ws = []")
    case True
    then show ?thesis using parseredirs_text[OF r _ _ k rs, of rs0] parseargs_stop[OF r] by (simp add: words_def)
  next
    case False
    have "parseredirs rs0 ?rest = Inr (rs0, ?rest)"
      using words_head[OF False w(2)] sk by (subst parseredirs.simps) (auto simp: peek_eq symbols_def)
    then show ?thesis using Cons.IH[OF w(2), of "argv @ [w]" rs0] Cons.prems(2) False by simp
  qed
  ultimately show ?case by simp
qed

lemma exec_text:
  assumes "starts [c_pipe, c_close, c_amp, c_semi] r" "list_all redir_ok rs" "list_all word_ok args" "length args < MAXARGS"
  shows "parseexec (Suc n) (words args @ redirs rs @ r) = Inr (redircmds (EXEC args) rs, r)"
proof -
  let ?s = "words args @ redirs rs @ r"
  have k: "skip r = r" using assms(1) by (rule skip_starts) (simp add: symbols_def)
  have sk: "skip ?s = ?s" by (rule skip_words[OF skip_redirs[OF k] assms(3)])
  have no: "\<not> (?s \<noteq> [] \<and> hd ?s = c_open)"
  proof (cases "args = []")
    case True
    then show ?thesis using assms(1) by (cases rs) (auto simp: words_def redirs_def starts_def split: prod.splits if_splits)
  next
    case False
    then show ?thesis using words_head[OF False assms(3), of "redirs rs @ r"] by (auto simp: symbols_def)
  qed
  show ?thesis
  proof (cases "args = []")
    case True
    then show ?thesis using sk no parseredirs_text[OF assms(1) _ _ k assms(2), of "[]"] parseargs_stop[OF assms(1), of "[]" rs]
      by (auto simp: peek_eq words_def)
  next
    case False
    have "parseredirs [] ?s = Inr ([], ?s)"
      using words_head[OF False assms(3)] sk by (subst parseredirs.simps) (auto simp: peek_eq symbols_def)
    then show ?thesis using sk no parseargs_text[OF assms(1,2,3), of "[]" "[]"] assms(4) False by (auto simp: peek_eq)
  qed
qed

lemma block_text:
  assumes "parseline n (s @ c_close # redirs rs @ r) = Inr (c, c_close # redirs rs @ r)" "skip (s @ [c_close]) = s @ [c_close]"
    "starts [c_pipe, c_close, c_amp, c_semi] r" "list_all redir_ok rs"
  shows "parseexec (Suc (Suc n)) (paren s @ redirs rs @ r) = Inr (redircmds c rs, r)"
proof -
  have k: "skip r = r" using assms(3) by (rule skip_starts) (simp add: symbols_def)
  have "skip (s @ c_close # redirs rs @ r) = s @ c_close # redirs rs @ r"
    using assms(2) skip_length[of "tl s @ [c_close]"] by (cases s) (auto simp: skip_Cons symbols_def split: if_splits)
  moreover have "c_open \<in> set symbols" "c_close \<in> set symbols" by (simp_all add: symbols_def)
  ultimately show ?thesis
    using assms(1) parseredirs_text[OF assms(3) _ _ k assms(4), of "[]"] skip_redirs[OF k, of rs]
    by (simp add: paren_def peek_eq gettoken_symbol)
qed

lemma pipe_of_exec: "parseexec n ps = Inr (c, r) \<Longrightarrow> starts [c_close, c_amp, c_semi] r \<Longrightarrow> parsepipe (Suc n) ps = Inr (c, r)"
  using skip_starts[of "[c_close, c_amp, c_semi]" r] by (auto simp: peek_eq starts_def symbols_def)

lemma line_of_pipe:
  assumes "parsepipe n ps = Inr (c, r)" "starts [c_close] r"
  shows "parseline (Suc n) ps = Inr (c, r)"
proof -
  have "skip r = r" using skip_starts[OF assms(2)] by (simp add: symbols_def)
  moreover from this have "parseback c r = (c, r)" using assms(2) by (subst parseback.simps) (auto simp: peek_eq starts_def)
  ultimately show ?thesis using assms by (auto simp: peek_eq starts_def)
qed

text \<open>The command inside the redirections.\<close>

lemma plain_split:
  "plain c \<Longrightarrow> cmd_ok c \<Longrightarrow> \<exists>d rs. c = redircmds d rs \<and> list_all redir_ok rs \<and> cmd_ok d \<and>
     (case d of EXEC args \<Rightarrow> unparse c = words args @ redirs rs
      | _ \<Rightarrow> \<not> plain d \<and> size d < size c \<and> unparse c = paren (unparse d) @ redirs rs)"
proof (induction c)
  case (EXEC args)
  then show ?case by (intro exI[of _ "EXEC args"] exI[of _ "[]"]) (simp add: redircmds_def redirs_def)
next
  case (REDIR c fn mode fd)
  show ?case
  proof (cases "plain c")
    case True
    then obtain d rs where d: "c = redircmds d rs" "list_all redir_ok rs" "cmd_ok d"
      "case d of EXEC args \<Rightarrow> unparse c = words args @ redirs rs
       | _ \<Rightarrow> \<not> plain d \<and> size d < size c \<and> unparse c = paren (unparse d) @ redirs rs"
      using REDIR by auto
    have r: "redirs (rs @ [(fn, mode, fd)]) = redirs rs @ redirs [(fn, mode, fd)]" by (simp add: redirs_def)
    show ?thesis
      by (rule exI[of _ d], rule exI[of _ "rs @ [(fn, mode, fd)]"], unfold r)
        (use d True REDIR.prems(2) in \<open>cases d; simp add: redircmds_def\<close>)
  next
    case False
    then show ?thesis using REDIR.prems(2)
      by (intro exI[of _ c] exI[of _ "[(fn, mode, fd)]"]) (cases c; simp add: redircmds_def)
  qed
qed simp_all

lemma paren_skip [simp]: "skip (paren s @ r) = paren s @ r"
  by (simp add: paren_def symbols_def)

lemma unparse_skip: "cmd_ok c \<Longrightarrow> skip (unparse c @ [c_close]) = unparse c @ [c_close]"
proof (cases "plain c")
  case True
  assume "cmd_ok c"
  from plain_split[OF True this] obtain d rs where d: "cmd_ok d"
    "case d of EXEC args \<Rightarrow> unparse c = words args @ redirs rs
     | _ \<Rightarrow> \<not> plain d \<and> size d < size c \<and> unparse c = paren (unparse d) @ redirs rs" by blast
  have "skip (redirs rs @ [c_close]) = redirs rs @ [c_close]" by (rule skip_redirs) (simp add: symbols_def)
  with d show ?thesis using skip_words by (cases d) auto
next
  case False
  then show ?thesis by (cases c) auto
qed

definition parsed_line :: "cmd \<Rightarrow> bool" where
  "parsed_line c \<longleftrightarrow> (\<forall>n r. starts [c_close] r \<and> 4 * length (unparse c @ r) + 4 \<le> n \<longrightarrow> parseline n (unparse c @ r) = Inr (c, r))"

lemma part_text:
  assumes "parsed_line c" "cmd_ok c" "list_all redir_ok rs" "starts [c_pipe, c_close, c_amp, c_semi] r"
    "4 * length (paren (unparse c) @ redirs rs @ r) + 2 \<le> n"
  shows "parseexec n (paren (unparse c) @ redirs rs @ r) = Inr (redircmds c rs, r)"
proof -
  obtain k where n: "n = Suc (Suc k)" by (rule that[of "n - 2"]) (use assms(5) in simp)
  have "parseline k (unparse c @ c_close # redirs rs @ r) = Inr (c, c_close # redirs rs @ r)"
    using assms(1,5) n by (simp add: parsed_line_def paren_def starts_def)
  then show ?thesis unfolding n by (rule block_text) (use unparse_skip assms in auto)
qed

lemma part_pipe:
  assumes "parsed_line c" "cmd_ok c" "starts [c_close, c_amp, c_semi] r" "4 * length (paren (unparse c) @ r) + 3 \<le> n"
  shows "parsepipe n (paren (unparse c) @ r) = Inr (c, r)"
proof -
  obtain k where n: "n = Suc k" using assms(4) by (cases n) auto
  have "parseexec k (paren (unparse c) @ r) = Inr (c, r)"
    using part_text[of c "[]" r k] assms n by (auto simp: redirs_def redircmds_def starts_def)
  then show ?thesis unfolding n by (rule pipe_of_exec) (rule assms(3))
qed

text \<open>Each kind of command, when its parts are parsed; the fuel is \<open>Suc (Suc (Suc k))\<close>.\<close>

lemma plain_line:
  assumes "plain c" "cmd_ok c" "\<And>d. size d < size c \<Longrightarrow> cmd_ok d \<Longrightarrow> parsed_line d" "starts [c_close] r"
    "4 * length (unparse c @ r) + 1 \<le> k"
  shows "parseline (Suc (Suc (Suc k))) (unparse c @ r) = Inr (c, r)"
proof -
  have rr: "starts [c_pipe, c_close, c_amp, c_semi] r" "starts [c_close, c_amp, c_semi] r" using assms(4) by (auto simp: starts_def)
  obtain d rs where d: "c = redircmds d rs" "list_all redir_ok rs" "cmd_ok d"
    "case d of EXEC args \<Rightarrow> unparse c = words args @ redirs rs
     | _ \<Rightarrow> \<not> plain d \<and> size d < size c \<and> unparse c = paren (unparse d) @ redirs rs"
    using plain_split[OF assms(1,2)] by blast
  have "parseexec (Suc k) (unparse c @ r) = Inr (c, r)"
  proof (cases "\<exists>args. d = EXEC args")
    case True
    then show ?thesis using d exec_text[OF rr(1) d(2), of _ k] by auto
  next
    case False
    then have "size d < size c" "unparse c = paren (unparse d) @ redirs rs" using d(4) by (cases d; simp)+
    then show ?thesis using part_text[OF assms(3) d(3,2) rr(1), of "Suc k"] d assms(5) by simp
  qed
  then show ?thesis by (intro line_of_pipe pipe_of_exec rr assms(4))
qed

lemma pipe_line:
  assumes "parsed_line a" "cmd_ok a" "parsed_line b" "cmd_ok b" "starts [c_close] r" "4 * length (unparse (PIPE a b) @ r) + 1 \<le> k"
  shows "parseline (Suc (Suc (Suc k))) (unparse (PIPE a b) @ r) = Inr (PIPE a b, r)"
proof -
  have rr: "starts [c_close, c_amp, c_semi] r" using assms(5) by (auto simp: starts_def)
  have "parseexec (Suc k) (paren (unparse a) @ c_pipe # paren (unparse b) @ r) = Inr (a, c_pipe # paren (unparse b) @ r)"
    using part_text[OF assms(1,2), of "[]" "c_pipe # paren (unparse b) @ r" "Suc k"] assms(6)
    by (simp add: redirs_def redircmds_def starts_def)
  moreover have "parsepipe (Suc k) (paren (unparse b) @ r) = Inr (b, r)"
    using part_pipe[OF assms(3,4) rr, of "Suc k"] assms(6) by (simp add: paren_def)
  ultimately have "parsepipe (Suc (Suc k)) (unparse (PIPE a b) @ r) = Inr (PIPE a b, r)"
    by (simp add: peek_eq gettoken_symbol symbols_def del: parseexec.simps)
  then show ?thesis by (rule line_of_pipe) (rule assms(5))
qed

lemma list_line:
  assumes "parsed_line a" "cmd_ok a" "parsed_line b" "cmd_ok b" "starts [c_close] r" "4 * length (unparse (LIST a b) @ r) + 1 \<le> k"
  shows "parseline (Suc (Suc (Suc k))) (unparse (LIST a b) @ r) = Inr (LIST a b, r)"
proof -
  let ?q = "c_semi # paren (unparse b) @ r"
  have rr: "starts [c_close, c_amp, c_semi] r" using assms(5) by (auto simp: starts_def)
  have "parsepipe (Suc (Suc k)) (paren (unparse a) @ ?q) = Inr (a, ?q)"
    using part_pipe[OF assms(1,2), of ?q "Suc (Suc k)"] assms(6) by (simp add: starts_def)
  moreover have "parsepipe (Suc k) (paren (unparse b) @ r) = Inr (b, r)"
    using part_pipe[OF assms(3,4) rr, of "Suc k"] assms(6) by (simp add: paren_def)
  then have "parseline (Suc (Suc k)) (paren (unparse b) @ r) = Inr (b, r)" by (rule line_of_pipe) (rule assms(5))
  moreover have "parseback a ?q = (a, ?q)" by (subst parseback.simps) (simp add: peek_eq symbols_def)
  ultimately show ?thesis
    unfolding parseline.simps(2)[of "Suc (Suc k)"]
    by (simp add: peek_eq gettoken_symbol symbols_def del: parseline.simps parsepipe.simps)
qed

lemma back_line:
  assumes "parsed_line a" "cmd_ok a" "starts [c_close] r" "4 * length (unparse (BACK a) @ r) + 1 \<le> k"
  shows "parseline (Suc (Suc (Suc k))) (unparse (BACK a) @ r) = Inr (BACK a, r)"
proof -
  have s: "skip r = r" using skip_starts[OF assms(3)] by (simp add: symbols_def)
  have "parsepipe (Suc (Suc k)) (paren (unparse a) @ c_amp # r) = Inr (a, c_amp # r)"
    using part_pipe[OF assms(1,2), of "c_amp # r" "Suc (Suc k)"] assms(4) by (simp add: starts_def)
  moreover have "parseback (BACK a) r = (BACK a, r)" using assms(3) s by (subst parseback.simps) (auto simp: peek_eq starts_def)
  then have "parseback a (c_amp # r) = (BACK a, r)"
    using s by (subst parseback.simps) (simp add: peek_eq gettoken_symbol symbols_def)
  ultimately show ?thesis
    unfolding parseline.simps(2)[of "Suc (Suc k)"] using assms(3) s
    by (auto simp: peek_eq starts_def simp del: parseline.simps parsepipe.simps)
qed

lemma unparse_line: "cmd_ok c \<Longrightarrow> parsed_line c"
proof (induction c rule: measure_induct_rule[of size])
  case (less c)
  have "parseline n (unparse c @ r) = Inr (c, r)" if r: "starts [c_close] r" and n: "4 * length (unparse c @ r) + 4 \<le> n" for n r
  proof -
    obtain k where k: "n = Suc (Suc (Suc k))" by (rule that[of "n - 3"]) (use n in simp)
    have n': "4 * length (unparse c @ r) + 1 \<le> k" using n k by simp
    show ?thesis
    proof (cases "plain c")
      case True
      then show ?thesis unfolding k using plain_line[OF _ less.prems less.IH r n'] by blast
    next
      case False
      then show ?thesis
        unfolding k using less r n' pipe_line[of _ _ r k] list_line[of _ _ r k] back_line[of _ r k]
        by (cases c) (simp_all del: parseline.simps unparse.simps)
    qed
  qed
  then show ?case by (simp add: parsed_line_def)
qed

text \<open>(C35) A command is read back: for every command of words without white space and symbols, fewer than ten in each
  simple command, and with the redirections that the shell knows, parsing its printed form returns the command.\<close>

theorem parsecmd_unparse:
  assumes "cmd_ok c"
  shows "parsecmd (unparse c) = Inr c"
proof -
  have "parseline (4 * length (unparse c) + 4) (unparse c @ []) = Inr (c, [])"
    by (rule unparse_line[OF assms, unfolded parsed_line_def, rule_format]) (simp add: starts_def)
  then show ?thesis by (simp add: parsecmd_def)
qed

theorem parsecmd_unparse_witness:
  "parsecmd (unparse (LIST (REDIR (PIPE (EXEC [[97], [98, 99]]) (BACK (EXEC [[100]]))) [101] 513 1) (EXEC []))) =
     Inr (LIST (REDIR (PIPE (EXEC [[97], [98, 99]]) (BACK (EXEC [[100]]))) [101] 513 1) (EXEC []))"
  by (rule parsecmd_unparse) (simp add: word_ok_def redir_ok_def word_char_def whitespace_def symbols_def)

section \<open>Running a command\<close>

text \<open>What a descriptor stands for. A table of descriptors is copied by \<^verbatim>\<open>fork\<close> and kept by \<^verbatim>\<open>exec\<close>; \<^verbatim>\<open>open\<close>, \<^verbatim>\<open>dup\<close> and \<^verbatim>\<open>pipe\<close> take the
  lowest free descriptors. Pipes are numbered in the order of their creation.\<close>

datatype channel = Console_ch | Read_end nat | Write_end nat | File_ch "u8 list" nat

type_synonym fdtab = "nat \<Rightarrow> channel option"

definition lowest :: "fdtab \<Rightarrow> nat option" where
  "lowest fds = find (\<lambda>i. fds i = None) [0..<16]"

definition fd_open :: "channel \<Rightarrow> fdtab \<Rightarrow> (nat \<times> fdtab) option" where
  "fd_open ch fds = map_option (\<lambda>i. (i, fds(i := Some ch))) (lowest fds)"

definition fd_close :: "nat \<Rightarrow> fdtab \<Rightarrow> fdtab" where
  "fd_close i fds = fds(i := None)"

definition fd_dup :: "nat \<Rightarrow> fdtab \<Rightarrow> fdtab" where
  "fd_dup i fds = (case fds i of None \<Rightarrow> fds | Some ch \<Rightarrow> (case fd_open ch fds of None \<Rightarrow> fds | Some (_, fds) \<Rightarrow> fds))"

definition fd_pipe :: "nat \<Rightarrow> fdtab \<Rightarrow> (nat \<times> nat \<times> fdtab) option" where
  "fd_pipe k fds =
     (case fd_open (Read_end k) fds of
        None \<Rightarrow> None
      | Some (p0, fds) \<Rightarrow> (case fd_open (Write_end k) fds of None \<Rightarrow> None | Some (p1, fds) \<Rightarrow> Some (p0, p1, fds)))"

text \<open>\<open>runcmd can_open c fds k\<close>: the programs that \<^verbatim>\<open>runcmd\<close> starts with the arguments and descriptors of each, and the number of the
  next pipe. \<open>can_open\<close> says which files can be opened in which mode. A command whose pipe cannot be made starts nothing;
  \<^verbatim>\<open>fork\<close> is taken to succeed.\<close>

fun runcmd :: "(u8 list \<Rightarrow> nat \<Rightarrow> bool) \<Rightarrow> cmd \<Rightarrow> fdtab \<Rightarrow> nat \<Rightarrow> (u8 list list \<times> fdtab) list \<times> nat" where
  "runcmd can_open (EXEC argv) fds k = (if argv = [] then [] else [(argv, fds)], k)"
| "runcmd can_open (REDIR c file mode fd) fds k =
     (let fds = fd_close fd fds in
      if \<not> can_open file mode then ([], k)
      else (case fd_open (File_ch file mode) fds of None \<Rightarrow> ([], k) | Some (_, fds) \<Rightarrow> runcmd can_open c fds k))"
| "runcmd can_open (LIST c d) fds k =
     (let (xs, k) = runcmd can_open c fds k; (ys, k) = runcmd can_open d fds k in (xs @ ys, k))"
| "runcmd can_open (PIPE c d) fds k =
     (case fd_pipe k fds of
        None \<Rightarrow> ([], k)
      | Some (p0, p1, fds) \<Rightarrow>
          let (xs, k) = runcmd can_open c (fd_close p1 (fd_close p0 (fd_dup p1 (fd_close 1 fds)))) (k + 1);
              (ys, k) = runcmd can_open d (fd_close p1 (fd_close p0 (fd_dup p0 (fd_close 0 fds)))) k
          in (xs @ ys, k))"
| "runcmd can_open (BACK c) fds k = runcmd can_open c fds k"

definition std_fds :: "fdtab \<Rightarrow> bool" where
  "std_fds fds \<longleftrightarrow> dom fds = {0, 1, 2}"

lemma std_fdsD: "std_fds fds \<Longrightarrow> fds i = None \<longleftrightarrow> i \<noteq> 0 \<and> i \<noteq> 1 \<and> i \<noteq> 2"
proof -
  assume "std_fds fds"
  then have "i \<in> dom fds \<longleftrightarrow> i \<in> {0, 1, 2}" by (simp only: std_fds_def)
  then show ?thesis unfolding domIff by (cases "fds i") simp_all
qed

lemma fd_pipe_std:
  assumes "std_fds fds"
  shows "fd_pipe k fds = Some (3, 4, fds(3 := Some (Read_end k), 4 := Some (Write_end k)))"
    "fd_close 4 (fd_close 3 (fd_dup 4 (fd_close 1 (fds(3 := Some (Read_end k), 4 := Some (Write_end k)))))) = fds(1 := Some (Write_end k))"
    "fd_close 4 (fd_close 3 (fd_dup 3 (fd_close 0 (fds(3 := Some (Read_end k), 4 := Some (Write_end k)))))) = fds(0 := Some (Read_end k))"
proof -
  note n = std_fdsD[OF assms]
  have u: "[0..<16] = [0, 1, 2, 3, 4] @ [5..<16]" by (simp add: upt_conv_Cons)
  have none: "fds 3 = None" "fds 4 = None" "fds 0 \<noteq> None" "fds 1 \<noteq> None" "fds 2 \<noteq> None" using n by auto
  show "fd_pipe k fds = Some (3, 4, fds(3 := Some (Read_end k), 4 := Some (Write_end k)))"
    using none by (simp add: fd_pipe_def fd_open_def lowest_def u)
  show "fd_close 4 (fd_close 3 (fd_dup 4 (fd_close 1 (fds(3 := Some (Read_end k), 4 := Some (Write_end k)))))) = fds(1 := Some (Write_end k))"
    using none by (auto simp: fd_dup_def fd_open_def lowest_def fd_close_def u fun_eq_iff)
  show "fd_close 4 (fd_close 3 (fd_dup 3 (fd_close 0 (fds(3 := Some (Read_end k), 4 := Some (Write_end k)))))) = fds(0 := Some (Read_end k))"
    using none by (auto simp: fd_dup_def fd_open_def lowest_def fd_close_def u fun_eq_iff)
qed

lemma fd_redir_std:
  assumes "std_fds fds" "fd = 0 \<or> fd = 1"
  shows "fd_open ch (fd_close fd fds) = Some (fd, fds(fd := Some ch))"
proof -
  have u: "[0..<16] = [0, 1] @ [2..<16]" by (simp add: upt_conv_Cons)
  have none: "fds 0 \<noteq> None" by (simp add: std_fdsD[OF assms(1)])
  from assms(2) show ?thesis
  proof
    assume "fd = 0"
    then show ?thesis by (simp add: fd_open_def lowest_def fd_close_def u)
  next
    assume "fd = 1"
    then show ?thesis using none by (simp add: fd_open_def lowest_def fd_close_def u)
  qed
qed

lemma std_fds_upd: "std_fds fds \<Longrightarrow> i \<in> {0, 1, 2} \<Longrightarrow> std_fds (fds(i := Some ch))"
  by (auto simp: std_fds_def)

lemma runcmd_pipe:
  assumes "std_fds fds"
  shows "runcmd can_open (PIPE c d) fds k =
    (let (xs, k1) = runcmd can_open c (fds(1 := Some (Write_end k))) (k + 1); (ys, k2) = runcmd can_open d (fds(0 := Some (Read_end k))) k1
     in (xs @ ys, k2))"
  unfolding runcmd.simps fd_pipe_std[OF assms] option.case prod.case ..

lemma runcmd_std:
  "cmd_ok c \<Longrightarrow> std_fds fds \<Longrightarrow> (argv, f) \<in> set (fst (runcmd can_open c fds k)) \<Longrightarrow> std_fds f"
proof (induction c arbitrary: fds k)
  case (REDIR c fn mode fd)
  then have "fd = 0 \<or> fd = 1" by (auto simp: redir_ok_def)
  then have "fd_open ch (fd_close fd fds) = Some (fd, fds(fd := Some ch))" "std_fds (fds(fd := Some ch))" for ch
    using fd_redir_std[OF REDIR.prems(2)] std_fds_upd[OF REDIR.prems(2)] by auto
  with REDIR show ?case by (auto split: if_splits)
next
  case (PIPE c d)
  obtain xs k1 where x: "runcmd can_open c (fds(1 := Some (Write_end k))) (k + 1) = (xs, k1)" by fastforce
  obtain ys k2 where y: "runcmd can_open d (fds(0 := Some (Read_end k))) k1 = (ys, k2)" by fastforce
  have s: "std_fds (fds(1 := Some (Write_end k)))" "std_fds (fds(0 := Some (Read_end k)))"
    using std_fds_upd[OF PIPE.prems(2)] by auto
  have "(argv, f) \<in> set xs \<or> (argv, f) \<in> set ys"
    using PIPE.prems(3) x y unfolding runcmd_pipe[OF PIPE.prems(2)] by simp
  moreover have "cmd_ok c" "cmd_ok d" using PIPE.prems(1) by simp_all
  ultimately show ?case
    using PIPE.IH(1)[OF _ s(1), of "k + 1", unfolded x] PIPE.IH(2)[OF _ s(2), of k1, unfolded y] unfolding fst_conv by blast
next
  case (LIST c d)
  obtain xs k1 where x: "runcmd can_open c fds k = (xs, k1)" by fastforce
  obtain ys k2 where y: "runcmd can_open d fds k1 = (ys, k2)" by fastforce
  have "(argv, f) \<in> set xs \<or> (argv, f) \<in> set ys" using LIST.prems(3) x y by simp
  then show ?case using LIST.IH(1)[OF _ LIST.prems(2), of k] LIST.IH(2)[OF _ LIST.prems(2), of k1] LIST.prems(1) x y by auto
qed (auto split: if_splits)

text \<open>The programs of a pipeline \<open>c0 | c1 | ...\<close>, and the table of the one that begins at pipe \<open>k\<close>.\<close>

fun pipeline :: "u8 list list \<Rightarrow> u8 list list list \<Rightarrow> cmd" where
  "pipeline a [] = EXEC a"
| "pipeline a (b # bs) = PIPE (EXEC a) (pipeline b bs)"

fun wired :: "u8 list list \<Rightarrow> u8 list list list \<Rightarrow> fdtab \<Rightarrow> nat \<Rightarrow> (u8 list list \<times> fdtab) list" where
  "wired a [] fds k = [(a, fds)]"
| "wired a (b # bs) fds k = (a, fds(1 := Some (Write_end k))) # wired b bs (fds(0 := Some (Read_end k))) (k + 1)"

lemma runcmd_pipeline:
  "list_all (\<lambda>a. a \<noteq> []) (a # as) \<Longrightarrow> std_fds fds \<Longrightarrow> runcmd can_open (pipeline a as) fds k = (wired a as fds k, k + length as)"
proof (induction a as arbitrary: fds k rule: pipeline.induct)
  case (2 a b bs)
  have "std_fds (fds(0 := Some (Read_end k)))" using std_fds_upd[OF 2(3)] by simp
  with 2 show ?case unfolding pipeline.simps runcmd_pipe[OF 2(3)] by simp
qed simp

text \<open>(C37) Descriptors: with descriptors 0, 1 and 2 open, every program that a parsed command starts has exactly these three, so that
  no end of a pipe is left open behind its back and a reader sees the end of its input; and in a pipeline each program
  writes to the pipe from which the next one reads.\<close>

theorem runcmd_descriptors:
  assumes "std_fds fds" "cmd_ok c" "list_all (\<lambda>a. a \<noteq> []) (a # as)"
  shows "(\<forall>(argv, f) \<in> set (fst (runcmd can_open c fds k)). dom f = {0, 1, 2}) \<and>
    runcmd can_open (pipeline a as) fds k = (wired a as fds k, k + length as)"
proof -
  have "\<forall>(argv, f) \<in> set (fst (runcmd can_open c fds k)). dom f = {0, 1, 2}"
    using runcmd_std[OF assms(2,1), unfolded std_fds_def] by blast
  then show ?thesis using runcmd_pipeline[OF assms(3,1)] by blast
qed

theorem runcmd_descriptors_witness:
  "fst (runcmd (\<lambda>_ _. True) (pipeline [[97]] [[[98]]]) [0 \<mapsto> Console_ch, 1 \<mapsto> Console_ch, 2 \<mapsto> Console_ch] 0) =
     [([[97]], [0 \<mapsto> Console_ch, 1 \<mapsto> Write_end 0, 2 \<mapsto> Console_ch]), ([[98]], [0 \<mapsto> Read_end 0, 1 \<mapsto> Console_ch, 2 \<mapsto> Console_ch])]"
  (is "fst (runcmd ?o ?c ?fds 0) = _")
proof -
  have s: "std_fds ?fds" unfolding std_fds_def by auto
  have c: "cmd_ok ?c" by (simp add: word_ok_def word_char_def whitespace_def symbols_def)
  have "runcmd ?o ?c ?fds 0 = (wired [[97]] [[[98]]] ?fds 0, 0 + length [[[98]]])"
    using runcmd_descriptors[OF s c, of "[[97]]" "[[[98]]]" ?o 0] by simp
  then show ?thesis by (simp add: fun_upd_twist)
qed

end
