(* ===== verification/Spec2Isabelle.thy ===== *)
theory Spec2Isabelle
  imports Trap Fs_Theorems Itable Namei Mem_Theorems Trap_Theorems Pipe_Theorems Console_Theorems Sched_Theorems Fork_Theorems Spin Ide Grep Sh
begin

text \<open>
  \<^bold>\<open>A verification of xv6 with symbolic links, large files and extents\<close>

  The program is a teaching kernel for the x86 (\<^verbatim>\<open>src/*.c\<close>): a Unix-like system with a file system on a journalled
  disk, virtual memory, processes, pipes and a console, extended with \<^verbatim>\<open>lseek\<close>, symbolic links, a doubly indirect block,
  extent files, lazy allocation of memory and two more schedulers.

  \<^bold>\<open>How the model is built.\<close> A kernel function is a function of the state that returns a new state and a value, or stops:
  \<open>('s, 'a) K = 's \<Rightarrow> stop + 'a \<times> 's\<close> of theory \<open>Xv6_Prelude\<close>, where \<open>stop\<close> is a panic, a wait on which
  the process sleeps, the end of the process, or a fault (an access outside an array, a null pointer). The combinators \<open>bindK\<close>, \<open>thenK\<close>,
  \<open>whenK\<close> and \<open>forK\<close> are sequence, \<^verbatim>\<open>if\<close> and \<^verbatim>\<open>for\<close> with \<^verbatim>\<open>return\<close> and \<^verbatim>\<open>break\<close>, so that a definition follows the source
  line by line, early returns and error paths included. The state is a chain of records, each extended by the next: the
  blocks of the disk (\<open>bstore\<close>), the log (\<open>lstore\<close>), the console (\<open>conss\<close>), the superblock (\<open>fsst\<close>), processes and
  the inode table (\<open>icst\<close>), memory (\<open>memst\<close>), files and pipes (\<open>filest\<close>), the rest of the process table (\<open>procst\<close>)
  and the keyboard (\<open>trapst\<close>). Pointers into tables are indices; kernel memory is a function from addresses to bytes,
  and page tables and the list of free pages are bytes of it. Machine integers are words, or natural numbers with the
  wrap-around written out (\<open>u32\<close>, \<open>s32\<close>).

  \<^bold>\<open>The parts.\<close>
  \<^item> \<open>CString\<close>: \<^verbatim>\<open>string.c\<close>. \<open>Layout\<close>: the structures of \<^verbatim>\<open>fs.h\<close> and \<^verbatim>\<open>stat.h\<close> as bytes.
  \<^item> \<open>Locks\<close>: \<^verbatim>\<open>sleeplock.c\<close>. \<open>Spin\<close>: \<^verbatim>\<open>spinlock.c\<close>, on several processors.
  \<^item> \<open>Ide\<close>: the request queue of \<^verbatim>\<open>ide.c\<close>.
  \<^item> \<open>Bstore\<close>, \<open>Ring\<close>, \<open>Bio\<close>: what a store of blocks promises, the list of buffers, and \<^verbatim>\<open>bio.c\<close> with \<^verbatim>\<open>memide.c\<close>.
  \<^item> \<open>Log\<close>, \<open>Logged\<close>: \<^verbatim>\<open>log.c\<close> over the buffer cache, crashes between any two writes of the disk, and what the log
    promises to the file system (\<open>begin_op_spec\<close> and so on), on which the theories below are built.
  \<^item> \<open>Balloc\<close>, \<open>Inode\<close>, \<open>Bmap\<close>, \<open>Rdwr\<close>, \<open>Dir\<close>, \<open>Path\<close>: \<^verbatim>\<open>fs.c\<close> from the bitmap to path names, with \<^verbatim>\<open>consoleread\<close>
    and \<^verbatim>\<open>consolewrite\<close> as devices; \<open>Console\<close>: the rest of \<^verbatim>\<open>console.c\<close>; \<open>Kbd\<close>: \<^verbatim>\<open>kbd.c\<close>.
  \<^item> \<open>Kalloc\<close>, \<open>Vm\<close>, \<open>Uvm\<close>: \<^verbatim>\<open>kalloc.c\<close>, \<^verbatim>\<open>vm.c\<close> and \<^verbatim>\<open>allocPage\<close> of \<^verbatim>\<open>trap.c\<close>.
  \<^item> \<open>Pipe\<close>, \<open>File\<close>, \<open>Sysargs\<close>, \<open>Sysfile\<close>: \<^verbatim>\<open>pipe.c\<close>, \<^verbatim>\<open>file.c\<close>, \<^verbatim>\<open>syscall.c\<close>, \<^verbatim>\<open>sysfile.c\<close>.
  \<^item> \<open>Proctab\<close>, \<open>Proc\<close>, \<open>Exec\<close>, \<open>Trap\<close>: \<^verbatim>\<open>proc.c\<close>, \<^verbatim>\<open>exec.c\<close>, \<^verbatim>\<open>sysproc.c\<close>, \<^verbatim>\<open>trap.c\<close>.
  \<^item> \<open>Grep\<close>, \<open>Sh\<close>: two user programs, the matcher and line buffer of \<^verbatim>\<open>grep.c\<close> and the parser of \<^verbatim>\<open>sh.c\<close> with the descriptors of the
    programs it starts.
  \<^item> \<open>Small_Fs\<close>, \<open>Small_Mem\<close>, \<open>Small_Sys\<close>: concrete states, a disk of 60 blocks with a root directory, some free pages and
    a process table, at which the theorems with hypotheses are evaluated.

  \<^bold>\<open>How the parts meet.\<close> A store of blocks is an interface: \<open>Xv6_Prelude\<close> has the locale \<open>simulation\<close> (an invariant, an
  abstraction, the operations and their specification; its lemmas lift one request to all sequences of requests), and it is
  interpreted for the buffer cache against the store of blocks (\<open>Bio\<close>), for the log over the buffer cache against the store with
  transactions (\<open>Logged\<close>), and for pipes against a bounded queue (\<open>Pipe\<close>). \<^verbatim>\<open>fs.c\<close> is modelled over the specification of the log, so
  what is proved of it holds for the code below it. \<open>Ide\<close> shows that the driver with interrupts has the effect of the
  synchronous driver on which \<open>Bio\<close> rests.

  \<^bold>\<open>What is shown.\<close>
  \<^item> \<open>Logged\<close>, \<open>Log\<close>, \<open>Bio\<close>: the refinements above; a crash after any write of a commit leaves all of a transaction or
    nothing of it; recovery may itself be interrupted any number of times.
  \<^item> \<open>CString\<close>: \<^verbatim>\<open>memmove\<close> for every overlap; the two paths of \<^verbatim>\<open>memset\<close> agree.
  \<^item> \<open>Fs_Theorems\<close>, \<open>Itable\<close>, \<open>Namei\<close>: a write is read back and touches no other file; \<^verbatim>\<open>balloc\<close> and \<^verbatim>\<open>bfree\<close>; a linked name is found;
    no inode has two slots of the table; what \<^verbatim>\<open>iupdate\<close> wrote is what \<^verbatim>\<open>ilock\<close> loads; \<^verbatim>\<open>namei\<close> is a walk over the directories on the disk.
  \<^item> \<open>Mem_Theorems\<close>, \<open>Arg_Theorems\<close>, \<open>Trap_Theorems\<close>: no page is handed out twice; what each page table maps after set-up, growth,
    copying and a page fault; bytes and strings exchanged with a process; faults that are mishandled.
  \<^item> \<open>Pipe_Theorems\<close>, \<open>Console_Theorems\<close>, \<open>Fork_Theorems\<close>, \<open>Sched_Theorems\<close>: a pipe delivers every byte once and in order under every
    interleaving, and never blocks both sides; the console is a line editor and a typed line is what is read; what a child
    process has; which runnable processes the schedulers run and which they never do.
  \<^item> \<open>Spin\<close>: mutual exclusion on any number of processors, and a deadlock that the order of two locks allows.
  \<^item> \<open>Ide\<close>: requests in their order, no step fails, and the queue is empty after at most as many interrupts as there are buffers.
  \<^item> \<open>Grep\<close>, \<open>Sh\<close>: the matcher decides the language of its pattern; which lines are printed and which are lost; the parser ends
    on every line and reads back every command; a started program has descriptors 0, 1 and 2 and no other.

  \<^bold>\<open>Bounds.\<close> Loops over tables run over the indices of the table. The walks over the list of buffers have 31 steps, one more than
  there are buffers, and the list of requests 30; the invariants \<open>ring_ok\<close> and \<open>behind\<close> show that this is enough. The recursion of the
  shell's parser is bounded by four times the length of the line plus four; \<open>parsecmd_ends\<close> shows that the bound is not
  reached. The other loops are recursions with a termination proof. The state in which a process sleeps is the end of an
  operation, not a loop: the process runs the operation's next round when it is woken.

  \<^bold>\<open>Atomicity.\<close> A critical section of a spin lock is one step in all theories but \<open>Spin\<close>, which justifies this: it shows that no two
  processors are in the section of one lock. Interleaving at the places where the code sleeps is modelled for pipes, the disk driver
  and the page allocator; the file system operations are those of one process at a time.

  \<^bold>\<open>Not modelled.\<close> The boot loader, the start of the processors and the set-up of the interrupt controllers, the segments and the
  interrupt descriptors (\<^verbatim>\<open>bootmain.c\<close>, \<^verbatim>\<open>main.c\<close>, \<^verbatim>\<open>lapic.c\<close>, \<^verbatim>\<open>ioapic.c\<close>, \<^verbatim>\<open>mp.c\<close>, \<^verbatim>\<open>picirq.c\<close>, \<^verbatim>\<open>seginit\<close>, \<^verbatim>\<open>tvinit\<close>, \<^verbatim>\<open>uartinit\<close>): they only write
  device registers and tables of the processor. Assembly: what it does to the trap frame and the context is part of the definitions
  that stand for it. The C library of user programs, the program that makes the first disk image, and the test and demonstration
  programs: they run on top of the system calls and hold no state of the kernel.
\<close>

end
